(* ===== verification/Prelude.thy ===== *)
theory Prelude
  imports Complex_Main "HOL-Library.Word"
begin

text \<open>
  Shared material of the development: the result type of C++ code that can throw or run into
  undefined behaviour, the loop combinator the C++ \<open>for\<close> loops are translated to, checked
  \<open>operator[]\<close> on vectors and on vectors of vectors, 32-bit signed arithmetic whose overflow is
  undefined, decimal printing of sizes (\<open>std::to_string\<close>), and the lemma collections the component
  theories use.
\<close>

named_theorems res_simps "evaluation of the result type and of loops"
named_theorems cpp_arith "integer conversions of C++"

subsection \<open>Results\<close>

text \<open>
  The exceptions of \<open>image_processor/include/exception.h\<close>, with their messages, and a value for
  the executions the C++ standard leaves undefined (an index out of range, signed overflow, a
  floating-point value that does not fit the integer it is converted to).
\<close>

datatype cpp_error =
    ParserException string
  | ReadImageException string
  | WriteImageException string
  | ApplyFilterException string
  | Undefined

text \<open>\<open>Exception::what\<close>; an undefined execution has no message.\<close>

fun error_what :: "cpp_error \<Rightarrow> string" where
  "error_what (ParserException m) = m"
| "error_what (ReadImageException m) = m"
| "error_what (WriteImageException m) = m"
| "error_what (ApplyFilterException m) = m"
| "error_what Undefined = []"

type_synonym 'a res = "cpp_error + 'a"

text \<open>Sequencing: the rest of the code runs only when the first part returned.\<close>

definition bnd :: "'e + 'a \<Rightarrow> ('a \<Rightarrow> 'e + 'b) \<Rightarrow> 'e + 'b" where
  "bnd r k = (case r of Inl e \<Rightarrow> Inl e | Inr x \<Rightarrow> k x)"

lemma bnd_simps [simp, res_simps]:
  "bnd (Inl e) k = Inl e" "bnd (Inr x) k = k x"
  by (simp_all add: bnd_def)

lemma bnd_Inr_iff: "bnd r k = Inr y \<longleftrightarrow> (\<exists>x. r = Inr x \<and> k x = Inr y)"
  by (cases r) simp_all

lemma bnd_Inl_iff: "bnd r k = Inl e \<longleftrightarrow> r = Inl e \<or> (\<exists>x. r = Inr x \<and> k x = Inl e)"
  by (cases r) auto

lemma bnd_assoc: "bnd (bnd r f) g = bnd r (\<lambda>x. bnd (f x) g)"
  by (cases r) simp_all

lemma bnd_cong [fundef_cong]:
  "r = r' \<Longrightarrow> (\<And>x. r' = Inr x \<Longrightarrow> k x = k' x) \<Longrightarrow> bnd r k = bnd r' k'"
  by (cases r') simp_all

text \<open>An operation that is defined exactly when its argument is.\<close>

definition defined_or :: "'e \<Rightarrow> 'a option \<Rightarrow> 'e + 'a" where
  "defined_or e v = (case v of None \<Rightarrow> Inl e | Some x \<Rightarrow> Inr x)"

lemma defined_or_simps [simp, res_simps]:
  "defined_or e None = Inl e" "defined_or e (Some x) = Inr x"
  by (simp_all add: defined_or_def)

text \<open>A \<open>for\<close> loop over the given index values, left early by an exception.\<close>

fun for_each :: "('i \<Rightarrow> 's \<Rightarrow> 'e + 's) \<Rightarrow> 'i list \<Rightarrow> 's \<Rightarrow> 'e + 's" where
  "for_each body [] s = Inr s"
| "for_each body (i # is) s = bnd (body i s) (for_each body is)"

lemma for_each_append:
  "for_each body (is @ js) s = bnd (for_each body is s) (for_each body js)"
  by (induction "is" arbitrary: s) (simp_all add: bnd_assoc bnd_def split: sum.split)

lemma for_each_cong [fundef_cong]:
  assumes "is = js" and "s = t" and "\<And>i u. i \<in> set js \<Longrightarrow> f i u = g i u"
  shows "for_each f is s = for_each g js t"
proof -
  have "(\<forall>i \<in> set js. \<forall>u. f i u = g i u) \<Longrightarrow> for_each f js t = for_each g js t" for js
    by (induction js arbitrary: t) (auto simp: bnd_def split: sum.split)
  then show ?thesis
    using assms by auto
qed

text \<open>A loop whose body never fails is a fold; an invariant of the body is one of the loop.\<close>

lemma for_each_fold:
  assumes "\<And>i s. i \<in> set is \<Longrightarrow> body i s = Inr (f i s)"
  shows "for_each body is s = Inr (fold f is s)"
  using assms by (induction "is" arbitrary: s) auto

lemma for_each_invariant:
  assumes "for_each body is s = Inr t" and "P s"
    and "\<And>i u v. i \<in> set is \<Longrightarrow> P u \<Longrightarrow> body i u = Inr v \<Longrightarrow> P v"
  shows "P t"
  using assms
proof (induction "is" arbitrary: s)
  case Nil
  then show ?case by simp
next
  case (Cons i "is")
  from Cons.prems(1) obtain u where u: "body i s = Inr u" and rest: "for_each body is u = Inr t"
    by (auto simp: bnd_Inr_iff)
  from Cons.prems(2,3) u have "P u" by auto
  with rest Cons.prems(3) show ?case by (intro Cons.IH) auto
qed

lemma for_each_total:
  assumes "P s" and "\<And>i u. i \<in> set is \<Longrightarrow> P u \<Longrightarrow> \<exists>v. body i u = Inr v \<and> P v"
  shows "\<exists>t. for_each body is s = Inr t \<and> P t"
  using assms
proof (induction "is" arbitrary: s)
  case Nil
  then show ?case by simp
next
  case (Cons i "is")
  from Cons.prems obtain u where "body i s = Inr u" "P u" by (metis list.set_intros(1))
  moreover from Cons.prems(2) \<open>P u\<close> have "\<exists>t. for_each body is u = Inr t \<and> P t"
    by (intro Cons.IH) auto
  ultimately show ?case by auto
qed

lemma for_each_reached:
  "for_each body is s = Inr t \<Longrightarrow> i \<in> set is \<Longrightarrow> \<exists>u v. body i u = Inr v"
  by (induction "is" arbitrary: s) (auto simp: bnd_Inr_iff)

lemma for_each_error:
  "for_each body is s = Inl e \<Longrightarrow> \<exists>i u. i \<in> set is \<and> body i u = Inl e"
  by (induction "is" arbitrary: s) (simp_all add: bnd_Inl_iff, blast)

subsection \<open>Vectors with a checked index\<close>

text \<open>
  \<open>v[i]\<close> on a \<open>std::vector\<close>: no value is defined for an index that is not below the size. The index
  is an \<open>int\<close>, so that a negative C++ \<open>int\<close> is out of range too.
\<close>

definition vec_at :: "'a list \<Rightarrow> int \<Rightarrow> 'a res" where
  "vec_at xs i = (if 0 \<le> i \<and> i < int (length xs) then Inr (xs ! nat i) else Inl Undefined)"

definition vec_put :: "'a list \<Rightarrow> int \<Rightarrow> 'a \<Rightarrow> 'a list res" where
  "vec_put xs i x =
    (if 0 \<le> i \<and> i < int (length xs) then Inr (xs[nat i := x]) else Inl Undefined)"

text \<open>\<open>g[r][c]\<close> and \<open>g[r][c] = x\<close> on a vector of vectors.\<close>

definition grid_at :: "'a list list \<Rightarrow> int \<Rightarrow> int \<Rightarrow> 'a res" where
  "grid_at g r c = bnd (vec_at g r) (\<lambda>row. vec_at row c)"

definition grid_put :: "'a list list \<Rightarrow> int \<Rightarrow> int \<Rightarrow> 'a \<Rightarrow> 'a list list res" where
  "grid_put g r c x =
    bnd (vec_at g r) (\<lambda>row. bnd (vec_put row c x) (\<lambda>row'. vec_put g r row'))"

text \<open>\<open>v.resize(n)\<close> with the element a fresh slot is initialised with.\<close>

definition vec_resize :: "'a \<Rightarrow> nat \<Rightarrow> 'a list \<Rightarrow> 'a list" where
  "vec_resize fresh n xs = take n xs @ replicate (n - length xs) fresh"

lemma length_vec_resize [simp]: "length (vec_resize x n xs) = n"
  by (simp add: vec_resize_def)

lemma vec_resize_shrink: "n \<le> length xs \<Longrightarrow> vec_resize x n xs = take n xs"
  by (simp add: vec_resize_def)

text \<open>A grid of \<open>h\<close> rows of \<open>w\<close> cells, and the assignment of one cell of it.\<close>

definition dims :: "nat \<Rightarrow> nat \<Rightarrow> 'a list list \<Rightarrow> bool" where
  "dims h w g \<longleftrightarrow> length g = h \<and> (\<forall>row \<in> set g. length row = w)"

definition set_cell :: "'a list list \<Rightarrow> nat \<Rightarrow> nat \<Rightarrow> 'a \<Rightarrow> 'a list list" where
  "set_cell g r c x = g[r := (g ! r)[c := x]]"

definition tabulate :: "nat \<Rightarrow> nat \<Rightarrow> (nat \<Rightarrow> nat \<Rightarrow> 'a) \<Rightarrow> 'a list list" where
  "tabulate h w f = map (\<lambda>r. map (f r) [0..<w]) [0..<h]"

lemma dims_nth: "dims h w g \<longleftrightarrow> length g = h \<and> (\<forall>r < h. length (g ! r) = w)"
  by (auto simp: dims_def all_set_conv_all_nth)

lemma dims_row: "dims h w g \<Longrightarrow> r < h \<Longrightarrow> length (g ! r) = w"
  by (auto simp: dims_def)

lemma dims_height: "dims h w g \<Longrightarrow> length g = h"
  by (simp add: dims_def)

lemma dims_tabulate [simp, intro]: "dims h w (tabulate h w f)"
  by (auto simp: dims_def tabulate_def)

lemma dims_replicate [simp, intro]: "dims h w (replicate h (replicate w x))"
  by (auto simp: dims_def)

lemma dims_map [intro]: "dims h w g \<Longrightarrow> dims h w (map (map f) g)"
  by (auto simp: dims_def)

lemma dims_set_cell [simp, intro]: "dims h w g \<Longrightarrow> r < h \<Longrightarrow> dims h w (set_cell g r c x)"
  by (simp add: dims_nth set_cell_def nth_list_update)

lemma tabulate_nth [simp]: "r < h \<Longrightarrow> c < w \<Longrightarrow> tabulate h w f ! r ! c = f r c"
  by (simp add: tabulate_def)

lemma tabulate_cong:
  "(\<And>r c. r < h \<Longrightarrow> c < w \<Longrightarrow> f r c = g r c) \<Longrightarrow> tabulate h w f = tabulate h w g"
  by (simp add: tabulate_def)

lemma dims_tabulate_self:
  assumes "dims h w g"
  shows "tabulate h w (\<lambda>r c. g ! r ! c) = g"
proof (rule nth_equalityI)
  show "length (tabulate h w (\<lambda>r c. g ! r ! c)) = length g"
    using assms by (simp add: tabulate_def dims_nth)
next
  fix r assume "r < length (tabulate h w (\<lambda>r c. g ! r ! c))"
  then have r: "r < h" by (simp add: tabulate_def)
  with assms have "length (g ! r) = w" by (simp add: dims_nth)
  then have "map ((!) (g ! r)) [0..<w] = g ! r" using map_nth by blast
  with r show "tabulate h w (\<lambda>r c. g ! r ! c) ! r = g ! r" by (simp add: tabulate_def)
qed

lemma map_map_tabulate: "map (map f) (tabulate h w g) = tabulate h w (\<lambda>r c. f (g r c))"
  by (simp add: tabulate_def)

lemma grid_eqI:
  assumes "dims h w g" and "dims h w g'"
    and "\<And>r c. r < h \<Longrightarrow> c < w \<Longrightarrow> g ! r ! c = g' ! r ! c"
  shows "g = g'"
proof -
  have "g = tabulate h w (\<lambda>r c. g ! r ! c)" using assms(1) by (simp add: dims_tabulate_self)
  also have "\<dots> = tabulate h w (\<lambda>r c. g' ! r ! c)" using assms(3) by (rule tabulate_cong)
  also have "\<dots> = g'" using assms(2) by (rule dims_tabulate_self)
  finally show ?thesis .
qed

lemma set_cell_nth:
  "dims h w g \<Longrightarrow> r < h \<Longrightarrow> c < w \<Longrightarrow> r' < h \<Longrightarrow> c' < w \<Longrightarrow>
    set_cell g r c x ! r' ! c' = (if r' = r \<and> c' = c then x else g ! r' ! c')"
  by (simp add: set_cell_def dims_nth nth_list_update)

lemma set_cell_set_cell [simp]: "set_cell (set_cell g r c x) r c y = set_cell g r c y"
  by (cases "r < length g") (simp_all add: set_cell_def list_update_beyond)

lemma vec_at_ok [simp, res_simps]: "i < length xs \<Longrightarrow> vec_at xs (int i) = Inr (xs ! i)"
  by (simp add: vec_at_def)

lemma vec_put_ok [simp, res_simps]: "i < length xs \<Longrightarrow> vec_put xs (int i) x = Inr (xs[i := x])"
  by (simp add: vec_put_def)

lemma grid_at_ok [res_simps]:
  "dims h w g \<Longrightarrow> r < h \<Longrightarrow> c < w \<Longrightarrow> grid_at g (int r) (int c) = Inr (g ! r ! c)"
  by (simp add: grid_at_def dims_row dims_height)

lemma grid_at_ok_int:
  "dims h w g \<Longrightarrow> 0 \<le> r \<Longrightarrow> r < int h \<Longrightarrow> 0 \<le> c \<Longrightarrow> c < int w \<Longrightarrow>
    grid_at g r c = Inr (g ! nat r ! nat c)"
  using grid_at_ok [of h w g "nat r" "nat c"] by (simp add: nat_less_iff)

lemma grid_put_ok [res_simps]:
  "dims h w g \<Longrightarrow> r < h \<Longrightarrow> c < w \<Longrightarrow> grid_put g (int r) (int c) x = Inr (set_cell g r c x)"
  by (simp add: grid_put_def set_cell_def dims_row dims_height)

lemma index_error: "vec_at xs i = Inl e \<Longrightarrow> e = Undefined" "vec_put xs i x = Inl e \<Longrightarrow> e = Undefined"
  "grid_at g i j = Inl e \<Longrightarrow> e = Undefined" "grid_put g i j x = Inl e \<Longrightarrow> e = Undefined"
  by (auto simp: vec_at_def vec_put_def grid_at_def grid_put_def bnd_Inl_iff split: if_splits)

text \<open>
  The row and the grid loop: a body that rewrites its own cell, and reads no other cell of the grid
  it writes, rewrites every cell once.
\<close>

lemma for_each_row:
  assumes g: "dims h w g" and r: "r < h" and n: "n \<le> w"
    and body: "\<And>c g'. c < w \<Longrightarrow> dims h w g' \<Longrightarrow> body c g' = Inr (set_cell g' r c (f c (g' ! r ! c)))"
  shows "for_each body [0..<n] g =
    Inr (tabulate h w (\<lambda>r' c. if r' = r \<and> c < n then f c (g ! r ! c) else g ! r' ! c))"
  using n
proof (induction n)
  case 0
  show ?case using g by (simp add: dims_tabulate_self)
next
  case (Suc n)
  let ?g = "tabulate h w (\<lambda>r' c. if r' = r \<and> c < n then f c (g ! r ! c) else g ! r' ! c)"
  from Suc have n: "n < w" and IH: "for_each body [0..<n] g = Inr ?g" by simp_all
  have "set_cell ?g r n (f n (?g ! r ! n)) =
      tabulate h w (\<lambda>r' c. if r' = r \<and> c < Suc n then f c (g ! r ! c) else g ! r' ! c)"
    using r n by (intro grid_eqI [of h w]) (auto simp: set_cell_nth [of h w])
  with r n IH show ?case by (simp add: for_each_append body)
qed

lemma for_each_grid:
  assumes g: "dims h w g"
    and body: "\<And>r c g'. r < h \<Longrightarrow> c < w \<Longrightarrow> dims h w g' \<Longrightarrow>
      body r c g' = Inr (set_cell g' r c (f r c (g' ! r ! c)))"
  shows "for_each (\<lambda>r. for_each (body r) [0..<w]) [0..<h] g =
    Inr (tabulate h w (\<lambda>r c. f r c (g ! r ! c)))"
proof -
  have "n \<le> h \<Longrightarrow> for_each (\<lambda>r. for_each (body r) [0..<w]) [0..<n] g =
    Inr (tabulate h w (\<lambda>r c. if r < n then f r c (g ! r ! c) else g ! r ! c))" for n
  proof (induction n)
    case 0
    show ?case using g by (simp add: dims_tabulate_self)
  next
    case (Suc n)
    let ?g = "tabulate h w (\<lambda>r c. if r < n then f r c (g ! r ! c) else g ! r ! c)"
    from Suc have n: "n < h" and IH: "for_each (\<lambda>r. for_each (body r) [0..<w]) [0..<n] g = Inr ?g"
      by simp_all
    have "for_each (body n) [0..<w] ?g =
      Inr (tabulate h w (\<lambda>r c. if r = n \<and> c < w then f n c (?g ! n ! c) else ?g ! r ! c))"
      using n body by (intro for_each_row) auto
    also have "\<dots> = Inr (tabulate h w (\<lambda>r c. if r < Suc n then f r c (g ! r ! c) else g ! r ! c))"
      using n by (auto intro!: tabulate_cong)
    finally show ?case using IH by (simp add: for_each_append)
  qed
  from this [of h] show ?thesis
    by (simp add: tabulate_def)
qed

text \<open>Nested loops as one loop over the pairs, and a loop that fills cells by their position.\<close>

lemma for_each_pairs:
  "for_each (\<lambda>i. for_each (body i) js) is s =
    for_each (\<lambda>(i, j). body i j) (concat (map (\<lambda>i. map (Pair i) js) is)) s"
proof (induction "is" arbitrary: s)
  case Nil
  then show ?case by simp
next
  case (Cons i "is")
  have "for_each (\<lambda>(i, j). body i j) (map (Pair i) js) s = for_each (body i) js s" for s
    by (induction js arbitrary: s) (simp_all add: bnd_def split: sum.split)
  then show ?case
    by (simp add: for_each_append Cons.IH bnd_def split: sum.split)
qed

lemma for_each_fill:
  assumes "\<And>p g. p \<in> set ps \<Longrightarrow> dims h w g \<Longrightarrow>
      fst (cell p) < h \<and> snd (cell p) < w \<and>
      body p g = Inr (set_cell g (fst (cell p)) (snd (cell p)) (v (fst (cell p)) (snd (cell p))))"
    and "dims h w g"
  shows "for_each body ps g =
    Inr (tabulate h w (\<lambda>r c. if (r, c) \<in> cell ` set ps then v r c else g ! r ! c))"
  using assms
proof (induction ps arbitrary: g)
  case Nil
  then show ?case by (simp add: dims_tabulate_self)
next
  case (Cons p ps)
  obtain i j where p: "cell p = (i, j)" by fastforce
  with Cons.prems have ij: "i < h" "j < w" and b: "body p g = Inr (set_cell g i j (v i j))"
    by (metis fst_conv list.set_intros(1) snd_conv)+
  have "dims h w (set_cell g i j (v i j))" using Cons.prems(2) ij by simp
  then have "for_each body ps (set_cell g i j (v i j)) =
      Inr (tabulate h w (\<lambda>r c. if (r, c) \<in> cell ` set ps then v r c else set_cell g i j (v i j) ! r ! c))"
    using Cons.prems(1) by (intro Cons.IH) auto
  also have "\<dots> = Inr (tabulate h w (\<lambda>r c. if (r, c) \<in> cell ` set (p # ps) then v r c else g ! r ! c))"
    using Cons.prems(2) ij p by (auto simp: set_cell_nth [of h w] intro!: tabulate_cong)
  finally show ?case by (simp add: b)
qed

subsection \<open>Integers of C++\<close>

type_synonym u8 = "8 word"
type_synonym u16 = "16 word"
type_synonym u32 = "32 word"
type_synonym i16 = "16 word"

text \<open>The value of a 32-bit signed expression; overflow is undefined.\<close>

definition i32 :: "int \<Rightarrow> int res" where
  "i32 x = (if - (2 ^ 31) \<le> x \<and> x < 2 ^ 31 then Inr x else Inl Undefined)"

lemma i32_ok [simp, cpp_arith]: "- 2147483648 \<le> x \<Longrightarrow> x < 2147483648 \<Longrightarrow> i32 x = Inr x"
  by (simp add: i32_def)

lemma i32_error: "i32 x = Inl e \<Longrightarrow> e = Undefined"
  by (simp add: i32_def split: if_splits)

text \<open>Division of C++ rounds towards zero.\<close>

definition c_div :: "int \<Rightarrow> int \<Rightarrow> int" where
  "c_div a b = sgn a * sgn b * (\<bar>a\<bar> div \<bar>b\<bar>)"

lemma c_div_nonneg [cpp_arith]: "0 \<le> a \<Longrightarrow> 0 < b \<Longrightarrow> c_div a b = a div b"
  by (cases "a = 0") (simp_all add: c_div_def)

subsection \<open>Decimal numerals\<close>

text \<open>\<open>std::to_string\<close> on an unsigned value, and \<open>std::isdigit\<close> in the "C" locale.\<close>

definition digit_char :: "nat \<Rightarrow> char" where
  "digit_char d = char_of (48 + d)"

fun to_string :: "nat \<Rightarrow> string" where
  "to_string n = (if n < 10 then [digit_char n] else to_string (n div 10) @ [digit_char (n mod 10)])"

declare to_string.simps [simp del]

definition is_digit :: "char \<Rightarrow> bool" where
  "is_digit c \<longleftrightarrow> 48 \<le> (of_char c :: nat) \<and> (of_char c :: nat) \<le> 57"

definition digit_val :: "char \<Rightarrow> nat" where
  "digit_val c = of_char c - 48"

text \<open>The value of a string of digits, as \<open>std::atoi\<close> computes it.\<close>

definition dec_val :: "string \<Rightarrow> nat" where
  "dec_val s = foldl (\<lambda>v c. 10 * v + digit_val c) 0 s"

lemma digit_char_props: "d < 10 \<Longrightarrow> is_digit (digit_char d) \<and> digit_val (digit_char d) = d"
  by (simp add: is_digit_def digit_val_def digit_char_def of_char_of)

lemma to_string_digits: "list_all is_digit (to_string n)"
proof (induction n rule: to_string.induct)
  case (1 n)
  then show ?case
    by (subst to_string.simps) (auto simp: digit_char_props)
qed

lemma dec_val_to_string [simp]: "dec_val (to_string n) = n"
proof (induction n rule: to_string.induct)
  case (1 n)
  then show ?case
    by (subst to_string.simps) (auto simp: digit_char_props dec_val_def)
qed

lemma to_string_not_Nil [simp]: "to_string n \<noteq> []"
  by (subst to_string.simps) simp

lemma digit_val_less: "is_digit c \<Longrightarrow> digit_val c < 10"
  by (auto simp: is_digit_def digit_val_def)

lemma dec_val_less: "list_all is_digit s \<Longrightarrow> dec_val s < 10 ^ length s"
proof (induction s rule: rev_induct)
  case Nil
  then show ?case by (simp add: dec_val_def)
next
  case (snoc c s)
  then have "dec_val s < 10 ^ length s" "digit_val c < 10" by (simp_all add: digit_val_less)
  moreover have "dec_val (s @ [c]) = 10 * dec_val s + digit_val c" by (simp add: dec_val_def)
  ultimately show ?case by simp
qed

end
