(* ===== verification/Double_Arith.thy ===== *)
theory Double_Arith
  imports Prelude
begin

text \<open>
  IEEE 754 arithmetic as the C++ types \<open>double\<close> (binary64) and \<open>float\<close> (binary32) use it in
  \<open>image_processor\<close>: every operation computes the exact result and rounds it to the nearest
  representable value, ties to even. A finite value is a significand and an exponent, so the
  definitions work on integers only and evaluate in the kernel. The sign of a zero is not kept: no
  code here divides by a zero whose sign is negative or prints one, and every comparison ignores it.
  \<open>std::sqrt\<close>, \<open>std::sin\<close>, \<open>std::cos\<close>, \<open>std::atan2\<close> and \<open>powf\<close>, whose results the C++ standard
  leaves to the implementation, are the record \<open>libm\<close>, a parameter of the definitions that call
  them.
\<close>

subsection \<open>Values and rounding\<close>

datatype fp = Fin int int | PInf | NInf | NaN

type_synonym double = fp

text \<open>The number of binary digits of a positive integer.\<close>

function bits :: "int \<Rightarrow> int" where
  "bits n = (if n \<le> 0 then 0 else 1 + bits (n div 2))"
  by pat_completeness auto
termination
  by (relation "measure nat") auto

declare bits.simps [simp del]

text \<open>The integer nearest to \<open>a / b\<close>, the even one of two.\<close>

definition rne_div :: "int \<Rightarrow> int \<Rightarrow> int" where
  "rne_div a b = (let k = a div b; r = a mod b in
     if 2 * r < b then k else if b < 2 * r then k + 1 else if even k then k else k + 1)"

text \<open>\<open>a / b\<close> scaled by a power of two, rounded.\<close>

definition scaled_rne :: "int \<Rightarrow> int \<Rightarrow> int \<Rightarrow> int" where
  "scaled_rne n d s =
    (if 0 \<le> s then rne_div (n * 2 ^ nat s) d else rne_div n (d * 2 ^ nat (- s)))"

text \<open>
  \<open>expo n d\<close> is the \<open>l\<close> with \<open>2 ^ l \<le> n / d < 2 ^ (l + 1)\<close>, for positive \<open>n\<close> and \<open>d\<close>.
\<close>

definition expo :: "int \<Rightarrow> int \<Rightarrow> int" where
  "expo n d = (let k = bits n - bits d in
     if (if 0 \<le> k then d * 2 ^ nat k \<le> n else d \<le> n * 2 ^ nat (- k)) then k else k - 1)"

text \<open>
  A rounded significand \<open>m\<close> with the exponent \<open>u\<close>: \<open>2 ^ p\<close> moves to the next binade, a value past
  the largest exponent overflows to an infinity.
\<close>

definition pack :: "int \<Rightarrow> int \<Rightarrow> int \<Rightarrow> int \<Rightarrow> fp" where
  "pack p emax m u =
    (if m = 0 then Fin 0 0
     else let (m', u') = (if \<bar>m\<bar> = 2 ^ nat p then (m div 2, u + 1) else (m, u)) in
       if emax - p < u' then (if 0 < m' then PInf else NInf) else Fin m' u')"

text \<open>
  \<open>round_frac p emin emax n d e\<close> rounds \<open>n / d * 2 ^ e\<close> to \<open>p\<close> significant bits; \<open>emin\<close> is the
  exponent of the smallest subnormal.
\<close>

definition round_frac :: "int \<Rightarrow> int \<Rightarrow> int \<Rightarrow> int \<Rightarrow> int \<Rightarrow> int \<Rightarrow> fp" where
  "round_frac p emin emax n d e =
    (if n = 0 then Fin 0 0
     else let u = max (expo \<bar>n\<bar> d + e - (p - 1)) emin in pack p emax (scaled_rne n d (e - u)) u)"

definition rnd :: "int \<Rightarrow> int \<Rightarrow> int \<Rightarrow> double" where
  "rnd = round_frac 53 (- 1074) 1024"

text \<open>A decimal literal \<open>n / d\<close> of the source, and a C++ \<open>int\<close> converted to \<open>double\<close>.\<close>

definition dlit :: "int \<Rightarrow> int \<Rightarrow> double" where
  "dlit n d = rnd n d 0"

definition dint :: "int \<Rightarrow> double" where
  "dint i = rnd i 1 0"

subsection \<open>Operations\<close>

fun dadd :: "double \<Rightarrow> double \<Rightarrow> double" where
  "dadd (Fin a x) (Fin b y) =
    (let e = min x y in rnd (a * 2 ^ nat (x - e) + b * 2 ^ nat (y - e)) 1 e)"
| "dadd NaN y = NaN"
| "dadd x NaN = NaN"
| "dadd PInf NInf = NaN"
| "dadd NInf PInf = NaN"
| "dadd PInf y = PInf"
| "dadd NInf y = NInf"
| "dadd x PInf = PInf"
| "dadd x NInf = NInf"

fun dneg :: "double \<Rightarrow> double" where
  "dneg (Fin a x) = Fin (- a) x"
| "dneg PInf = NInf"
| "dneg NInf = PInf"
| "dneg NaN = NaN"

definition dsub :: "double \<Rightarrow> double \<Rightarrow> double" where
  "dsub a b = dadd a (dneg b)"

text \<open>The sign of an operand; the product of an infinity and a finite value.\<close>

fun dsgn :: "double \<Rightarrow> int" where
  "dsgn (Fin a x) = sgn a"
| "dsgn PInf = 1"
| "dsgn NInf = - 1"
| "dsgn NaN = 0"

definition signed_inf :: "int \<Rightarrow> double" where
  "signed_inf s = (if 0 < s then PInf else if s < 0 then NInf else NaN)"

fun dmul :: "double \<Rightarrow> double \<Rightarrow> double" where
  "dmul (Fin a x) (Fin b y) = rnd (a * b) 1 (x + y)"
| "dmul NaN y = NaN"
| "dmul x NaN = NaN"
| "dmul x y = signed_inf (dsgn x * dsgn y)"

text \<open>Division; a zero divisor is a positive zero.\<close>

fun ddiv :: "double \<Rightarrow> double \<Rightarrow> double" where
  "ddiv (Fin a x) (Fin b y) =
    (if b = 0 then signed_inf (sgn a) else rnd (a * sgn b) \<bar>b\<bar> (x - y))"
| "ddiv NaN y = NaN"
| "ddiv x NaN = NaN"
| "ddiv (Fin a x) y = Fin 0 0"
| "ddiv PInf (Fin b y) = (if b < 0 then NInf else PInf)"
| "ddiv NInf (Fin b y) = (if b < 0 then PInf else NInf)"
| "ddiv x y = NaN"

text \<open>\<open>static_cast<float>\<close> and back: the value is rounded to 24 bits.\<close>

fun to_float :: "double \<Rightarrow> fp" where
  "to_float (Fin a x) = round_frac 24 (- 149) 128 a 1 x"
| "to_float d = d"

text \<open>Comparisons; every one with a NaN is false.\<close>

fun dlt :: "double \<Rightarrow> double \<Rightarrow> bool" where
  "dlt (Fin a x) (Fin b y) = (let e = min x y in a * 2 ^ nat (x - e) < b * 2 ^ nat (y - e))"
| "dlt NaN y = False"
| "dlt x NaN = False"
| "dlt PInf y = False"
| "dlt x NInf = False"
| "dlt x y = True"

fun dle :: "double \<Rightarrow> double \<Rightarrow> bool" where
  "dle (Fin a x) (Fin b y) = (let e = min x y in a * 2 ^ nat (x - e) \<le> b * 2 ^ nat (y - e))"
| "dle NaN y = False"
| "dle x NaN = False"
| "dle x PInf = True"
| "dle NInf y = True"
| "dle x y = False"

definition deq :: "double \<Rightarrow> double \<Rightarrow> bool" where
  "deq x y \<longleftrightarrow> dle x y \<and> dle y x"

text \<open>\<open>std::min(a, b)\<close> and \<open>std::max(a, b)\<close>: the first argument unless the second is better.\<close>

definition std_min :: "double \<Rightarrow> double \<Rightarrow> double" where
  "std_min a b = (if dlt b a then b else a)"

definition std_max :: "double \<Rightarrow> double \<Rightarrow> double" where
  "std_max a b = (if dlt a b then b else a)"

text \<open>
  Conversions to integers drop the fraction; a value that does not fit, an infinity or a NaN is
  undefined behaviour.
\<close>

fun dtrunc :: "double \<Rightarrow> int option" where
  "dtrunc (Fin a x) =
    Some (if 0 \<le> x then a * 2 ^ nat x else sgn a * (\<bar>a\<bar> div 2 ^ nat (- x)))"
| "dtrunc d = None"

definition to_i32 :: "double \<Rightarrow> int res" where
  "to_i32 d = bnd (defined_or Undefined (dtrunc d)) i32"

definition to_u8 :: "double \<Rightarrow> u8 res" where
  "to_u8 d = bnd (defined_or Undefined (dtrunc d))
     (\<lambda>i. if 0 \<le> i \<and> i < 256 then Inr (word_of_int i) else Inl Undefined)"

text \<open>The mathematical functions of \<open><cmath>\<close> the filters call.\<close>

record libm =
  l_sqrt :: "double \<Rightarrow> double"
  l_sin :: "double \<Rightarrow> double"
  l_cos :: "double \<Rightarrow> double"
  l_atan2 :: "double \<Rightarrow> double \<Rightarrow> double"
  l_powf :: "fp \<Rightarrow> fp \<Rightarrow> fp"

subsection \<open>The value of a finite double and its bounds\<close>

text \<open>
  \<open>between lo hi d\<close>: the double is finite and its value lies between the two integers. Integer
  bounds below \<open>2 ^ 53\<close> survive rounding, which is what the filters' range invariants rest on.
\<close>

fun fval :: "fp \<Rightarrow> rat" where
  "fval (Fin m e) = of_int m * 2 powi e"
| "fval d = 0"

definition between :: "int \<Rightarrow> int \<Rightarrow> fp \<Rightarrow> bool" where
  "between lo hi d \<longleftrightarrow> (\<exists>m e. d = Fin m e) \<and> of_int lo \<le> fval d \<and> fval d \<le> of_int hi"

lemma between_Fin:
  "between lo hi (Fin m e) \<longleftrightarrow> of_int lo \<le> of_int m * (2::rat) powi e \<and> of_int m * (2::rat) powi e \<le> of_int hi"
  by (simp add: between_def)

lemma betweenE:
  assumes "between lo hi d"
  obtains m e where "d = Fin m e" "of_int lo \<le> of_int m * (2::rat) powi e"
    "of_int m * (2::rat) powi e \<le> of_int hi"
  using assms by (auto simp: between_def)

lemma between_mono: "between lo hi d \<Longrightarrow> lo' \<le> lo \<Longrightarrow> hi \<le> hi' \<Longrightarrow> between lo' hi' d"
  by (auto simp: between_def)

lemma powi_nat: "0 \<le> k \<Longrightarrow> (2::rat) powi k = 2 ^ nat k"
  by (simp add: power_int_def)

lemma powi_pos [simp]: "0 < (2::rat) powi k"
  by (simp add: zero_less_power_int)

lemma powi_scale: "0 \<le> s \<Longrightarrow> (of_int (n * 2 ^ nat s) :: rat) = of_int n * 2 powi s"
  by (simp add: powi_nat)

lemma bits_bounds:
  "0 < n \<Longrightarrow> 0 < bits n \<and> (2::int) ^ nat (bits n - 1) \<le> n \<and> n < 2 ^ nat (bits n)"
proof (induction n rule: bits.induct)
  case (1 n)
  show ?case
  proof (cases "n = 1")
    case True
    then show ?thesis by (simp add: bits.simps [of 1] bits.simps [of 0])
  next
    case False
    with 1 have IH: "0 < bits (n div 2)" "(2::int) ^ nat (bits (n div 2) - 1) \<le> n div 2"
      "n div 2 < 2 ^ nat (bits (n div 2))"
      by auto
    have b: "bits n = 1 + bits (n div 2)" using 1 by (subst bits.simps) simp
    have p: "(2::int) ^ nat (bits (n div 2)) = 2 * 2 ^ nat (bits (n div 2) - 1)"
      using IH(1) by (metis Suc_diff_1 int_nat_eq nat_diff_distrib' nat_one_as_int of_nat_0_less_iff
          order_less_imp_le power_Suc zero_le_one)
    have q: "(2::int) ^ nat (1 + bits (n div 2)) = 2 * 2 ^ nat (bits (n div 2))"
      using IH(1) by (simp add: nat_add_distrib)
    have h: "2 * (n div 2) \<le> n" "n < 2 * (n div 2) + 2" by presburger+
    define P where "P = (2::int) ^ nat (bits (n div 2) - 1)"
    have "2 * P \<le> n" "n < 2 * (2 * P)"
      using IH(2,3) p h unfolding P_def by linarith+
    then show ?thesis
      unfolding b q using IH(1) p by (simp add: P_def)
  qed
qed

lemma bits_powi:
  assumes "0 < n"
  shows "(2::rat) powi (bits n - 1) \<le> of_int n" "(of_int n :: rat) < 2 powi (bits n)"
proof -
  note b = bits_bounds [OF assms]
  from b have "(of_int (2 ^ nat (bits n - 1)) :: rat) \<le> of_int n" by (subst of_int_le_iff) simp
  with b show "(2::rat) powi (bits n - 1) \<le> of_int n" by (simp add: powi_nat)
  from b have "(of_int n :: rat) < of_int (2 ^ nat (bits n))" by (subst of_int_less_iff) simp
  with b show "(of_int n :: rat) < 2 powi (bits n)" by (simp add: powi_nat)
qed

lemma powi_shift:
  "g \<le> e \<Longrightarrow> of_int (m * 2 ^ nat (e - g)) * (2::rat) powi g = of_int m * 2 powi e"
  by (subst powi_scale) (simp_all add: mult.assoc power_int_add [symmetric])

text \<open>The scaled comparison inside \<open>expo\<close> compares the two rationals.\<close>

lemma scaled_le:
  "(if 0 \<le> k then d * 2 ^ nat k \<le> n else d \<le> n * 2 ^ nat (- k)) \<longleftrightarrow>
    (of_int d * (2::rat) powi k \<le> of_int n)"
proof (cases "0 \<le> k")
  case True
  have "d * 2 ^ nat k \<le> n \<longleftrightarrow> (of_int (d * 2 ^ nat k) :: rat) \<le> of_int n"
    by (simp only: of_int_le_iff)
  with True show ?thesis by (simp add: powi_nat)
next
  case False
  have "d \<le> n * 2 ^ nat (- k) \<longleftrightarrow> (of_int d :: rat) \<le> of_int (n * 2 ^ nat (- k))"
    by (simp only: of_int_le_iff)
  also have "\<dots> \<longleftrightarrow> of_int d * (2::rat) powi k \<le> of_int n"
    using False by (simp add: power_int_def field_simps)
  finally show ?thesis using False by simp
qed

lemma expo_le:
  assumes "0 < n" and "0 < d"
  shows "of_int d * (2::rat) powi (expo n d) \<le> of_int n"
proof -
  let ?k = "bits n - bits d"
  have "of_int d * (2::rat) powi (?k - 1) \<le> of_int n"
  proof -
    have "of_int d * (2::rat) powi (?k - 1) \<le> 2 powi (bits d) * 2 powi (?k - 1)"
      using bits_powi(2) [OF assms(2)] by (intro mult_right_mono) (simp_all add: less_imp_le)
    also have "\<dots> = 2 powi (bits n - 1)"
      by (simp add: power_int_add [symmetric])
    finally show ?thesis using bits_powi(1) [OF assms(1)] by linarith
  qed
  then show ?thesis
    unfolding expo_def Let_def scaled_le by auto
qed

lemma expo_less:
  assumes "0 < n" and "0 < d"
  shows "of_int n < of_int d * (2::rat) powi (expo n d + 1)"
proof -
  let ?k = "bits n - bits d"
  have "of_int n < (2::rat) powi (bits n)" by (rule bits_powi(2) [OF assms(1)])
  also have "\<dots> = 2 powi (bits d - 1) * 2 powi (?k + 1)"
    by (simp add: power_int_add [symmetric])
  also have "\<dots> \<le> of_int d * 2 powi (?k + 1)"
    using bits_powi(1) [OF assms(2)] by (intro mult_right_mono) (simp_all add: less_imp_le)
  finally show ?thesis
    unfolding expo_def Let_def scaled_le by auto
qed

subsection \<open>Rounding keeps integer bounds\<close>

lemma rne_div_bounds:
  assumes "0 < b"
  shows "a \<le> K * b \<Longrightarrow> rne_div a b \<le> K" "K * b \<le> a \<Longrightarrow> K \<le> rne_div a b"
proof -
  have ab: "a = a div b * b + a mod b" "0 \<le> a mod b" "a mod b < b"
    using assms by simp_all
  show "rne_div a b \<le> K" if "a \<le> K * b"
  proof (cases "a div b = K")
    case True
    with ab that have "a mod b = 0" by simp
    with assms True show ?thesis by (simp add: rne_div_def)
  next
    case False
    have "a div b * b \<le> K * b" using ab that by linarith
    with assms False have "a div b < K" by simp
    then show ?thesis by (auto simp: rne_div_def Let_def)
  qed
  show "K \<le> rne_div a b" if "K * b \<le> a"
  proof -
    have "K \<le> a div b" using assms that by (metis nonzero_mult_div_cancel_right less_irrefl zdiv_mono1)
    then show ?thesis by (auto simp: rne_div_def Let_def)
  qed
qed

text \<open>The error of the division is at most a half.\<close>

lemma rne_div_half:
  assumes "0 < b"
  shows "\<bar>2 * (rne_div a b * b - a)\<bar> \<le> b"
proof -
  define k r where "k = a div b" and "r = a mod b"
  have a: "a = k * b + r" and r: "0 \<le> r" "r < b"
    using assms by (simp_all add: k_def r_def)
  have "rne_div a b = (if 2 * r < b then k else if b < 2 * r then k + 1 else if even k then k else k + 1)"
    by (simp add: rne_div_def k_def r_def Let_def)
  with r show ?thesis
    by (auto simp: a algebra_simps)
qed

lemma scaled_rne_bounds:
  assumes "0 < d"
  shows "of_int n * (2::rat) powi s \<le> of_int K * of_int d \<Longrightarrow> scaled_rne n d s \<le> K"
    and "of_int K * of_int d \<le> of_int n * (2::rat) powi s \<Longrightarrow> K \<le> scaled_rne n d s"
proof -
  have le: "(if 0 \<le> s then n * 2 ^ nat s else n) \<le> K * (if 0 \<le> s then d else d * 2 ^ nat (- s)) \<longleftrightarrow>
      of_int n * (2::rat) powi s \<le> of_int K * of_int d" for K
    using scaled_le [of s n "K * d"] by (cases "0 \<le> s") (simp_all add: mult.assoc)
  have ge: "K * (if 0 \<le> s then d else d * 2 ^ nat (- s)) \<le> (if 0 \<le> s then n * 2 ^ nat s else n) \<longleftrightarrow>
      of_int K * of_int d \<le> of_int n * (2::rat) powi s" for K
    using scaled_le [of "- s" "K * d" n]
    by (cases "0 < s"; cases "s = 0") (simp_all add: mult.assoc power_int_minus field_simps)
  show "scaled_rne n d s \<le> K" if "of_int n * (2::rat) powi s \<le> of_int K * of_int d"
    using that le [of K] assms by (auto simp: scaled_rne_def intro!: rne_div_bounds split: if_splits)
  show "K \<le> scaled_rne n d s" if "of_int K * of_int d \<le> of_int n * (2::rat) powi s"
    using that ge [of K] assms by (auto simp: scaled_rne_def intro!: rne_div_bounds split: if_splits)
qed

lemma pack_Fin:
  assumes "1 \<le> p" and "u + 1 \<le> emax - p"
  shows "\<exists>m' u'. pack p emax m u = Fin m' u' \<and> of_int m' * (2::rat) powi u' = of_int m * 2 powi u"
proof (cases "m \<noteq> 0 \<and> \<bar>m\<bar> = 2 ^ nat p")
  case True
  from assms(1) have "even ((2::int) ^ nat p)" by simp
  with True have "even m" by (metis dvd_abs_iff)
  then have "(of_int m :: rat) = of_int (m div 2) * 2" by (metis dvd_div_mult_self of_int_mult of_int_numeral)
  then have "of_int (m div 2) * (2::rat) powi (u + 1) = of_int m * 2 powi u"
    by (simp add: power_int_add)
  with True assms show ?thesis by (simp add: pack_def)
next
  case False
  with assms show ?thesis by (auto simp: pack_def)
qed

lemma round_frac_between:
  assumes d: "0 < d" and p: "1 \<le> p" "emin \<le> 0" "p + 1 \<le> emax"
    and lo: "of_int lo * of_int d \<le> of_int n * (2::rat) powi e" "\<bar>lo\<bar> < 2 ^ nat p"
    and hi: "of_int n * (2::rat) powi e \<le> of_int hi * of_int d" "\<bar>hi\<bar> < 2 ^ nat p"
  shows "between lo hi (round_frac p emin emax n d e)"
proof (cases "n = 0")
  case True
  with lo hi d show ?thesis
    by (auto simp: round_frac_def between_def zero_le_mult_iff mult_le_0_iff)
next
  case False
  define l where "l = expo \<bar>n\<bar> d"
  define u where "u = max (l + e - (p - 1)) emin"
  have "of_int d * (2::rat) powi (l + e) = of_int d * 2 powi l * 2 powi e"
    by (simp add: power_int_add)
  also have "\<dots> \<le> of_int \<bar>n\<bar> * 2 powi e"
    using expo_le [of "\<bar>n\<bar>" d] False d by (intro mult_right_mono) (simp_all add: l_def)
  also have "\<dots> = \<bar>of_int n * 2 powi e\<bar>"
    by (simp add: abs_mult)
  also have "\<dots> \<le> max \<bar>of_int lo\<bar> \<bar>of_int hi\<bar> * of_int d"
  proof -
    have "of_int lo * of_int d \<ge> - (max \<bar>of_int lo\<bar> \<bar>of_int hi\<bar> * (of_int d :: rat))"
      using d by (simp flip: mult_minus_left)
    moreover have "of_int hi * of_int d \<le> max \<bar>of_int lo\<bar> \<bar>of_int hi\<bar> * (of_int d :: rat)"
      using d by simp
    ultimately show ?thesis using lo(1) hi(1) by linarith
  qed
  also have "\<dots> < 2 powi p * of_int d"
  proof -
    have "max \<bar>(of_int lo :: rat)\<bar> \<bar>of_int hi\<bar> = of_int (max \<bar>lo\<bar> \<bar>hi\<bar>)" by simp
    also have "\<dots> < of_int (2 ^ nat p)" using lo(2) hi(2) by (subst of_int_less_iff) simp
    finally show ?thesis using d p(1) by (simp add: powi_nat)
  qed
  finally have "(2::rat) powi (l + e) < 2 powi p" using d by simp
  then have "l + e < p"
    by (meson not_less one_le_numeral power_int_increasing)
  then have u: "u \<le> 0" using p(2) by (simp add: u_def)
  define m where "m = scaled_rne n d (e - u)"
  have scale: "of_int n * (2::rat) powi (e - u) = (of_int n * 2 powi e) * 2 powi (- u)"
    by (simp add: power_int_diff power_int_minus field_simps)
  have K: "(of_int (K * 2 ^ nat (- u)) :: rat) = of_int K * 2 powi (- u)" for K
    using u by (simp add: powi_nat)
  have "m \<le> hi * 2 ^ nat (- u)"
    unfolding m_def using hi(1) mult_right_mono [OF hi(1), of "2 powi (- u)"]
    by (intro scaled_rne_bounds(1) [OF d]) (simp only: scale K, simp add: mult_ac)
  moreover have "lo * 2 ^ nat (- u) \<le> m"
    unfolding m_def using mult_right_mono [OF lo(1), of "2 powi (- u)"]
    by (intro scaled_rne_bounds(2) [OF d]) (simp only: scale K, simp add: mult_ac)
  ultimately have "of_int lo * (2::rat) powi (- u) \<le> of_int m" "of_int m \<le> of_int hi * (2::rat) powi (- u)"
    unfolding K [symmetric] by (simp_all only: of_int_le_iff)
  then have "of_int lo \<le> of_int m * (2::rat) powi u" "of_int m * (2::rat) powi u \<le> of_int hi"
    by (simp_all add: power_int_minus field_simps)
  moreover obtain m' u' where "pack p emax m u = Fin m' u'"
      "of_int m' * (2::rat) powi u' = of_int m * 2 powi u"
    using pack_Fin [of p u emax m] p u by auto
  ultimately show ?thesis
    using False by (simp add: round_frac_def between_def m_def u_def l_def Let_def)
qed

lemma rnd_between:
  assumes "0 < d" and "of_int lo * of_int d \<le> of_int n * (2::rat) powi e"
    and "of_int n * (2::rat) powi e \<le> of_int hi * of_int d"
    and "\<bar>lo\<bar> < 9007199254740992" and "\<bar>hi\<bar> < 9007199254740992"
  shows "between lo hi (rnd n d e)"
  unfolding rnd_def using assms by (intro round_frac_between) simp_all

lemma between_dlit:
  "0 < d \<Longrightarrow> lo * d \<le> n \<Longrightarrow> n \<le> hi * d \<Longrightarrow> \<bar>lo\<bar> < 9007199254740992 \<Longrightarrow> \<bar>hi\<bar> < 9007199254740992 \<Longrightarrow>
    between lo hi (dlit n d)"
  unfolding dlit_def by (rule rnd_between) (simp_all flip: of_int_mult)

lemma between_dint: "\<bar>i\<bar> < 9007199254740992 \<Longrightarrow> between i i (dint i)"
  unfolding dint_def by (rule rnd_between) simp_all

lemma between_dadd:
  assumes "between a b x" and "between c d y"
    and "\<bar>a + c\<bar> < 9007199254740992" and "\<bar>b + d\<bar> < 9007199254740992"
  shows "between (a + c) (b + d) (dadd x y)"
proof -
  obtain m e where x: "x = Fin m e" "of_int a \<le> of_int m * (2::rat) powi e"
      "of_int m * (2::rat) powi e \<le> of_int b"
    using assms(1) by (rule betweenE)
  obtain n f where y: "y = Fin n f" "of_int c \<le> of_int n * (2::rat) powi f"
      "of_int n * (2::rat) powi f \<le> of_int d"
    using assms(2) by (rule betweenE)
  let ?g = "min e f"
  have "of_int (m * 2 ^ nat (e - ?g) + n * 2 ^ nat (f - ?g)) * (2::rat) powi ?g =
      of_int m * 2 powi e + of_int n * 2 powi f"
    by (simp only: of_int_add distrib_right powi_shift min.cobounded1 min.cobounded2)
  with x y assms(3,4) show ?thesis
    unfolding x(1) y(1) dadd.simps Let_def by (intro rnd_between) (simp_all only:, simp_all)
qed

lemma between_dneg: "between a b x \<Longrightarrow> between (- b) (- a) (dneg x)"
  by (auto simp: between_def)

lemma between_dsub:
  assumes "between a b x" and "between c d y"
    and "\<bar>a - d\<bar> < 9007199254740992" and "\<bar>b - c\<bar> < 9007199254740992"
  shows "between (a - d) (b - c) (dsub x y)"
  using between_dadd [OF assms(1) between_dneg [OF assms(2)]] assms(3,4) by (simp add: dsub_def)

lemma between_dmul:
  assumes "between 0 a x" and "between (- b) b y" and "a * b < 9007199254740992"
  shows "between (- (a * b)) (a * b) (dmul x y)"
    and "between 0 b y \<Longrightarrow> between 0 (a * b) (dmul x y)"
proof -
  obtain m e where x: "x = Fin m e" "0 \<le> of_int m * (2::rat) powi e"
      "of_int m * (2::rat) powi e \<le> of_int a"
    using assms(1) by (auto elim: betweenE)
  obtain n f where y: "y = Fin n f" "- of_int b \<le> of_int n * (2::rat) powi f"
      "of_int n * (2::rat) powi f \<le> of_int b"
    using assms(2) by (auto elim: betweenE)
  have prod: "of_int (m * n) * (2::rat) powi (e + f) = (of_int m * 2 powi e) * (of_int n * 2 powi f)"
    by (simp add: power_int_add)
  have "(0::rat) \<le> of_int a" "(0::rat) \<le> of_int b" using x(2,3) y(2,3) by linarith+
  then have nonneg: "0 \<le> a" "0 \<le> b" by simp_all
  then have ab: "0 \<le> a * b" by simp
  have "\<bar>(of_int m * 2 powi e) * (of_int n * (2::rat) powi f)\<bar> \<le> of_int a * of_int b"
    unfolding abs_mult using x(2,3) y(2,3) nonneg by (intro mult_mono) (simp_all add: abs_mult abs_le_iff)
  then have "between (- (a * b)) (a * b) (rnd (m * n) 1 (e + f))"
    using assms(3) ab by (intro rnd_between) (simp_all only: prod, auto simp: abs_le_iff)
  then show "between (- (a * b)) (a * b) (dmul x y)" by (simp add: x(1) y(1))
  show "between 0 (a * b) (dmul x y)" if "between 0 b y"
  proof -
    have n: "0 \<le> of_int n * (2::rat) powi f" using that by (simp add: y(1) between_Fin)
    have "(of_int m * 2 powi e) * (of_int n * (2::rat) powi f) \<le> of_int a * of_int b"
      using x(2,3) y(3) n nonneg by (intro mult_mono) simp_all
    then have "between 0 (a * b) (rnd (m * n) 1 (e + f))"
      using assms(3) ab mult_nonneg_nonneg [OF x(2) n]
      by (intro rnd_between) (simp_all only: prod, auto)
    then show ?thesis by (simp add: x(1) y(1))
  qed
qed

lemma between_ddiv_unit:
  assumes "x = Fin m e" and "y = Fin n f" and "0 \<le> fval x" and "fval x \<le> fval y" and "0 < fval y"
  shows "between 0 1 (ddiv x y)"
proof -
  from assms(2,5) have "0 < (of_int n :: rat)"
    by (metis fval.simps(1) powi_pos zero_less_mult_pos2)
  then have n: "0 < n" by simp
  have q: "of_int m * (2::rat) powi (e - f) = (of_int m * 2 powi e) / 2 powi f"
    by (simp add: power_int_diff)
  have "0 \<le> of_int m * (2::rat) powi (e - f)"
    using assms(1,3) unfolding q by simp
  moreover have "of_int m * (2::rat) powi (e - f) \<le> of_int n"
    using assms(1,2,4) unfolding q by (simp add: pos_divide_le_eq)
  ultimately
  have "between 0 1 (rnd m n (e - f))" using n by (intro rnd_between) simp_all
  with n show ?thesis by (simp add: assms(1,2))
qed

subsection \<open>Comparisons read the values\<close>

lemma aligned_less:
  "a * 2 ^ nat (x - min x y) < b * 2 ^ nat (y - min x y) \<longleftrightarrow>
    of_int a * (2::rat) powi x < of_int b * 2 powi y"
proof -
  have "a * 2 ^ nat (x - min x y) < b * 2 ^ nat (y - min x y) \<longleftrightarrow>
      of_int (a * 2 ^ nat (x - min x y)) * (2::rat) powi (min x y) <
      of_int (b * 2 ^ nat (y - min x y)) * 2 powi (min x y)"
    by (simp only: mult_less_cancel_right_pos [OF powi_pos] of_int_less_iff)
  also have "\<dots> \<longleftrightarrow> of_int a * (2::rat) powi x < of_int b * 2 powi y"
    by (simp only: powi_shift min.cobounded1 min.cobounded2)
  finally show ?thesis .
qed

lemma dlt_Fin: "dlt (Fin a x) (Fin b y) \<longleftrightarrow> fval (Fin a x) < fval (Fin b y)"
  by (simp add: Let_def aligned_less)

lemma dle_Fin: "dle (Fin a x) (Fin b y) \<longleftrightarrow> fval (Fin a x) \<le> fval (Fin b y)"
  using aligned_less [of b y x a] by (simp add: Let_def min.commute linorder_not_less [symmetric])

fun is_fin :: "fp \<Rightarrow> bool" where
  "is_fin (Fin m e) = True"
| "is_fin d = False"

lemma dlt_asym: "dlt x y \<Longrightarrow> \<not> dlt y x"
  by (cases x; cases y) (auto simp: dlt_Fin simp del: dlt.simps(1) fval.simps)

lemma dlt_fval: "is_fin x \<Longrightarrow> is_fin y \<Longrightarrow> dlt x y \<longleftrightarrow> fval x < fval y"
  by (cases x; cases y) (simp_all add: dlt_Fin del: dlt.simps fval.simps)

lemma dle_fval: "is_fin x \<Longrightarrow> is_fin y \<Longrightarrow> dle x y \<longleftrightarrow> fval x \<le> fval y"
  by (cases x; cases y) (simp_all add: dle_Fin del: dle.simps fval.simps)

lemma between_fin: "between lo hi d \<longleftrightarrow> is_fin d \<and> of_int lo \<le> fval d \<and> fval d \<le> of_int hi"
  by (cases d) (simp_all add: between_def)

subsection \<open>The unit interval\<close>

text \<open>\<open>0.0\<close> and \<open>1.0\<close>, and the intensities of a normalised pixel.\<close>

definition d0 :: double where
  "d0 = dint 0"

definition d1 :: double where
  "d1 = dint 1"

definition in_unit :: "double \<Rightarrow> bool" where
  "in_unit d \<longleftrightarrow> dle d0 d \<and> dle d d1"

lemma d0_eq: "d0 = Fin 0 0"
  by code_simp

lemma d1_eq: "d1 = Fin 4503599627370496 (- 52)"
  by code_simp

lemma fval_d0 [simp]: "fval d0 = 0"
  by (simp add: d0_eq)

lemma fval_d1 [simp]: "fval d1 = 1"
  by (simp add: d1_eq power_int_def power_one_over)

lemma is_fin_const [simp]: "is_fin d0" "is_fin d1"
  by (simp_all add: d0_eq d1_eq)

lemma in_unit_between: "in_unit d \<longleftrightarrow> between 0 1 d"
proof (cases "is_fin d")
  case True
  then show ?thesis by (simp add: in_unit_def between_fin dle_fval)
next
  case False
  then show ?thesis by (cases d) (simp_all add: in_unit_def between_fin d0_eq d1_eq)
qed

lemma in_unit_d0 [simp]: "in_unit d0" and in_unit_d1 [simp]: "in_unit d1"
  by (simp_all add: in_unit_between between_fin)

text \<open>
  Both clamps of the source, \<open>std::min(1.0, std::max(0.0, x))\<close> and
  \<open>std::max(0.0, std::min(1.0, x))\<close>, land in the unit interval whatever the argument, an infinity
  or a NaN included.
\<close>

lemma clamp_in_unit [simp]:
  "in_unit (std_min d1 (std_max d0 x))" "in_unit (std_max d0 (std_min d1 x))"
proof -
  have "in_unit (std_min d1 (std_max d0 x)) \<and> in_unit (std_max d0 (std_min d1 x))"
  proof (cases "is_fin x")
    case True
    then show ?thesis
      by (auto simp: in_unit_between between_fin std_min_def std_max_def dlt_fval)
  next
    case False
    then show ?thesis
      by (cases x) (simp_all add: std_min_def std_max_def d0_eq d1_eq in_unit_def)
  qed
  then show "in_unit (std_min d1 (std_max d0 x))" "in_unit (std_max d0 (std_min d1 x))"
    by simp_all
qed

text \<open>A clamped value that was in range is unchanged.\<close>

lemma clamp_id: "in_unit x \<Longrightarrow> fval (std_min d1 (std_max d0 x)) = fval x"
  by (auto simp: in_unit_between between_fin std_min_def std_max_def dlt_fval)

subsection \<open>Conversions to integers\<close>

lemma trunc_bounds:
  fixes a P :: int
  assumes "0 < P" and "lo \<le> 0" and "0 \<le> hi" and "lo * P \<le> a" and "a \<le> hi * P"
  shows "lo \<le> sgn a * (\<bar>a\<bar> div P)" "sgn a * (\<bar>a\<bar> div P) \<le> hi"
proof -
  have "\<bar>a\<bar> div P \<le> max (- lo) hi"
  proof -
    have "\<bar>a\<bar> \<le> max (- lo) hi * P"
    proof -
      have "(- max (- lo) hi) * P \<le> lo * P" "hi * P \<le> max (- lo) hi * P"
        using assms(1) by (intro mult_right_mono; simp)+
      then show ?thesis using assms(4,5) by (simp add: abs_le_iff)
    qed
    then have "\<bar>a\<bar> div P \<le> max (- lo) hi * P div P" using assms(1) by (rule zdiv_mono1)
    then show ?thesis using assms(1) by simp
  qed
  moreover have "0 \<le> a \<Longrightarrow> a div P \<le> hi"
    using zdiv_mono1 [OF assms(5,1)] assms(1) by simp
  moreover have "a \<le> 0 \<Longrightarrow> (- a) div P \<le> - lo"
  proof -
    have "(- a) div P \<le> ((- lo) * P) div P" using assms(1,4) by (intro zdiv_mono1) simp_all
    also have "\<dots> = - lo" using assms(1) by (intro nonzero_mult_div_cancel_right) simp
    finally show "(- a) div P \<le> - lo" .
  qed
  moreover have "0 \<le> \<bar>a\<bar> div P" using assms(1) by (simp add: pos_imp_zdiv_nonneg_iff)
  ultimately show "lo \<le> sgn a * (\<bar>a\<bar> div P)" "sgn a * (\<bar>a\<bar> div P) \<le> hi"
    using assms(2,3) by (cases a "0::int" rule: linorder_cases; simp)+
qed

lemma dtrunc_between:
  assumes "between lo hi d" and "lo \<le> 0" and "0 \<le> hi"
  shows "\<exists>i. dtrunc d = Some i \<and> lo \<le> i \<and> i \<le> hi"
proof -
  obtain a e where d: "d = Fin a e" "of_int lo \<le> of_int a * (2::rat) powi e"
      "of_int a * (2::rat) powi e \<le> of_int hi"
    using assms(1) by (rule betweenE)
  show ?thesis
  proof (cases "0 \<le> e")
    case True
    then have "(of_int lo :: rat) \<le> of_int (a * 2 ^ nat e)" "of_int (a * 2 ^ nat e) \<le> (of_int hi :: rat)"
      using d(2,3) by (simp_all only: powi_scale)
    with True show ?thesis by (simp add: d(1) del: of_int_mult of_int_power)
  next
    case False
    then have "of_int (lo * 2 ^ nat (- e)) \<le> (of_int a :: rat)" "(of_int a :: rat) \<le> of_int (hi * 2 ^ nat (- e))"
      using d(2,3) by (simp_all add: power_int_def field_simps)
    then have "lo * 2 ^ nat (- e) \<le> a" "a \<le> hi * 2 ^ nat (- e)"
      by (simp_all only: of_int_le_iff)
    then show ?thesis
      using False trunc_bounds [of "2 ^ nat (- e)" lo hi a] assms(2,3) by (simp add: d(1))
  qed
qed

lemma to_i32_between:
  assumes "between lo hi d" and "lo \<le> 0" and "0 \<le> hi" and "- 2147483648 \<le> lo" and "hi < 2147483648"
  shows "\<exists>i. to_i32 d = Inr i \<and> lo \<le> i \<and> i \<le> hi"
  using dtrunc_between [OF assms(1-3)] assms(4,5) by (auto simp: to_i32_def)

lemma to_u8_between: "between 0 255 d \<Longrightarrow> \<exists>b. to_u8 d = Inr b"
  using dtrunc_between [of 0 255 d] by (auto simp: to_u8_def)

end
