(* ===== verification/Bmp_Image.thy ===== *)
theory Bmp_Image
  imports Double_Arith
begin

text \<open>
  \<open>image_processor/include/{pixel,matrix,image}.h\<close> and \<open>src/{image,matrix}.cpp\<close>: pixels, kernels,
  the image with its two BMP headers, and \<open>Image::Multiply\<close>, the convolution behind the sharpening,
  edge and blur filters. The loops are translated step by step with checked indices; the lemmas show
  that on a well-formed image they compute one specified pixel per cell and touch nothing out of
  range.
\<close>

subsection \<open>Pixels and headers\<close>

record pixel =
  px_r :: double
  px_g :: double
  px_b :: double

text \<open>\<open>Pixel(uint8_t, uint8_t, uint8_t)\<close>, and the zero a \<open>std::vector<Pixel>\<close> is filled with.\<close>

definition byte_intensity :: "u8 \<Rightarrow> double" where
  "byte_intensity b = ddiv (dint (uint b)) (dint 255)"

definition pixel_of_bytes :: "u8 \<Rightarrow> u8 \<Rightarrow> u8 \<Rightarrow> pixel" where
  "pixel_of_bytes r g b = \<lparr>px_r = byte_intensity r, px_g = byte_intensity g, px_b = byte_intensity b\<rparr>"

definition blank :: pixel where
  "blank = \<lparr>px_r = d0, px_g = d0, px_b = d0\<rparr>"

definition map_pixel :: "(double \<Rightarrow> double) \<Rightarrow> pixel \<Rightarrow> pixel" where
  "map_pixel f p = \<lparr>px_r = f (px_r p), px_g = f (px_g p), px_b = f (px_b p)\<rparr>"

definition unit_pixel :: "pixel \<Rightarrow> bool" where
  "unit_pixel p \<longleftrightarrow> in_unit (px_r p) \<and> in_unit (px_g p) \<and> in_unit (px_b p)"

record file_header =
  signature :: u16
  file_size :: u32
  reserved1 :: u16
  reserved2 :: u16
  data_offset :: u32

record info_header =
  header_size :: u32
  width :: u32
  height :: u32
  planes :: u16
  bits_per_pixel :: u16
  compression :: u32
  image_size :: u32
  x_pixels_per_meter :: u32
  y_pixels_per_meter :: u32
  colors_used :: u32
  colors_important :: u32

text \<open>
  \<open>Image\<close>, with its two base classes as fields. \<open>buffer\<close> is a static member of the class; the
  program has one image at a time, so it is part of that image's state.
\<close>

record image =
  fh :: file_header
  ih :: info_header
  pixels :: "pixel list list"
  buffer :: "pixel list list"

type_synonym matrix = "double list list"

subsection \<open>Matrix\<close>

text \<open>\<open>Matrix::Transpose\<close>: a fresh matrix is filled cell by cell and swapped in.\<close>

definition transpose_matrix :: "matrix \<Rightarrow> matrix res" where
  "transpose_matrix m =
    bnd (vec_at m 0) (\<lambda>row0.
      for_each (\<lambda>i. for_each (\<lambda>j n_matrix.
          bnd (grid_at m (int i) (int j)) (\<lambda>x. grid_put n_matrix (int j) (int i) x))
        [0..<length row0]) [0..<length m]
        (replicate (length row0) (replicate (length m) d0)))"

subsection \<open>Image::Multiply\<close>

definition normalize :: "double \<Rightarrow> double" where
  "normalize x = std_min d1 (std_max d0 x)"

definition in_square :: "int \<Rightarrow> int \<Rightarrow> int \<Rightarrow> int \<Rightarrow> bool" where
  "in_square c_row c_col rows cols \<longleftrightarrow> 0 \<le> c_row \<and> c_row < rows \<and> 0 \<le> c_col \<and> c_col < cols"

text \<open>
  The cell a kernel tap reads. \<open>InfoHeader::height <= c_row\<close> compares an unsigned with a signed
  value, so the signed one is converted to 32 unsigned bits.
\<close>

definition source_cell :: "u32 \<Rightarrow> u32 \<Rightarrow> int \<Rightarrow> int \<Rightarrow> int \<Rightarrow> int \<Rightarrow> (int \<times> int) res" where
  "source_cell h w row col d_row d_col =
    (let maxh = sint h; maxw = sint w in
     bnd (i32 (row + d_row)) (\<lambda>c_row. bnd (i32 (col + d_col)) (\<lambda>c_col.
       let c_row = (if c_row < 0 then - c_row else c_row);
           c_row = (if h \<le> word_of_int c_row then maxh - 1 - c_row else c_row);
           c_col = (if c_col < 0 then - c_col else c_col);
           c_col = (if w \<le> word_of_int c_col then maxw - 1 - c_col else c_col)
       in Inr (if in_square c_row c_col maxh maxw then (c_row, c_col) else (row, col)))))"

text \<open>\<open>buffer[row][col] += coeff * px\<close>, channel by channel.\<close>

definition add_scaled :: "double \<Rightarrow> pixel \<Rightarrow> pixel \<Rightarrow> pixel" where
  "add_scaled coeff px acc =
    \<lparr>px_r = dadd (px_r acc) (dmul coeff (px_r px)),
     px_g = dadd (px_g acc) (dmul coeff (px_g px)),
     px_b = dadd (px_b acc) (dmul coeff (px_b px))\<rparr>"

definition mul_tap ::
  "matrix \<Rightarrow> image \<Rightarrow> int \<Rightarrow> int \<Rightarrow> int \<Rightarrow> int \<Rightarrow> int \<Rightarrow> int \<Rightarrow> pixel list list \<Rightarrow> pixel list list res" where
  "mul_tap k img mid_row mid_col row col d_row d_col buf =
    bnd (source_cell (height (ih img)) (width (ih img)) row col d_row d_col) (\<lambda>(c_row, c_col).
    bnd (grid_at k (d_row + mid_row) (d_col + mid_col)) (\<lambda>coeff.
    bnd (grid_at (pixels img) c_row c_col) (\<lambda>px.
    bnd (grid_at buf row col) (\<lambda>acc. grid_put buf row col (add_scaled coeff px acc)))))"

definition mul_cell ::
  "matrix \<Rightarrow> image \<Rightarrow> int \<Rightarrow> int \<Rightarrow> int \<Rightarrow> int \<Rightarrow> pixel list list \<Rightarrow> pixel list list res" where
  "mul_cell k img mid_row mid_col row col buf =
    bnd (grid_put buf row col blank) (\<lambda>buf.
    bnd (for_each (\<lambda>d_row. for_each (\<lambda>d_col. mul_tap k img mid_row mid_col row col d_row d_col)
           [- mid_col .. mid_col]) [- mid_row .. mid_row] buf) (\<lambda>buf.
    bnd (grid_at buf row col) (\<lambda>acc. grid_put buf row col (map_pixel normalize acc))))"

definition multiply :: "matrix \<Rightarrow> image \<Rightarrow> image res" where
  "multiply k img =
    bnd (vec_at k 0) (\<lambda>row0.
      let mid_row = int (length k) div 2; mid_col = int (length row0) div 2;
          maxh = nat (sint (height (ih img))); maxw = nat (sint (width (ih img))) in
      bnd (for_each (\<lambda>row. for_each (\<lambda>col. mul_cell k img mid_row mid_col (int row) (int col))
             [0..<maxw]) [0..<maxh] (buffer img))
        (\<lambda>buf. Inr (img\<lparr>pixels := buf, buffer := pixels img\<rparr>)))"

subsection \<open>Well-formed images and kernels\<close>

text \<open>
  Both grids have the header's dimensions. The bounds on the dimensions keep every 32-bit index
  computation of the code from overflowing: the rows of such an image have up to two gigabytes, and
  there are up to \<open>2 ^ 30\<close> of them.
\<close>

definition img_h :: "image \<Rightarrow> nat" where
  "img_h img = unat (height (ih img))"

definition img_w :: "image \<Rightarrow> nat" where
  "img_w img = unat (width (ih img))"

definition wf_img :: "image \<Rightarrow> bool" where
  "wf_img img \<longleftrightarrow> dims (img_h img) (img_w img) (pixels img) \<and> dims (img_h img) (img_w img) (buffer img) \<and>
     img_h img < 1073741824 \<and> img_w img \<le> 715827882"

definition unit_img :: "image \<Rightarrow> bool" where
  "unit_img img \<longleftrightarrow> (\<forall>row \<in> set (pixels img). \<forall>p \<in> set row. unit_pixel p)"

text \<open>A kernel of odd dimensions.\<close>

definition odd_kernel :: "matrix \<Rightarrow> bool" where
  "odd_kernel k \<longleftrightarrow> k \<noteq> [] \<and> dims (length k) (length (k ! 0)) k \<and> odd (length k) \<and> odd (length (k ! 0)) \<and>
     length k < 1073741824 \<and> length (k ! 0) < 1073741824"

text \<open>The specification: the cell a tap reads, the taps of one pixel, their sum.\<close>

definition tap_cell :: "nat \<Rightarrow> nat \<Rightarrow> nat \<Rightarrow> nat \<Rightarrow> int \<Rightarrow> int \<Rightarrow> nat \<times> nat" where
  "tap_cell h w row col d_row d_col =
    (let r = nat \<bar>int row + d_row\<bar>; c = nat \<bar>int col + d_col\<bar> in
     if r < h \<and> c < w then (r, c) else (row, col))"

definition tap_pixel :: "image \<Rightarrow> nat \<Rightarrow> nat \<Rightarrow> int \<Rightarrow> int \<Rightarrow> pixel" where
  "tap_pixel img row col d_row d_col =
    (case tap_cell (img_h img) (img_w img) row col d_row d_col of (r, c) \<Rightarrow> pixels img ! r ! c)"

definition conv_sum :: "matrix \<Rightarrow> image \<Rightarrow> nat \<Rightarrow> nat \<Rightarrow> pixel" where
  "conv_sum k img row col =
    (let mid_row = int (length k) div 2; mid_col = int (length (k ! 0)) div 2 in
     fold (\<lambda>d_row. fold (\<lambda>d_col.
         add_scaled (k ! nat (d_row + mid_row) ! nat (d_col + mid_col)) (tap_pixel img row col d_row d_col))
       [- mid_col .. mid_col]) [- mid_row .. mid_row] blank)"

definition conv_pixel :: "matrix \<Rightarrow> image \<Rightarrow> nat \<Rightarrow> nat \<Rightarrow> pixel" where
  "conv_pixel k img row col = map_pixel normalize (conv_sum k img row col)"

subsection \<open>The convolution on a well-formed image\<close>

lemma sint_small:
  assumes "unat (x :: u32) < 2147483648"
  shows "sint x = int (unat x)"
proof -
  from assms have "int (unat x) < 2147483648" by linarith
  then have "uint x < 2147483648" by simp
  moreover have "- (2 ^ 31) \<le> uint x" by (rule order_trans [of _ 0]) simp_all
  ultimately have "signed_take_bit 31 (uint x) = uint x"
    by (intro signed_take_bit_int_eq_self) simp_all
  then show ?thesis by (simp add: sint_uint)
qed

lemma word_le_small:
  assumes "0 \<le> x" and "x < 4294967296"
  shows "(h :: u32) \<le> word_of_int x \<longleftrightarrow> int (unat h) \<le> x"
  using assms by (simp add: word_le_def uint_word_of_int)

lemma source_cell_eq:
  assumes "unat h < 1073741824" and "unat w < 1073741824" and "row < unat h" and "col < unat w"
    and "\<bar>d_row\<bar> < 1073741824" and "\<bar>d_col\<bar> < 1073741824"
  shows "source_cell h w (int row) (int col) d_row d_col =
    Inr (map_prod int int (tap_cell (unat h) (unat w) row col d_row d_col))"
proof -
  let ?r = "int row + d_row" and ?c = "int col + d_col"
  have r: "\<bar>?r\<bar> < 2147483648" "\<bar>?c\<bar> < 2147483648" using assms by linarith+
  have i: "i32 ?r = Inr ?r" "i32 ?c = Inr ?c" using r by (auto intro!: i32_ok)
  have s: "sint h = int (unat h)" "sint w = int (unat w)" using assms(1,2) by (simp_all only: sint_small)
  have abs: "(if ?r < 0 then - ?r else ?r) = \<bar>?r\<bar>" "(if ?c < 0 then - ?c else ?c) = \<bar>?c\<bar>" by auto
  have le: "h \<le> word_of_int \<bar>?r\<bar> \<longleftrightarrow> int (unat h) \<le> \<bar>?r\<bar>" "w \<le> word_of_int \<bar>?c\<bar> \<longleftrightarrow> int (unat w) \<le> \<bar>?c\<bar>"
    by (rule word_le_small; use r in linarith)+
  show ?thesis
    unfolding source_cell_def Let_def i bnd_simps s abs le tap_cell_def in_square_def
    by (auto simp: nat_less_iff)
qed

lemma tap_cell_in_range:
  "row < h \<Longrightarrow> col < w \<Longrightarrow> fst (tap_cell h w row col dr dc) < h \<and> snd (tap_cell h w row col dr dc) < w"
  by (simp add: tap_cell_def Let_def)

lemma mul_tap_eq:
  assumes img: "wf_img img" and k: "odd_kernel k"
    and cell: "row < img_h img" "col < img_w img"
    and d: "d_row \<in> {- (int (length k) div 2) .. int (length k) div 2}"
      "d_col \<in> {- (int (length (k ! 0)) div 2) .. int (length (k ! 0)) div 2}"
    and buf: "dims (img_h img) (img_w img) buf"
  shows "mul_tap k img (int (length k) div 2) (int (length (k ! 0)) div 2) (int row) (int col) d_row d_col buf =
    Inr (set_cell buf row col
      (add_scaled (k ! nat (d_row + int (length k) div 2) ! nat (d_col + int (length (k ! 0)) div 2))
        (tap_pixel img row col d_row d_col) (buf ! row ! col)))"
proof -
  obtain r c where rc: "tap_cell (img_h img) (img_w img) row col d_row d_col = (r, c)" by fastforce
  with tap_cell_in_range [OF cell] have "r < img_h img" "c < img_w img" by (metis fst_conv snd_conv)+
  then have px: "grid_at (pixels img) (int r) (int c) = Inr (pixels img ! r ! c)"
    using img by (intro grid_at_ok) (auto simp: wf_img_def)
  have kd: "dims (length k) (length (k ! 0)) k" "odd (length k)" "odd (length (k ! 0))"
    "length k < 1073741824" "length (k ! 0) < 1073741824"
    using k by (simp_all add: odd_kernel_def)
  have "grid_at k (d_row + int (length k) div 2) (d_col + int (length (k ! 0)) div 2) =
      Inr (k ! nat (d_row + int (length k) div 2) ! nat (d_col + int (length (k ! 0)) div 2))"
    using kd(2,3) d by (intro grid_at_ok_int [OF kd(1)]) (auto elim!: oddE)
  moreover have "source_cell (height (ih img)) (width (ih img)) (int row) (int col) d_row d_col = Inr (int r, int c)"
    using img cell d kd(4,5) rc by (subst source_cell_eq) (auto simp: wf_img_def img_h_def img_w_def)
  ultimately show ?thesis
    using buf cell px rc by (simp add: mul_tap_def grid_at_ok grid_put_ok tap_pixel_def)
qed

text \<open>Loops that only rewrite one cell compose as the fold of their updates.\<close>

lemma for_each_one_cell:
  assumes "r < h" and "c < w"
    and "\<And>i g. i \<in> set is \<Longrightarrow> dims h w g \<Longrightarrow> body i g = Inr (set_cell g r c (f i (g ! r ! c)))"
    and "dims h w g"
  shows "for_each body is g = Inr (set_cell g r c (fold f is (g ! r ! c)))"
  using assms(3,4)
proof (induction "is" arbitrary: g)
  case Nil
  then show ?case by (simp add: set_cell_def)
next
  case (Cons i "is")
  let ?g = "set_cell g r c (f i (g ! r ! c))"
  from Cons.prems(2) assms(1,2) have "dims h w ?g" "?g ! r ! c = f i (g ! r ! c)"
    by (auto simp: set_cell_nth [of h w])
  then show ?case
    using Cons by simp
qed

lemma mul_cell_eq:
  assumes img: "wf_img img" and k: "odd_kernel k"
    and cell: "row < img_h img" "col < img_w img" and buf: "dims (img_h img) (img_w img) buf"
  shows "mul_cell k img (int (length k) div 2) (int (length (k ! 0)) div 2) (int row) (int col) buf =
    Inr (set_cell buf row col (conv_pixel k img row col))"
proof -
  let ?h = "img_h img" and ?w = "img_w img"
  let ?mr = "int (length k) div 2" and ?mc = "int (length (k ! 0)) div 2"
  let ?buf0 = "set_cell buf row col blank"
  have b0: "dims ?h ?w ?buf0" "?buf0 ! row ! col = blank"
    using buf cell by (auto simp: set_cell_nth [of ?h ?w])
  have inner: "for_each (\<lambda>d_col. mul_tap k img ?mr ?mc (int row) (int col) d_row d_col) [- ?mc .. ?mc] g =
      Inr (set_cell g row col (fold (\<lambda>d_col.
         add_scaled (k ! nat (d_row + ?mr) ! nat (d_col + ?mc)) (tap_pixel img row col d_row d_col))
         [- ?mc .. ?mc] (g ! row ! col)))"
    if "d_row \<in> set [- ?mr .. ?mr]" "dims ?h ?w g" for d_row g
    using that by (intro for_each_one_cell [OF cell] mul_tap_eq [OF img k cell]) auto
  have loop: "for_each (\<lambda>d_row. for_each (\<lambda>d_col. mul_tap k img ?mr ?mc (int row) (int col) d_row d_col)
        [- ?mc .. ?mc]) [- ?mr .. ?mr] ?buf0 =
      Inr (set_cell ?buf0 row col (conv_sum k img row col))"
    unfolding conv_sum_def Let_def
    using for_each_one_cell [OF cell _ b0(1), where f = "\<lambda>d_row. fold (\<lambda>d_col.
         add_scaled (k ! nat (d_row + ?mr) ! nat (d_col + ?mc)) (tap_pixel img row col d_row d_col))
         [- ?mc .. ?mc]", OF inner] by (simp only: b0(2))
  show ?thesis
    using buf cell
    by (simp add: mul_cell_def loop grid_put_ok [of ?h ?w] grid_at_ok [of ?h ?w] set_cell_nth [of ?h ?w]
        conv_pixel_def)
qed

lemma multiply_eq:
  assumes img: "wf_img img" and k: "odd_kernel k"
  shows "multiply k img =
    Inr (img\<lparr>pixels := tabulate (img_h img) (img_w img) (conv_pixel k img), buffer := pixels img\<rparr>)"
proof -
  have dim: "nat (sint (height (ih img))) = img_h img" "nat (sint (width (ih img))) = img_w img"
    using img by (simp_all add: wf_img_def img_h_def img_w_def sint_small)
  have "vec_at k 0 = Inr (k ! 0)" using k by (simp add: odd_kernel_def vec_at_def)
  then show ?thesis
    unfolding multiply_def Let_def dim using img
    by (simp add: wf_img_def for_each_grid [where f = "\<lambda>r c _. conv_pixel k img r c"] mul_cell_eq [OF img k])
qed

text \<open>The image after a convolution.\<close>

definition convolve :: "matrix \<Rightarrow> image \<Rightarrow> image" where
  "convolve k img = img\<lparr>pixels := tabulate (img_h img) (img_w img) (conv_pixel k img), buffer := pixels img\<rparr>"

lemma multiply_convolve: "wf_img img \<Longrightarrow> odd_kernel k \<Longrightarrow> multiply k img = Inr (convolve k img)"
  by (simp add: multiply_eq convolve_def)

lemma wf_img_pixels:
  "wf_img img \<Longrightarrow> dims (img_h img) (img_w img) ps \<Longrightarrow> wf_img (img\<lparr>pixels := ps\<rparr>)"
  by (simp add: wf_img_def img_h_def img_w_def)

lemma unit_img_tabulate:
  "(\<And>r c. r < h \<Longrightarrow> c < w \<Longrightarrow> unit_pixel (f r c)) \<Longrightarrow> unit_img (img\<lparr>pixels := tabulate h w f\<rparr>)"
  by (auto simp: unit_img_def tabulate_def)

lemma unit_pixel_normalize [simp]: "unit_pixel (map_pixel normalize p)"
  by (simp add: unit_pixel_def map_pixel_def normalize_def)

lemma unit_pixel_conv [simp]: "unit_pixel (conv_pixel k img r c)"
  by (simp add: conv_pixel_def)

lemma unit_img_nth:
  "unit_img img \<Longrightarrow> dims h w (pixels img) \<Longrightarrow> r < h \<Longrightarrow> c < w \<Longrightarrow> unit_pixel (pixels img ! r ! c)"
  by (simp add: unit_img_def dims_nth all_set_conv_all_nth)

lemma multiply_wf:
  assumes "wf_img img" and "odd_kernel k"
  shows "\<exists>img'. multiply k img = Inr img' \<and> wf_img img' \<and> unit_img img' \<and> fh img' = fh img \<and> ih img' = ih img"
  using assms by (auto simp: multiply_eq wf_img_def img_h_def img_w_def unit_img_def tabulate_def dims_def)

lemma convolve_wf: "wf_img img \<Longrightarrow> wf_img (convolve k img)"
  by (auto simp: convolve_def wf_img_def img_h_def img_w_def tabulate_def dims_def)

lemma convolve_unit: "unit_img (convolve k img)"
  by (auto simp: convolve_def unit_img_def tabulate_def)

lemma transpose_matrix_eq:
  assumes "dims m n k" and "0 < m"
  shows "transpose_matrix k = Inr (tabulate n m (\<lambda>r c. k ! c ! r))"
proof -
  have row0: "vec_at k 0 = Inr (k ! 0)" "length (k ! 0) = n" "length k = m"
    using assms by (auto simp: vec_at_def dims_nth)
  let ?ps = "concat (map (\<lambda>i. map (Pair i) [0..<n]) [0..<m])"
  have "for_each (\<lambda>(i, j) g. bnd (grid_at k (int i) (int j)) (\<lambda>x. grid_put g (int j) (int i) x)) ?ps
      (replicate n (replicate m d0)) =
    Inr (tabulate n m (\<lambda>r c. if (r, c) \<in> (\<lambda>(i, j). (j, i)) ` set ?ps then k ! c ! r
      else replicate n (replicate m d0) ! r ! c))"
    using assms(1)
    by (intro for_each_fill) (auto simp: grid_at_ok [of m n] grid_put_ok [of n m])
  also have "\<dots> = Inr (tabulate n m (\<lambda>r c. k ! c ! r))"
    by (auto intro!: tabulate_cong simp: image_iff)
  finally show ?thesis
    by (simp add: transpose_matrix_def row0 for_each_pairs case_prod_beta')
qed

subsection \<open>Properties\<close>

definition gray_dot :: pixel where
  "gray_dot = pixel_of_bytes 51 51 51"

definition sample_headers :: "nat \<Rightarrow> nat \<Rightarrow> file_header \<times> info_header" where
  "sample_headers h w =
    (\<lparr>signature = 0x4D42, file_size = of_nat (54 + h * (3 * w + (4 - 3 * w mod 4) mod 4)), reserved1 = 0,
       reserved2 = 0, data_offset = 54\<rparr>,
     \<lparr>header_size = 40, width = of_nat w, height = of_nat h, planes = 1, bits_per_pixel = 24, compression = 0,
       image_size = 0, x_pixels_per_meter = 0, y_pixels_per_meter = 0, colors_used = 0, colors_important = 0\<rparr>)"

text \<open>A picture of two by two pixels with a white corner, on which the properties are tried.\<close>

definition sample_image :: image where
  "sample_image =
    \<lparr>fh = fst (sample_headers 2 2), ih = snd (sample_headers 2 2),
     pixels = [[gray_dot, pixel_of_bytes 255 255 255], [pixel_of_bytes 0 0 0, gray_dot]],
     buffer = [[blank, blank], [blank, blank]]\<rparr>"

lemma sample_image_wf: "wf_img sample_image"
  by (simp add: wf_img_def img_h_def img_w_def sample_image_def sample_headers_def dims_def)

lemma sample_image_unit: "unit_img sample_image"
proof -
  have "list_all (list_all unit_pixel) (pixels sample_image)" by code_simp
  then show ?thesis by (simp add: unit_img_def list_all_iff)
qed

definition mean_kernel :: matrix where
  "mean_kernel = [[dlit 1 2, d0, dlit 1 2]]"

lemma mean_kernel_odd: "odd_kernel mean_kernel"
  by (simp add: odd_kernel_def mean_kernel_def dims_def)

text \<open>
  C4: the loops of \<open>Image::Multiply\<close> compute the specified convolution on every well-formed image and
  every kernel of odd dimensions: each cell of the result is the clamped sum of the kernel's taps, a tap
  outside the image being mirrored at the top and left edge and replaced by the centre pixel at the
  bottom and right edge. No index is out of range, the old pixels become the buffer, the headers stay,
  and every intensity of the result lies between zero and one.
\<close>

theorem convolution_spec:
  assumes "wf_img img" and "odd_kernel k"
  shows "multiply k img =
      Inr (img\<lparr>pixels := tabulate (img_h img) (img_w img) (conv_pixel k img), buffer := pixels img\<rparr>) \<and>
    unit_img (img\<lparr>pixels := tabulate (img_h img) (img_w img) (conv_pixel k img), buffer := pixels img\<rparr>)"
  using multiply_eq [OF assms] by (simp add: unit_img_def tabulate_def)

theorem convolution_witness:
  "multiply mean_kernel sample_image = Inr (sample_image\<lparr>pixels :=
     tabulate (img_h sample_image) (img_w sample_image) (conv_pixel mean_kernel sample_image),
     buffer := pixels sample_image\<rparr>)"
  using convolution_spec [OF sample_image_wf mean_kernel_odd] by simp

end
