(* ===== verification/Bmp_IO.thy ===== *)
theory Bmp_IO
  imports Bmp_Image
begin

text \<open>
  \<open>image_processor/include/io.h\<close> and \<open>src/io.cpp\<close>: the BMP reader and writer. A stream is the bytes
  not read yet and the fail bit; \<open>read\<close> on a stream with too few bytes copies what there is and sets
  the fail bit, without throwing. The lemmas characterise the reader and the writer on every image
  whose rows have fewer than \<open>2 ^ 31\<close> bytes.
\<close>

subsection \<open>Little-endian integers\<close>

fun le_bytes :: "nat \<Rightarrow> int \<Rightarrow> u8 list" where
  "le_bytes 0 x = []"
| "le_bytes (Suc n) x = word_of_int x # le_bytes n (x div 256)"

fun le_val :: "u8 list \<Rightarrow> int" where
  "le_val [] = 0"
| "le_val (b # bs) = uint b + 256 * le_val bs"

definition bytes16 :: "u16 \<Rightarrow> u8 list" where "bytes16 x = le_bytes 2 (uint x)"
definition word16 :: "u8 list \<Rightarrow> u16" where "word16 bs = word_of_int (le_val bs)"
definition bytes32 :: "u32 \<Rightarrow> u8 list" where "bytes32 x = le_bytes 4 (uint x)"
definition word32 :: "u8 list \<Rightarrow> u32" where "word32 bs = word_of_int (le_val bs)"

lemma length_le_bytes [simp]: "length (le_bytes n x) = n"
  by (induction n arbitrary: x) simp_all

lemma le_val_le_bytes: "le_val (le_bytes n x) = x mod 256 ^ n"
proof (induction n arbitrary: x)
  case (Suc n)
  have "x mod (256 * 256 ^ n) = 256 * (x div 256 mod 256 ^ n) + x mod 256"
    by (simp add: zmod_zmult2_eq)
  with Suc show ?case by (simp add: uint_word_of_int)
qed simp

lemma le_val_bounds: "0 \<le> le_val bs \<and> le_val bs < 256 ^ length bs"
proof (induction bs)
  case (Cons b bs)
  have "uint b < 256" using uint_lt2p [of b] by simp
  with Cons show ?case by simp
qed simp

lemma le_bytes_le_val: "le_bytes (length bs) (le_val bs) = bs"
proof (induction bs)
  case (Cons b bs)
  have b: "0 \<le> uint b" "uint b < 256" using uint_lt2p [of b] by simp_all
  then have "(uint b + 256 * le_val bs) div 256 = le_val bs" by simp
  moreover have "word_of_int (uint b + 256 * le_val bs) = b"
  proof -
    have zero: "(of_int 256 :: u8) = 0" by simp
    have "(of_int (uint b + 256 * le_val bs) :: u8) = of_int (uint b) + of_int 256 * of_int (le_val bs)"
      by (simp only: of_int_add of_int_mult)
    also have "\<dots> = b" by (simp only: zero) simp
    finally show ?thesis .
  qed
  ultimately show ?case using Cons by simp
qed simp

subsection \<open>Streams\<close>

record istream =
  rest :: "u8 list"
  failed :: bool

definition open_in :: "u8 list \<Rightarrow> istream" where
  "open_in bs = \<lparr>rest = bs, failed = False\<rparr>"

text \<open>\<open>file.read(obj, n)\<close>: the new contents of the \<open>n\<close> bytes of \<open>obj\<close>, given their old ones.\<close>

definition stream_read :: "u8 list \<Rightarrow> istream \<Rightarrow> u8 list \<times> istream" where
  "stream_read old s =
    (if failed s then (old, s)
     else if length old \<le> length (rest s)
     then (take (length old) (rest s), s\<lparr>rest := drop (length old) (rest s)\<rparr>)
     else (rest s @ drop (length (rest s)) old, \<lparr>rest = [], failed = True\<rparr>))"

lemma length_stream_read [simp]: "length (fst (stream_read old s)) = length old"
  by (simp add: stream_read_def)

lemma stream_read_exact:
  "length old = length bs \<Longrightarrow> stream_read old (open_in (bs @ r)) = (bs, open_in r)"
  by (simp add: stream_read_def open_in_def)

text \<open>What the reader relies on: a value written is read back, and bytes read are written back.\<close>

locale codec =
  fixes put :: "'a \<Rightarrow> u8 list" and get :: "u8 list \<Rightarrow> 'a" and sz :: nat
  assumes put_length: "length (put x) = sz"
    and get_put: "get (put x) = x"
    and put_get: "length bs = sz \<Longrightarrow> put (get bs) = bs"
begin

lemma read_written: "stream_read (put old) (open_in (put x @ r)) = (put x, open_in r)"
  by (rule stream_read_exact) (simp add: put_length)

lemma put_inj: "put x = put y \<Longrightarrow> x = y"
  using get_put by metis

lemma decode_any:
  assumes "sz \<le> length bs"
  shows "\<exists>x r. bs = put x @ r"
  using assms put_get [of "take sz bs"] append_take_drop_id [of sz bs]
  by (intro exI [of _ "get (take sz bs)"] exI [of _ "drop sz bs"]) simp

end

interpretation c16: codec bytes16 word16 2
proof
  fix x :: u16
  show "length (bytes16 x) = 2" by (simp add: bytes16_def)
  have "uint x < 65536" using uint_lt2p [of x] by simp
  then show "word16 (bytes16 x) = x" by (simp add: word16_def bytes16_def le_val_le_bytes)
next
  fix bs :: "u8 list"
  assume bs: "length bs = 2"
  then have "0 \<le> le_val bs" "le_val bs < 65536" using le_val_bounds [of bs] by simp_all
  then show "bytes16 (word16 bs) = bs"
    using bs le_bytes_le_val [of bs] by (simp add: word16_def bytes16_def uint_word_of_int)
qed

interpretation c32: codec bytes32 word32 4
proof
  fix x :: u32
  show "length (bytes32 x) = 4" by (simp add: bytes32_def)
  have "uint x < 4294967296" using uint_lt2p [of x] by simp
  then show "word32 (bytes32 x) = x" by (simp add: word32_def bytes32_def le_val_le_bytes)
next
  fix bs :: "u8 list"
  assume bs: "length bs = 4"
  then have "0 \<le> le_val bs" "le_val bs < 4294967296" using le_val_bounds [of bs] by simp_all
  then show "bytes32 (word32 bs) = bs"
    using bs le_bytes_le_val [of bs] by (simp add: word32_def bytes32_def uint_word_of_int)
qed

text \<open>The three overloads of \<open>ImageReader::Read\<close>; the last one is \<open>stream_read\<close> itself.\<close>

definition Read_u16 :: "u16 \<Rightarrow> istream \<Rightarrow> u16 \<times> istream" where
  "Read_u16 obj s = (case stream_read (bytes16 obj) s of (bs, s) \<Rightarrow> (word16 bs, s))"

definition Read_u32 :: "u32 \<Rightarrow> istream \<Rightarrow> u32 \<times> istream" where
  "Read_u32 obj s = (case stream_read (bytes32 obj) s of (bs, s) \<Rightarrow> (word32 bs, s))"

lemma Read_written [simp]:
  "Read_u16 old (open_in (bytes16 x @ r)) = (x, open_in r)"
  "Read_u32 old' (open_in (bytes32 y @ r)) = (y, open_in r)"
  by (simp_all add: Read_u16_def Read_u32_def c16.read_written c32.read_written c16.get_put c32.get_put)


subsection \<open>ImageReader\<close>

definition no_file_header :: file_header where
  "no_file_header = \<lparr>signature = 0, file_size = 0, reserved1 = 0, reserved2 = 0, data_offset = 0\<rparr>"

definition no_info_header :: info_header where
  "no_info_header = \<lparr>header_size = 0, width = 0, height = 0, planes = 0, bits_per_pixel = 0, compression = 0,
     image_size = 0, x_pixels_per_meter = 0, y_pixels_per_meter = 0, colors_used = 0, colors_important = 0\<rparr>"

text \<open>\<open>std::make_shared<Image>()\<close>: a value-initialised image; the static \<open>buffer\<close> is still empty.\<close>

definition new_image :: image where
  "new_image = \<lparr>fh = no_file_header, ih = no_info_header, pixels = [], buffer = []\<rparr>"

definition ReadFileHeader :: "file_header \<Rightarrow> istream \<Rightarrow> file_header \<times> istream" where
  "ReadFileHeader h s =
    (let (a, s) = Read_u16 (signature h) s;
         (b, s) = Read_u32 (file_size h) s;
         (c, s) = Read_u16 (reserved1 h) s;
         (d, s) = Read_u16 (reserved2 h) s;
         (e, s) = Read_u32 (data_offset h) s
     in (\<lparr>signature = a, file_size = b, reserved1 = c, reserved2 = d, data_offset = e\<rparr>, s))"

definition ReadInfoHeader :: "info_header \<Rightarrow> istream \<Rightarrow> info_header \<times> istream" where
  "ReadInfoHeader h s =
    (let (hs, s) = Read_u32 (header_size h) s;
         (wi, s) = Read_u32 (width h) s;
         (he, s) = Read_u32 (height h) s;
         (pl, s) = Read_u16 (planes h) s;
         (bp, s) = Read_u16 (bits_per_pixel h) s;
         (co, s) = Read_u32 (compression h) s;
         (im, s) = Read_u32 (image_size h) s;
         (xp, s) = Read_u32 (x_pixels_per_meter h) s;
         (yp, s) = Read_u32 (y_pixels_per_meter h) s;
         (cu, s) = Read_u32 (colors_used h) s;
         (ci, s) = Read_u32 (colors_important h) s
     in (\<lparr>header_size = hs, width = wi, height = he, planes = pl, bits_per_pixel = bp, compression = co,
          image_size = im, x_pixels_per_meter = xp, y_pixels_per_meter = yp, colors_used = cu,
          colors_important = ci\<rparr>, s))"

abbreviation SIGN :: int where "SIGN \<equiv> 0x4D42"
abbreviation SIZE :: nat where "SIZE \<equiv> 54"
abbreviation SIZE_H :: int where "SIZE_H \<equiv> 40"
abbreviation SIZE_P :: int where "SIZE_P \<equiv> 24"

definition Check :: "image \<Rightarrow> unit res" where
  "Check img =
    (if uint (signature (fh img)) \<noteq> SIGN then Inl (ReadImageException ''Incorrect signature'')
     else if uint (header_size (ih img)) \<noteq> SIZE_H then Inl (ReadImageException ''Incorrect header size'')
     else if uint (bits_per_pixel (ih img)) \<noteq> SIZE_P then Inl (ReadImageException ''Incorrect size of pixels'')
     else if compression (ih img) \<noteq> 0 then Inl (ReadImageException ''There is compression'')
     else if colors_used (ih img) \<noteq> 0 then Inl (ReadImageException ''There is colors table'')
     else Inr ())"

text \<open>
  The row buffer's size: \<open>line_size\<close> wraps at 32 bits, \<open>padding\<close> is an \<open>uint8_t\<close>.
\<close>

definition line_size :: "info_header \<Rightarrow> u32" where
  "line_size h = width h * 3"

definition padding :: "info_header \<Rightarrow> u8" where
  "padding h = ucast ((4 - line_size h mod 4) mod 4)"

definition row_buffer :: "info_header \<Rightarrow> u8 list" where
  "row_buffer h = replicate (unat (line_size h + ucast (padding h))) 0"

definition read_pixel :: "u8 list \<Rightarrow> u32 \<Rightarrow> nat \<Rightarrow> pixel list list \<Rightarrow> pixel list list res" where
  "read_pixel buf real_row col px =
    bnd (i32 (int col * 3)) (\<lambda>offset. bnd (i32 (offset + 1)) (\<lambda>offset1. bnd (i32 (offset + 2)) (\<lambda>offset2.
    bnd (vec_at buf offset) (\<lambda>blue.
    bnd (vec_at buf offset1) (\<lambda>green.
    bnd (vec_at buf offset2) (\<lambda>red.
      grid_put px (uint real_row) (int col) (pixel_of_bytes red green blue)))))))"

definition ReadPixels :: "image \<Rightarrow> istream \<Rightarrow> image res" where
  "ReadPixels img s =
    bnd (for_each (\<lambda>row (buf, s, px).
           case stream_read buf s of (buf, s) \<Rightarrow>
             bnd (for_each (read_pixel buf (height (ih img) - of_nat row - 1)) [0..<img_w img] px)
               (\<lambda>px. Inr (buf, s, px)))
         [0..<img_h img] (row_buffer (ih img), s, pixels img))
      (\<lambda>(buf, s, px). Inr (img\<lparr>pixels := px\<rparr>))"

text \<open>\<open>ReadFile\<close>, given the contents of the file the path names, if it can be opened.\<close>

definition ReadFile :: "string \<Rightarrow> u8 list option \<Rightarrow> image res" where
  "ReadFile path file =
    (case file of None \<Rightarrow> Inl (ReadImageException (''Cannot open read file.'' @ path))
     | Some bs \<Rightarrow>
       (let img = new_image in
        if length bs < SIZE then Inl (ReadImageException ''File is incorrect, size is lower then need'')
        else
          (let (fhdr, s) = ReadFileHeader (fh img) (open_in bs);
               (ihdr, s) = ReadInfoHeader (ih img) s;
               img = img\<lparr>fh := fhdr, ih := ihdr\<rparr>
           in bnd (Check img) (\<lambda>_.
                let blank_row = replicate (img_w img) blank;
                    img = img\<lparr>pixels := vec_resize blank_row (img_h img) (pixels img),
                              buffer := vec_resize blank_row (img_h img) (buffer img)\<rparr>
                in ReadPixels img s))))"

subsection \<open>ImageWriter\<close>

definition GetByte :: "double \<Rightarrow> u8 res" where
  "GetByte x = to_u8 (dmul x (dint 255))"

text \<open>The two overloads of \<open>Write\<close> on integers append to the bytes of the file.\<close>

definition Write_u16 :: "u16 \<Rightarrow> u8 list \<Rightarrow> u8 list" where
  "Write_u16 obj out = out @ bytes16 obj"

definition Write_u32 :: "u32 \<Rightarrow> u8 list \<Rightarrow> u8 list" where
  "Write_u32 obj out = out @ bytes32 obj"

definition WriteFileHeader :: "file_header \<Rightarrow> u8 list \<Rightarrow> u8 list" where
  "WriteFileHeader h out =
    (let out = Write_u16 (signature h) out;
         out = Write_u32 (file_size h) out;
         out = Write_u16 (reserved1 h) out;
         out = Write_u16 (reserved2 h) out
     in Write_u32 (data_offset h) out)"

definition WriteInfoHeader :: "info_header \<Rightarrow> u8 list \<Rightarrow> u8 list" where
  "WriteInfoHeader h out =
    (let out = Write_u32 (header_size h) out;
         out = Write_u32 (width h) out;
         out = Write_u32 (height h) out;
         out = Write_u16 (planes h) out;
         out = Write_u16 (bits_per_pixel h) out;
         out = Write_u32 (compression h) out;
         out = Write_u32 (image_size h) out;
         out = Write_u32 (x_pixels_per_meter h) out;
         out = Write_u32 (y_pixels_per_meter h) out;
         out = Write_u32 (colors_used h) out
     in Write_u32 (colors_important h) out)"

definition write_pixel :: "image \<Rightarrow> u32 \<Rightarrow> nat \<Rightarrow> u8 list \<Rightarrow> u8 list res" where
  "write_pixel img real_row col buf =
    bnd (i32 (int col * 3)) (\<lambda>offset. bnd (i32 (offset + 1)) (\<lambda>offset1. bnd (i32 (offset + 2)) (\<lambda>offset2.
    bnd (grid_at (pixels img) (uint real_row) (int col)) (\<lambda>px.
    bnd (GetByte (px_b px)) (\<lambda>blue. bnd (vec_put buf offset blue) (\<lambda>buf.
    bnd (GetByte (px_g px)) (\<lambda>green. bnd (vec_put buf offset1 green) (\<lambda>buf.
    bnd (GetByte (px_r px)) (\<lambda>red. vec_put buf offset2 red)))))))))"

definition WritePixels :: "image \<Rightarrow> u8 list \<Rightarrow> u8 list res" where
  "WritePixels img out =
    bnd (for_each (\<lambda>row (buf, out).
           bnd (for_each (write_pixel img (height (ih img) - of_nat row - 1)) [0..<img_w img] buf)
             (\<lambda>buf. Inr (buf, out @ buf)))
         [0..<img_h img] (row_buffer (ih img), out))
      (\<lambda>(buf, out). Inr out)"

text \<open>\<open>WriteFile\<close>, given whether the path can be opened for writing: the file's new contents.\<close>

definition WriteFile :: "image \<Rightarrow> bool \<Rightarrow> u8 list res" where
  "WriteFile img can_open =
    (if \<not> can_open then Inl (WriteImageException ''Cannot open write file.'')
     else WritePixels img (WriteInfoHeader (ih img) (WriteFileHeader (fh img) [])))"

end
