(* ===== verification/Bmp_Format.thy ===== *)
theory Bmp_Format
  imports Bmp_IO
begin

text \<open>
  The file format as the reader and the writer agree on it: the bytes an image stands for, what
  \<open>ReadFile\<close> returns for every file, complete or truncated.
\<close>

subsection \<open>Headers\<close>

definition file_header_bytes :: "file_header \<Rightarrow> u8 list" where
  "file_header_bytes h =
    bytes16 (signature h) @ bytes32 (file_size h) @ bytes16 (reserved1 h) @ bytes16 (reserved2 h) @
    bytes32 (data_offset h)"

definition info_header_bytes :: "info_header \<Rightarrow> u8 list" where
  "info_header_bytes h =
    bytes32 (header_size h) @ bytes32 (width h) @ bytes32 (height h) @ bytes16 (planes h) @
    bytes16 (bits_per_pixel h) @ bytes32 (compression h) @ bytes32 (image_size h) @
    bytes32 (x_pixels_per_meter h) @ bytes32 (y_pixels_per_meter h) @ bytes32 (colors_used h) @
    bytes32 (colors_important h)"

definition header_bytes :: "file_header \<Rightarrow> info_header \<Rightarrow> u8 list" where
  "header_bytes f i = file_header_bytes f @ info_header_bytes i"

lemma length_header_bytes [simp]:
  "length (file_header_bytes f) = 14" "length (info_header_bytes i) = 40" "length (header_bytes f i) = 54"
  by (simp_all add: header_bytes_def file_header_bytes_def info_header_bytes_def c16.put_length c32.put_length)

lemma ReadFileHeader_written: "ReadFileHeader h0 (open_in (file_header_bytes h @ r)) = (h, open_in r)"
  by (simp add: ReadFileHeader_def file_header_bytes_def)

lemma ReadInfoHeader_written: "ReadInfoHeader h0 (open_in (info_header_bytes h @ r)) = (h, open_in r)"
  by (simp add: ReadInfoHeader_def info_header_bytes_def)

lemma WriteHeaders_eq:
  "WriteInfoHeader i (WriteFileHeader f out) = out @ header_bytes f i"
  by (simp add: WriteInfoHeader_def WriteFileHeader_def Write_u16_def Write_u32_def header_bytes_def
      file_header_bytes_def info_header_bytes_def)

lemma file_header_decode:
  assumes "14 \<le> length bs"
  shows "\<exists>h r. bs = file_header_bytes h @ r"
proof -
  obtain a r1 where 1: "bs = bytes16 a @ r1" using c16.decode_any [of bs] assms by auto
  then obtain b r2 where 2: "r1 = bytes32 b @ r2" using c32.decode_any [of r1] assms by (auto simp: c16.put_length)
  with 1 obtain c r3 where 3: "r2 = bytes16 c @ r3"
    using c16.decode_any [of r2] assms by (auto simp: c16.put_length c32.put_length)
  with 1 2 obtain d r4 where 4: "r3 = bytes16 d @ r4"
    using c16.decode_any [of r3] assms by (auto simp: c16.put_length c32.put_length)
  with 1 2 3 obtain e r5 where 5: "r4 = bytes32 e @ r5"
    using c32.decode_any [of r4] assms by (auto simp: c16.put_length c32.put_length)
  show ?thesis
    by (intro exI [of _ "\<lparr>signature = a, file_size = b, reserved1 = c, reserved2 = d, data_offset = e\<rparr>"]
        exI [of _ r5]) (simp add: 1 2 3 4 5 file_header_bytes_def)
qed

lemma bytes32_peel:
  "n + 4 \<le> length bs \<Longrightarrow> \<exists>x r. bs = bytes32 x @ r \<and> n \<le> length r"
  using c32.decode_any [of bs] by (auto simp: c32.put_length)

lemma bytes16_peel:
  "n + 2 \<le> length bs \<Longrightarrow> \<exists>x r. bs = bytes16 x @ r \<and> n \<le> length r"
  using c16.decode_any [of bs] by (auto simp: c16.put_length)

lemma info_header_decode:
  assumes "40 \<le> length bs"
  shows "\<exists>h r. bs = info_header_bytes h @ r"
proof -
  obtain a r1 where 1: "bs = bytes32 a @ r1" "36 \<le> length r1" using bytes32_peel [of 36 bs] assms by auto
  obtain b r2 where 2: "r1 = bytes32 b @ r2" "32 \<le> length r2" using bytes32_peel [of 32 r1] 1 by auto
  obtain c r3 where 3: "r2 = bytes32 c @ r3" "28 \<le> length r3" using bytes32_peel [of 28 r2] 2 by auto
  obtain d r4 where 4: "r3 = bytes16 d @ r4" "26 \<le> length r4" using bytes16_peel [of 26 r3] 3 by auto
  obtain e r5 where 5: "r4 = bytes16 e @ r5" "24 \<le> length r5" using bytes16_peel [of 24 r4] 4 by auto
  obtain f r6 where 6: "r5 = bytes32 f @ r6" "20 \<le> length r6" using bytes32_peel [of 20 r5] 5 by auto
  obtain g r7 where 7: "r6 = bytes32 g @ r7" "16 \<le> length r7" using bytes32_peel [of 16 r6] 6 by auto
  obtain h r8 where 8: "r7 = bytes32 h @ r8" "12 \<le> length r8" using bytes32_peel [of 12 r7] 7 by auto
  obtain i r9 where 9: "r8 = bytes32 i @ r9" "8 \<le> length r9" using bytes32_peel [of 8 r8] 8 by auto
  obtain j ra where a: "r9 = bytes32 j @ ra" "4 \<le> length ra" using bytes32_peel [of 4 r9] 9 by auto
  obtain k rb where b: "ra = bytes32 k @ rb" using bytes32_peel [of 0 ra] a by auto
  show ?thesis
    by (intro exI [of _ "\<lparr>header_size = a, width = b, height = c, planes = d, bits_per_pixel = e,
          compression = f, image_size = g, x_pixels_per_meter = h, y_pixels_per_meter = i, colors_used = j,
          colors_important = k\<rparr>"] exI [of _ rb])
      (simp add: 1 2 3 4 5 6 7 8 9 a b info_header_bytes_def)
qed

text \<open>Every file of at least 54 bytes starts with two headers.\<close>

lemma header_decode:
  assumes "54 \<le> length bs"
  shows "\<exists>f i r. bs = header_bytes f i @ r"
proof -
  obtain f r where 1: "bs = file_header_bytes f @ r" using file_header_decode [of bs] assms by auto
  then have "40 \<le> length r" using assms by simp
  then obtain i r' where "r = info_header_bytes i @ r'" using info_header_decode [of r] by auto
  with 1 show ?thesis by (auto simp: header_bytes_def)
qed

text \<open>The headers the reader accepts.\<close>

definition accepted :: "file_header \<Rightarrow> info_header \<Rightarrow> bool" where
  "accepted f i \<longleftrightarrow> signature f = 0x4D42 \<and> header_size i = 40 \<and> bits_per_pixel i = 24 \<and>
     compression i = 0 \<and> colors_used i = 0"

lemma Check_iff: "Check img = Inr () \<longleftrightarrow> accepted (fh img) (ih img)"
  by (simp add: Check_def accepted_def word_uint_eq_iff)

lemma Check_error: "Check img = Inl e \<Longrightarrow> \<exists>m. e = ReadImageException m"
  by (auto simp: Check_def split: if_splits)

definition headed_image :: "file_header \<Rightarrow> info_header \<Rightarrow> image" where
  "headed_image f i =
    (let g = replicate (unat (height i)) (replicate (unat (width i)) blank) in
     \<lparr>fh = f, ih = i, pixels = g, buffer = g\<rparr>)"

text \<open>\<open>ReadFile\<close> on every file, up to the pixels.\<close>

lemma ReadFile_headers:
  "ReadFile path (Some (header_bytes f i @ bs)) =
    bnd (Check (headed_image f i)) (\<lambda>_. ReadPixels (headed_image f i) (open_in bs))"
  by (simp add: ReadFile_def header_bytes_def ReadFileHeader_written ReadInfoHeader_written
      headed_image_def new_image_def vec_resize_def img_h_def img_w_def Let_def Check_def)


subsection \<open>Rows\<close>

text \<open>
  An image is readable when every index of a row is an \<open>int\<close>: three bytes per pixel and the padding
  stay below \<open>2 ^ 31\<close>.
\<close>

definition row_bytes_fit :: "info_header \<Rightarrow> bool" where
  "row_bytes_fit i \<longleftrightarrow> unat (width i) \<le> 715827882"

definition pad_len :: "nat \<Rightarrow> nat" where
  "pad_len w = (4 - 3 * w mod 4) mod 4"

lemma pad_len_le: "pad_len w \<le> 3"
  using mod_less_divisor [of 4 "4 - 3 * w mod 4"] by (simp add: pad_len_def)

lemma row_aligned: "4 dvd 3 * w + pad_len w"
proof -
  define q r where "q = 3 * w div 4" and "r = 3 * w mod 4"
  then have w: "3 * w = 4 * q + r" by simp
  have "r < 4" by (simp add: r_def)
  then consider "r = 0" | "r = 1" | "r = 2" | "r = 3" by linarith
  then obtain e where "r + (4 - r) mod 4 = 4 * e" by cases auto
  moreover have "3 * w + pad_len w = 4 * q + (r + (4 - r) mod 4)"
    unfolding pad_len_def r_def [symmetric] by (subst w) (rule add.assoc)
  ultimately have "3 * w + pad_len w = 4 * (q + e)" by (simp only: distrib_left)
  then show ?thesis by simp
qed

lemma unat_line_size:
  assumes "row_bytes_fit i"
  shows "unat (line_size i) = 3 * unat (width i)"
proof -
  have "unat (width i * 3) = unat (width i) * unat (3 :: u32) mod 2 ^ 32"
    using unat_mult_lem [of "width i" 3] by (simp add: unat_word_ariths)
  with assms show ?thesis by (simp add: line_size_def row_bytes_fit_def)
qed


lemma unat_padding:
  assumes "row_bytes_fit i"
  shows "unat (padding i) = pad_len (unat (width i))"
proof -
  let ?m = "line_size i mod 4"
  have m: "unat ?m = 3 * unat (width i) mod 4"
    by (simp add: unat_mod unat_line_size [OF assms])
  then have "?m \<le> 4" by (simp add: word_le_nat_alt)
  then have "unat (4 - ?m) = 4 - 3 * unat (width i) mod 4" by (simp add: unat_sub m)
  then have p: "unat ((4 - ?m) mod 4) = pad_len (unat (width i))" by (simp add: unat_mod pad_len_def)
  then have "unat ((4 - ?m) mod 4) < 256" using pad_len_le [of "unat (width i)"] by simp
  then show ?thesis
    using p by (simp add: padding_def unsigned_ucast_eq take_bit_eq_mod)
qed

lemma row_buffer_eq:
  assumes "row_bytes_fit i"
  shows "row_buffer i = replicate (3 * unat (width i) + pad_len (unat (width i))) 0"
proof -
  have "unat (ucast (padding i) :: u32) = unat (padding i)"
    using pad_len_le [of "unat (width i)"] by (simp add: unsigned_ucast_eq take_bit_eq_mod unat_padding [OF assms])
  moreover have "3 * unat (width i) + pad_len (unat (width i)) < 2 ^ 32"
    using assms pad_len_le [of "unat (width i)"] by (simp add: row_bytes_fit_def)
  ultimately show ?thesis
    by (simp add: row_buffer_def unat_word_ariths unat_line_size unat_padding assms)
qed

text \<open>\<open>height - row - 1\<close> does not wrap inside the loop.\<close>

lemma real_row_eq:
  assumes "row < unat (h :: u32)"
  shows "uint (h - of_nat row - 1) = int (unat h - row - 1)"
proof -
  have lt: "unat h < 2 ^ 32" using unsigned_less [of h] by simp
  with assms have r: "unat (of_nat row :: u32) = row" by (simp add: unat_of_nat)
  then have "unat (h - of_nat row) = unat h - row" using assms by (simp add: unat_sub word_le_nat_alt)
  moreover from this have "(1 :: u32) \<le> h - of_nat row" using assms by (simp add: word_le_nat_alt)
  ultimately have "unat (h - of_nat row - 1) = unat h - row - 1" by (simp add: unat_sub)
  then show ?thesis by (metis uint_nat)
qed


subsection \<open>What the reader returns\<close>

text \<open>
  The row buffer and the stream after \<open>k\<close> rows: every row is read over the bytes of the row before, so
  a stream that has run dry leaves them as they are.
\<close>

definition row_read :: "nat \<Rightarrow> istream \<Rightarrow> nat \<Rightarrow> u8 list \<times> istream" where
  "row_read n s k = ((\<lambda>(b, s). stream_read b s) ^^ k) (replicate n 0, s)"

lemma row_read_simps [simp]:
  "row_read n s 0 = (replicate n 0, s)"
  "row_read n s (Suc k) = (case row_read n s k of (b, s) \<Rightarrow> stream_read b s)"
  by (simp_all add: row_read_def)

lemma length_row_read [simp]: "length (fst (row_read n s k)) = n"
  by (induction k) (simp_all add: case_prod_beta)

definition buf_pixel :: "u8 list \<Rightarrow> nat \<Rightarrow> pixel" where
  "buf_pixel b c = pixel_of_bytes (b ! (3 * c + 2)) (b ! (3 * c + 1)) (b ! (3 * c))"

lemma read_pixel_eq:
  assumes "dims h w px" and "r < h" and "c < w" and "w \<le> 715827882" and "3 * w \<le> length buf"
    and "uint rr = int r"
  shows "read_pixel buf rr c px = Inr (set_cell px r c (buf_pixel buf c))"
proof -
  have c: "3 * c + 2 < length buf" "c < 715827882" using assms by linarith+
  have "vec_at buf (int c * 3) = Inr (buf ! (3 * c))" "vec_at buf (int c * 3 + 1) = Inr (buf ! (3 * c + 1))"
    "vec_at buf (int c * 3 + 2) = Inr (buf ! (3 * c + 2))"
    using c by (simp_all add: vec_at_def nat_add_distrib nat_mult_distrib mult.commute)
  with c assms show ?thesis
    by (simp add: read_pixel_def buf_pixel_def grid_put_ok [of h w])
qed

lemma read_row_eq:
  assumes "dims h w px" and "r < h" and "w \<le> 715827882" and "3 * w \<le> length buf" and "uint rr = int r"
  shows "for_each (read_pixel buf rr) [0..<w] px =
    Inr (tabulate h w (\<lambda>r' c. if r' = r then buf_pixel buf c else px ! r' ! c))"
proof -
  have "for_each (read_pixel buf rr) [0..<w] px =
    Inr (tabulate h w (\<lambda>r' c. if r' = r \<and> c < w then buf_pixel buf c else px ! r' ! c))"
    using assms by (intro for_each_row [where f = "\<lambda>c _. buf_pixel buf c"]) (simp_all add: read_pixel_eq [of h w])
  also have "\<dots> = Inr (tabulate h w (\<lambda>r' c. if r' = r then buf_pixel buf c else px ! r' ! c))"
    by (auto intro!: tabulate_cong)
  finally show ?thesis .
qed

definition row_len :: "info_header \<Rightarrow> nat" where
  "row_len i = 3 * unat (width i) + pad_len (unat (width i))"

definition read_grid :: "info_header \<Rightarrow> istream \<Rightarrow> pixel list list" where
  "read_grid i s = tabulate (unat (height i)) (unat (width i))
     (\<lambda>r c. buf_pixel (fst (row_read (row_len i) s (unat (height i) - r))) c)"

lemma ReadPixels_eq:
  assumes fit: "row_bytes_fit (ih img)" and px: "dims (img_h img) (img_w img) (pixels img)"
  shows "ReadPixels img s = Inr (img\<lparr>pixels := read_grid (ih img) s\<rparr>)"
proof -
  let ?h = "img_h img" and ?w = "img_w img" and ?n = "row_len (ih img)"
  let ?body = "\<lambda>row (buf, s, px). case stream_read buf s of (buf, s) \<Rightarrow>
     bnd (for_each (read_pixel buf (height (ih img) - of_nat row - 1)) [0..<?w] px) (\<lambda>px. Inr (buf, s, px))"
  let ?grid = "\<lambda>k. tabulate ?h ?w (\<lambda>r c.
     if ?h - k \<le> r then buf_pixel (fst (row_read ?n s (?h - r))) c else pixels img ! r ! c)"
  have loop: "k \<le> ?h \<Longrightarrow> for_each ?body [0..<k] (row_buffer (ih img), s, pixels img) =
      Inr (fst (row_read ?n s k), snd (row_read ?n s k), ?grid k)" for k
  proof (induction k)
    case 0
    have "?grid 0 = tabulate ?h ?w (\<lambda>r c. pixels img ! r ! c)" by (intro tabulate_cong) auto
    with fit px show ?case by (simp add: row_buffer_eq row_len_def img_w_def dims_tabulate_self)
  next
    case (Suc k)
    obtain b t where bt: "row_read ?n s k = (b, t)" by fastforce
    obtain b' t' where bt': "stream_read b t = (b', t')" by fastforce
    have len: "3 * ?w \<le> length b'"
      using length_row_read [of ?n s "Suc k"] bt bt' by (simp add: row_len_def img_w_def)
    have "for_each (read_pixel b' (height (ih img) - of_nat k - 1)) [0..<?w] (?grid k) =
        Inr (tabulate ?h ?w (\<lambda>r c. if r = ?h - k - 1 then buf_pixel b' c else ?grid k ! r ! c))"
      using Suc.prems fit len real_row_eq [of k "height (ih img)"]
      by (intro read_row_eq) (simp_all add: img_h_def img_w_def row_bytes_fit_def)
    also have "\<dots> = Inr (?grid (Suc k))"
      using Suc.prems bt bt' by (auto intro!: tabulate_cong)
    finally show ?case using Suc bt bt' by (simp add: for_each_append)
  qed
  have "?grid ?h = read_grid (ih img) s" by (simp add: read_grid_def img_h_def img_w_def)
  with loop [of ?h] show ?thesis by (simp add: ReadPixels_def)
qed


lemma read_grid_dims [simp]: "dims (unat (height i)) (unat (width i)) (read_grid i s)"
  by (simp add: read_grid_def)

text \<open>The outcome of \<open>ReadFile\<close> on every file whose rows fit.\<close>

lemma headed_image_simps [simp]:
  "fh (headed_image f i) = f" "ih (headed_image f i) = i"
  "dims (img_h (headed_image f i)) (img_w (headed_image f i)) (pixels (headed_image f i))"
  "dims (unat (height i)) (unat (width i)) (buffer (headed_image f i))"
  by (simp_all add: headed_image_def Let_def img_h_def img_w_def)

lemma ReadFile_accepted:
  assumes "accepted f i" and "row_bytes_fit i"
  shows "ReadFile path (Some (header_bytes f i @ bs)) =
    Inr (headed_image f i\<lparr>pixels := read_grid i (open_in bs)\<rparr>)"
proof -
  have "Check (headed_image f i) = Inr ()" using assms(1) by (simp add: Check_iff)
  with assms(2) show ?thesis by (simp add: ReadFile_headers ReadPixels_eq)
qed

text \<open>The image \<open>ReadFile\<close> makes of an accepted file.\<close>

definition loaded :: "file_header \<Rightarrow> info_header \<Rightarrow> u8 list \<Rightarrow> image" where
  "loaded f i bs = headed_image f i\<lparr>pixels := read_grid i (open_in bs)\<rparr>"

lemma ReadFile_loaded:
  "accepted f i \<Longrightarrow> row_bytes_fit i \<Longrightarrow> ReadFile path (Some (header_bytes f i @ bs)) = Inr (loaded f i bs)"
  by (simp add: ReadFile_accepted loaded_def)

text \<open>Intensities of bytes lie between zero and one, so an image that was read is a unit image.\<close>

lemma byte_intensity_unit [simp]: "in_unit (byte_intensity b)"
proof -
  have b: "0 \<le> uint b" "uint b < 256" using uint_lt2p [of b] by simp_all
  have x: "between (uint b) (uint b) (dint (uint b))" and y: "between 255 255 (dint 255)"
    using b by (auto intro: between_dint)
  then have v: "fval (dint (uint b)) = of_int (uint b)" "fval (dint 255) = 255"
    by (simp_all add: between_fin)
  obtain m e n f where "dint (uint b) = Fin m e" "dint 255 = Fin n f"
    using x y by (metis betweenE)
  moreover have "(of_int (uint b) :: rat) \<le> of_int 255" using b by (simp only: of_int_le_iff)
  ultimately have "between 0 1 (ddiv (dint (uint b)) (dint 255))"
    using b v by (intro between_ddiv_unit) (simp_all del: of_int_uint)
  then show ?thesis by (simp add: in_unit_between byte_intensity_def)
qed

lemma unit_pixel_of_bytes [simp]: "unit_pixel (pixel_of_bytes r g b)"
  by (simp add: unit_pixel_def pixel_of_bytes_def)

lemma unit_read_grid [simp]: "unit_img (img\<lparr>pixels := read_grid i s\<rparr>)"
  unfolding read_grid_def by (rule unit_img_tabulate) (simp add: buf_pixel_def)

lemma loaded_simps [simp]:
  "fh (loaded f i bs) = f" "ih (loaded f i bs) = i" "pixels (loaded f i bs) = read_grid i (open_in bs)"
  "img_h (loaded f i bs) = unat (height i)" "img_w (loaded f i bs) = unat (width i)" "unit_img (loaded f i bs)"
  by (simp_all add: loaded_def img_h_def img_w_def)

lemma wf_img_loaded: "row_bytes_fit i \<Longrightarrow> unat (height i) < 1073741824 \<Longrightarrow> wf_img (loaded f i bs)"
  by (simp add: loaded_def wf_img_def img_h_def img_w_def row_bytes_fit_def)

text \<open>Every error of the reader is one of its exceptions, or an index out of range.\<close>

lemma ReadPixels_error: "ReadPixels img s = Inl e \<Longrightarrow> e = Undefined"
  by (auto simp: ReadPixels_def read_pixel_def bnd_Inl_iff split: prod.splits
      dest!: for_each_error index_error i32_error)

lemma ReadFile_error:
  assumes "ReadFile path file = Inl e"
  shows "e = Undefined \<or> (\<exists>m. e = ReadImageException m)"
proof (cases "\<exists>bs. file = Some bs \<and> 54 \<le> length bs")
  case False
  with assms show ?thesis by (auto simp: ReadFile_def split: option.splits if_splits)
next
  case True
  then obtain f i r where "file = Some (header_bytes f i @ r)" using header_decode by blast
  with assms show ?thesis
    by (auto simp: ReadFile_headers bnd_Inl_iff dest: Check_error ReadPixels_error)
qed


text \<open>
  A wider image runs out of \<open>int\<close> indices: with at least one row, reading it is undefined.
\<close>

lemma ReadPixels_oversized:
  assumes "715827882 < unat (width (ih img))" and "0 < height (ih img)"
  shows "ReadPixels img s = Inl Undefined"
proof (cases "ReadPixels img s")
  case (Inl e)
  then show ?thesis using ReadPixels_error by simp
next
  case (Inr img')
  have "0 \<in> set [0..<img_h img]" using assms(2) by (simp add: img_h_def word_less_nat_alt)
  with Inr obtain buf u v where
    row: "for_each (read_pixel buf (height (ih img) - of_nat 0 - 1)) [0..<img_w img] u = Inr v"
    by (auto simp: ReadPixels_def bnd_Inr_iff split: prod.splits dest!: for_each_reached)
  have "715827882 \<in> set [0..<img_w img]" using assms(1) by (simp add: img_w_def)
  from for_each_reached [OF row this]
  obtain u v where "read_pixel buf (height (ih img) - of_nat 0 - 1) 715827882 u = Inr v" by blast
  then show ?thesis by (simp add: read_pixel_def i32_def)
qed

lemma ReadFile_oversized:
  assumes "accepted f i" and "715827882 < unat (width i)" and "0 < height i"
  shows "ReadFile path (Some (header_bytes f i @ bs)) = Inl Undefined"
proof -
  have "Check (headed_image f i) = Inr ()" using assms(1) by (simp add: Check_iff)
  then show ?thesis using assms(2,3) by (simp add: ReadFile_headers ReadPixels_oversized)
qed

text \<open>Without rows nothing is read, whatever the width; and an unacceptable header is an exception.\<close>

lemma ReadFile_rowless:
  assumes "accepted f i" and "height i = 0"
  shows "ReadFile path (Some (header_bytes f i @ bs)) = Inr (headed_image f i)"
proof -
  have "Check (headed_image f i) = Inr ()" using assms(1) by (simp add: Check_iff)
  then show ?thesis using assms(2) by (simp add: ReadFile_headers ReadPixels_def img_h_def)
qed

lemma ReadFile_rejected:
  assumes "\<not> accepted f i"
  shows "\<exists>m. ReadFile path (Some (header_bytes f i @ bs)) = Inl (ReadImageException m)"
proof -
  obtain e where e: "Check (headed_image f i) = Inl e"
    using assms Check_iff [of "headed_image f i"] by (cases "Check (headed_image f i)") simp_all
  with Check_error [OF e] show ?thesis by (auto simp: ReadFile_headers)
qed

end
