(* ===== verification/Bmp_Roundtrip.thy ===== *)
theory Bmp_Roundtrip
  imports Bmp_Format
begin

text \<open>
  What \<open>ImageWriter\<close> writes for an image of unit intensities, reading back what was written, and
  what becomes of a file that ends early.
\<close>

subsection \<open>Bytes of pixels\<close>

lemma GetByte_unit:
  assumes "in_unit x"
  shows "\<exists>b. GetByte x = Inr b"
proof -
  have "between 255 255 (dint 255)" by (rule between_dint) simp
  then have "between (- 255) 255 (dint 255)" "between 0 255 (dint 255)" by (auto elim: between_mono)
  with assms have "between 0 (1 * 255) (dmul x (dint 255))"
    unfolding in_unit_between by (intro between_dmul(2)) simp_all
  then show ?thesis unfolding GetByte_def by (intro to_u8_between) simp
qed

text \<open>Every byte survives the division by 255 and the truncated multiplication: all cases evaluated.\<close>

definition byte_kept :: "int \<Rightarrow> bool" where
  "byte_kept i \<longleftrightarrow> to_u8 (dmul (ddiv (dint i) (dint 255)) (dint 255)) = Inr (word_of_int i)"

lemma bytes_kept_1: "list_all byte_kept [0..63]"
  by code_simp
lemma bytes_kept_2: "list_all byte_kept [64..127]"
  by code_simp
lemma bytes_kept_3: "list_all byte_kept [128..191]"
  by code_simp
lemma bytes_kept_4: "list_all byte_kept [192..255]"
  by code_simp

lemma GetByte_byte: "GetByte (byte_intensity b) = Inr b"
proof -
  have "0 \<le> uint b" "uint b < 256" using uint_lt2p [of b] by simp_all
  then have "uint b \<in> {0..63} \<or> uint b \<in> {64..127} \<or> uint b \<in> {128..191} \<or> uint b \<in> {192..255}"
    unfolding atLeastAtMost_iff by linarith
  then have "byte_kept (uint b)"
    using bytes_kept_1 bytes_kept_2 bytes_kept_3 bytes_kept_4 unfolding list_all_iff set_upto by blast
  then show ?thesis by (simp add: byte_kept_def GetByte_def byte_intensity_def)
qed

definition byte_of :: "double \<Rightarrow> u8" where
  "byte_of x = (case GetByte x of Inl e \<Rightarrow> 0 | Inr b \<Rightarrow> b)"

lemma GetByte_byte_of: "in_unit x \<Longrightarrow> GetByte x = Inr (byte_of x)"
  using GetByte_unit [of x] by (auto simp: byte_of_def)

definition pixel_bytes :: "pixel \<Rightarrow> u8 list" where
  "pixel_bytes p = [byte_of (px_b p), byte_of (px_g p), byte_of (px_r p)]"

text \<open>The pixel a reader gets back.\<close>

definition quantise :: "pixel \<Rightarrow> pixel" where
  "quantise p = pixel_of_bytes (byte_of (px_r p)) (byte_of (px_g p)) (byte_of (px_b p))"

lemma byte_of_byte [simp]: "byte_of (byte_intensity b) = b"
  by (simp add: byte_of_def GetByte_byte)

lemma quantise_bytes [simp]: "quantise (pixel_of_bytes r g b) = pixel_of_bytes r g b"
  by (simp add: quantise_def pixel_of_bytes_def)

lemma pixel_bytes_buf: "pixel_bytes (buf_pixel b c) = [b ! (3 * c), b ! (3 * c + 1), b ! (3 * c + 2)]"
  by (simp add: pixel_bytes_def buf_pixel_def pixel_of_bytes_def)

definition padded_row :: "pixel list \<Rightarrow> u8 list" where
  "padded_row row = concat (map pixel_bytes row) @ replicate (pad_len (length row)) 0"

lemma length_pixels_bytes [simp]: "length (concat (map pixel_bytes row)) = 3 * length row"
  by (induction row) (simp_all add: pixel_bytes_def)

lemma length_padded_row [simp]: "length (padded_row row) = 3 * length row + pad_len (length row)"
  by (simp add: padded_row_def)

lemma pixels_bytes_nth:
  "c < length row \<Longrightarrow> d < 3 \<Longrightarrow> concat (map pixel_bytes row) ! (3 * c + d) = pixel_bytes (row ! c) ! d"
proof (induction row arbitrary: c)
  case (Cons p row)
  have len: "length (pixel_bytes p) = 3" by (simp add: pixel_bytes_def)
  show ?case
  proof (cases c)
    case 0
    with Cons.prems show ?thesis by (simp add: nth_append len)
  next
    case (Suc c')
    with Cons show ?thesis by (simp add: nth_append len)
  qed
qed simp

lemma buf_pixel_padded: "c < length row \<Longrightarrow> buf_pixel (padded_row row) c = quantise (row ! c)"
  using pixels_bytes_nth [of c row 0] pixels_bytes_nth [of c row 1] pixels_bytes_nth [of c row 2]
  by (simp add: buf_pixel_def padded_row_def nth_append quantise_def pixel_bytes_def)

subsection \<open>What the writer writes\<close>

definition bmp_bytes :: "image \<Rightarrow> u8 list" where
  "bmp_bytes img = header_bytes (fh img) (ih img) @ concat (map padded_row (rev (pixels img)))"

lemma write_pixel_eq:
  assumes "dims h w (pixels img)" and "unit_img img" and "r < h" and "c < w" and "w \<le> 715827882"
    and "3 * w \<le> length buf" and "uint rr = int r"
  shows "write_pixel img rr c buf =
    Inr (buf[3 * c := byte_of (px_b (pixels img ! r ! c)), 3 * c + 1 := byte_of (px_g (pixels img ! r ! c)),
             3 * c + 2 := byte_of (px_r (pixels img ! r ! c))])"
proof -
  have c: "3 * c + 2 < length buf" "c < 715827882" using assms by linarith+
  have put: "vec_put b (int c * 3 + int d) x = Inr (b[3 * c + d := x])"
    if "length b = length buf" "d < 3" for b :: "u8 list" and d x
    using c that vec_put_ok [of "3 * c + d" b x] by (simp add: mult.commute)
  have "unit_pixel (pixels img ! r ! c)" using assms(1-4) by (intro unit_img_nth)
  then show ?thesis
    using assms c put [of _ 0] put [of _ 1] put [of _ 2]
    by (simp add: write_pixel_def grid_at_ok [of h w] unit_pixel_def GetByte_byte_of)
qed

lemma write_row_eq:
  assumes "dims h w (pixels img)" and "unit_img img" and "r < h" and "w \<le> 715827882"
    and "3 * w \<le> length buf" and "uint rr = int r" and "n \<le> w"
  shows "for_each (write_pixel img rr) [0..<n] buf =
    Inr (concat (map pixel_bytes (take n (pixels img ! r))) @ drop (3 * n) buf)"
  using assms(7)
proof (induction n)
  case (Suc n)
  let ?row = "pixels img ! r" and ?done = "concat (map pixel_bytes (take n (pixels img ! r)))"
  have len: "length ?row = w" using assms(1,3) by (simp add: dims_row)
  then have done_len: "length ?done = 3 * n" using Suc.prems by simp
  have rest: "drop (3 * n) buf = buf ! (3 * n) # buf ! Suc (3 * n) # buf ! Suc (Suc (3 * n)) # drop (3 * Suc n) buf"
  proof -
    have "3 * Suc n = Suc (Suc (Suc (3 * n)))" "Suc (Suc (3 * n)) < length buf"
      using Suc.prems assms(5) by simp_all
    then show ?thesis by (simp only: Cons_nth_drop_Suc Suc_lessD)
  qed
  have "for_each (write_pixel img rr) [0..<Suc n] buf = write_pixel img rr n (?done @ drop (3 * n) buf)"
    using Suc by (simp add: for_each_append bnd_def split: sum.split)
  also have "\<dots> = Inr (?done @ pixel_bytes (?row ! n) @ drop (3 * Suc n) buf)"
    using assms Suc.prems done_len
    by (subst write_pixel_eq [of h w _ r], simp_all, subst rest)
      (simp add: list_update_append pixel_bytes_def)
  also have "\<dots> = Inr (concat (map pixel_bytes (take (Suc n) ?row)) @ drop (3 * Suc n) buf)"
    using Suc.prems len by (simp add: take_Suc_conv_app_nth)
  finally show ?case .
qed simp

text \<open>\<open>WritePixels\<close> appends the padded rows, the last one first.\<close>

lemma WritePixels_eq:
  assumes img: "wf_img img" "unit_img img" and fit: "row_bytes_fit (ih img)"
  shows "WritePixels img out = Inr (out @ concat (map padded_row (rev (pixels img))))"
proof -
  let ?h = "img_h img" and ?w = "img_w img"
  let ?body = "\<lambda>row (buf, out). bnd (for_each (write_pixel img (height (ih img) - of_nat row - 1)) [0..<?w] buf)
             (\<lambda>buf. Inr (buf, out @ buf))"
  have px: "dims ?h ?w (pixels img)" using img by (simp add: wf_img_def)
  then have h: "length (pixels img) = ?h" by (rule dims_height)
  have loop: "k \<le> ?h \<Longrightarrow> \<exists>buf. drop (3 * ?w) buf = replicate (pad_len ?w) 0 \<and>
      length buf = 3 * ?w + pad_len ?w \<and>
      for_each ?body [0..<k] (row_buffer (ih img), out) =
        Inr (buf, out @ concat (map padded_row (rev (drop (?h - k) (pixels img)))))" for k
  proof (induction k)
    case 0
    show ?case using fit h by (simp add: row_buffer_eq img_w_def)
  next
    case (Suc k)
    then obtain buf where buf: "drop (3 * ?w) buf = replicate (pad_len ?w) 0"
        "length buf = 3 * ?w + pad_len ?w" and
      IH: "for_each ?body [0..<k] (row_buffer (ih img), out) =
        Inr (buf, out @ concat (map padded_row (rev (drop (?h - k) (pixels img)))))" by auto
    let ?r = "?h - Suc k"
    have r: "?r < ?h" "?h - k = Suc ?r" using Suc.prems by simp_all
    then have row: "length (pixels img ! ?r) = ?w" using px by (simp add: dims_row)
    have "for_each (write_pixel img (height (ih img) - of_nat k - 1)) [0..<?w] buf =
        Inr (concat (map pixel_bytes (take ?w (pixels img ! ?r))) @ drop (3 * ?w) buf)"
      using px img fit r(1) buf(2) Suc.prems real_row_eq [of k "height (ih img)"]
      by (intro write_row_eq [of ?h ?w]) (simp_all add: row_bytes_fit_def img_w_def img_h_def)
    then have step: "for_each (write_pixel img (height (ih img) - of_nat k - 1)) [0..<?w] buf =
        Inr (padded_row (pixels img ! ?r))"
      by (simp add: padded_row_def row buf)
    have "drop ?r (pixels img) = pixels img ! ?r # drop (?h - k) (pixels img)"
      using r h by (simp add: Cons_nth_drop_Suc)
    then show ?case
      using IH step row by (intro exI [of _ "padded_row (pixels img ! ?r)"])
        (simp add: for_each_append, simp add: padded_row_def)
  qed
  from loop [of ?h] show ?thesis by (auto simp: WritePixels_def)
qed

lemma WriteFile_eq:
  assumes "wf_img img" and "unit_img img" and "row_bytes_fit (ih img)"
  shows "WriteFile img True = Inr (bmp_bytes img)"
  using assms by (simp add: WriteFile_def WriteHeaders_eq WritePixels_eq bmp_bytes_def)


subsection \<open>Round trips\<close>

lemma concat_chunk:
  assumes "\<forall>xs \<in> set xss. length xs = n" and "j < length xss"
  shows "take n (drop (j * n) (concat xss)) = xss ! j"
  using assms
proof (induction xss arbitrary: j)
  case (Cons xs xss)
  then show ?case by (cases j) (simp_all add: add.commute)
qed simp

lemma concat_chunks:
  "length bs = k * n \<Longrightarrow> concat (map (\<lambda>j. take n (drop (j * n) bs)) [0..<k]) = bs"
proof (induction k arbitrary: bs)
  case (Suc k)
  have split: "[0..<Suc k] = 0 # map Suc [0..<k]" by (simp add: map_Suc_upt upt_conv_Cons del: upt_Suc)
  have "concat (map (\<lambda>j. take n (drop (j * n) (drop n bs))) [0..<k]) = drop n bs"
    using Suc.prems by (intro Suc.IH) simp
  then show ?case unfolding split by (simp add: comp_def add.commute)
qed simp

text \<open>The row buffer while the stream holds complete rows, and after it has run dry.\<close>

lemma row_read_complete:
  "j * n \<le> length bs \<Longrightarrow> row_read n (open_in bs) j =
    (if j = 0 then replicate n 0 else take n (drop ((j - 1) * n) bs), open_in (drop (j * n) bs))"
proof (induction j)
  case (Suc j)
  then have IH: "row_read n (open_in bs) j =
      (fst (row_read n (open_in bs) j), open_in (drop (j * n) bs))" by simp
  have "length (fst (row_read n (open_in bs) j)) = n" by simp
  moreover have "drop (j * n) bs = take n (drop (j * n) bs) @ drop (Suc j * n) bs"
    by (simp add: append_take_drop_id flip: drop_drop add: add.commute)
  moreover have "length (take n (drop (j * n) bs)) = n" using Suc.prems by simp
  ultimately have "stream_read (fst (row_read n (open_in bs) j)) (open_in (drop (j * n) bs)) =
      (take n (drop (j * n) bs), open_in (drop (Suc j * n) bs))"
    using stream_read_exact by metis
  then show ?case by (subst row_read_simps(2), subst IH) simp
qed simp

lemma row_read_dry:
  assumes "rest (snd (row_read n s k)) = []"
  shows "rest (snd (row_read n s (k + d))) = [] \<and> fst (row_read n s (k + d)) = fst (row_read n s k)"
proof (induction d)
  case (Suc d)
  then show ?case
    using length_row_read [of n s k] length_row_read [of n s "k + d"]
    by (cases "row_read n s (k + d)") (auto simp: stream_read_def simp del: length_row_read)
qed (simp add: assms)

text \<open>A complete pixel section.\<close>

definition complete_row :: "nat \<Rightarrow> u8 list \<Rightarrow> nat \<Rightarrow> nat \<Rightarrow> u8 list" where
  "complete_row n bs h r = take n (drop ((h - 1 - r) * n) bs)"

lemma read_grid_complete:
  assumes "unat (height i) * row_len i \<le> length bs"
  shows "read_grid i (open_in bs) = tabulate (unat (height i)) (unat (width i))
    (\<lambda>r c. buf_pixel (complete_row (row_len i) bs (unat (height i)) r) c)"
  unfolding read_grid_def
proof (rule tabulate_cong)
  fix r c assume "r < unat (height i)"
  moreover have "(unat (height i) - r) * row_len i \<le> unat (height i) * row_len i"
    by (intro mult_le_mono1) simp
  from le_trans [OF this assms] have "(unat (height i) - r) * row_len i \<le> length bs" .
  ultimately show "buf_pixel (fst (row_read (row_len i) (open_in bs) (unat (height i) - r))) c =
      buf_pixel (complete_row (row_len i) bs (unat (height i)) r) c"
    by (simp add: row_read_complete complete_row_def diff_commute)
qed


lemma length_concat_same: "\<forall>xs \<in> set xss. length xs = n \<Longrightarrow> length (concat xss) = length xss * n"
  by (induction xss) simp_all

lemma padded_rows:
  assumes "wf_img img"
  shows "\<forall>xs \<in> set (map padded_row (rev (pixels img))). length xs = row_len (ih img)"
  using assms by (auto simp: wf_img_def dims_def row_len_def img_w_def)

lemma complete_row_written:
  assumes "wf_img img" and "r < img_h img"
  shows "complete_row (row_len (ih img)) (concat (map padded_row (rev (pixels img)))) (img_h img) r =
    padded_row (pixels img ! r)"
proof -
  have h: "length (pixels img) = img_h img" using assms(1) by (auto simp: wf_img_def dims_def)
  then have "complete_row (row_len (ih img)) (concat (map padded_row (rev (pixels img)))) (img_h img) r =
      map padded_row (rev (pixels img)) ! (img_h img - 1 - r)"
    unfolding complete_row_def using assms padded_rows by (intro concat_chunk) auto
  with h assms(2) show ?thesis by (simp add: rev_nth)
qed

text \<open>Reading what was written: the headers, and every intensity rounded to a byte.\<close>

lemma write_read:
  assumes img: "wf_img img" and fit: "row_bytes_fit (ih img)" "accepted (fh img) (ih img)"
  shows "ReadFile path (Some (bmp_bytes img)) =
    Inr (headed_image (fh img) (ih img)\<lparr>pixels := map (map quantise) (pixels img)\<rparr>)"
proof -
  let ?bs = "concat (map padded_row (rev (pixels img)))" and ?h = "img_h img" and ?w = "img_w img"
  have px: "dims ?h ?w (pixels img)" using img by (simp add: wf_img_def)
  have len: "length ?bs = unat (height (ih img)) * row_len (ih img)"
    using length_concat_same [OF padded_rows [OF img]] dims_height [OF px] by (simp add: img_h_def)
  have "read_grid (ih img) (open_in ?bs) = tabulate ?h ?w (\<lambda>r c. quantise (pixels img ! r ! c))"
    unfolding read_grid_complete [OF eq_imp_le [OF len [symmetric]]] img_h_def [symmetric] img_w_def [symmetric]
    using complete_row_written [OF img] px
    by (intro tabulate_cong) (simp add: buf_pixel_padded dims_row)
  also have "\<dots> = map (map quantise) (tabulate ?h ?w (\<lambda>r c. pixels img ! r ! c))"
    by (simp add: map_map_tabulate)
  also have "\<dots> = map (map quantise) (pixels img)" by (simp add: dims_tabulate_self [OF px])
  finally show ?thesis
    using ReadFile_accepted [OF fit(2,1), of path ?bs] by (simp add: bmp_bytes_def)
qed

text \<open>A pixel section with complete rows, zeros for their padding and nothing after them.\<close>

definition zero_padded :: "info_header \<Rightarrow> u8 list \<Rightarrow> bool" where
  "zero_padded i bs \<longleftrightarrow> length bs = unat (height i) * row_len i \<and>
     (\<forall>r < unat (height i). drop (3 * unat (width i)) (take (row_len i) (drop (r * row_len i) bs)) =
        replicate (pad_len (unat (width i))) 0)"

lemma buf_pixels_bytes:
  "3 * w \<le> length b \<Longrightarrow> concat (map (\<lambda>c. pixel_bytes (buf_pixel b c)) [0..<w]) = take (3 * w) b"
proof (induction w)
  case (Suc w)
  then have "3 * w + 2 < length b" by simp
  then have "take (3 * Suc w) b = take (3 * w) b @ [b ! (3 * w), b ! (3 * w + 1), b ! (3 * w + 2)]"
    by (simp add: take_Suc_conv_app_nth numeral_3_eq_3)
  with Suc show ?case by (simp add: pixel_bytes_buf)
qed simp

text \<open>
  A file that ends early, inside or after its \<open>k\<close>-th row: the read that fails puts what is left of the
  file over the beginning of the row before, and every later row is read as this mixture.
\<close>

definition torn_row :: "nat \<Rightarrow> u8 list \<Rightarrow> u8 list" where
  "torn_row n bs =
    (let k = length bs div n in
     drop (k * n) bs @ drop (length bs mod n) (if k = 0 then replicate n 0 else take n (drop ((k - 1) * n) bs)))"

lemma row_read_torn:
  assumes n: "0 < n" and j: "length bs div n < j"
  shows "fst (row_read n (open_in bs) j) = torn_row n bs"
proof -
  let ?k = "length bs div n" and ?m = "length bs mod n"
  let ?prev = "if ?k = 0 then replicate n 0 else take n (drop ((?k - 1) * n) bs)"
  have len: "length (drop (?k * n) bs) = ?m" by (simp add: minus_div_mult_eq_mod)
  have "?k * n \<le> length bs" by simp
  from row_read_complete [OF this] have at: "row_read n (open_in bs) ?k = (?prev, open_in (drop (?k * n) bs))" .
  have "length ?prev = n" using length_row_read [of n "open_in bs" ?k] unfolding at by simp
  then have "stream_read ?prev (open_in (drop (?k * n) bs)) =
      (drop (?k * n) bs @ drop ?m ?prev, \<lparr>rest = [], failed = True\<rparr>)"
    using n len mod_less_divisor [OF n, of "length bs"] unfolding stream_read_def open_in_def
    by (simp only: istream.simps) simp
  then have nxt: "row_read n (open_in bs) (Suc ?k) = (torn_row n bs, \<lparr>rest = [], failed = True\<rparr>)"
    unfolding row_read_simps(2) at by (simp add: torn_row_def Let_def)
  obtain d where d: "j = Suc ?k + d" using j by (metis less_iff_Suc_add add_Suc)
  from row_read_dry [of n "open_in bs" "Suc ?k" d] show ?thesis unfolding d nxt by simp
qed

lemma grid_row:
  assumes j: "j < unat (height i)"
  shows "read_grid i (open_in bs) ! (unat (height i) - 1 - j) =
    map (buf_pixel (if j < length bs div row_len i then take (row_len i) (drop (j * row_len i) bs)
      else torn_row (row_len i) bs)) [0..<unat (width i)]"
proof (cases "width i = 0")
  case True
  with j show ?thesis by (simp add: read_grid_def tabulate_def Suc_diff_Suc)
next
  case False
  let ?n = "row_len i" and ?h = "unat (height i)"
  have n: "0 < ?n" using False by (simp add: row_len_def unat_gt_0)
  have row: "read_grid i (open_in bs) ! (?h - 1 - j) =
      map (buf_pixel (fst (row_read ?n (open_in bs) (Suc j)))) [0..<unat (width i)]"
    using j by (simp add: read_grid_def tabulate_def Suc_diff_Suc del: row_read_simps)
  show ?thesis
  proof (cases "j < length bs div ?n")
    case True
    then have "Suc j * ?n \<le> length bs" by (metis Suc_leI less_eq_div_iff_mult_less_eq n)
    from row_read_complete [OF this] True show ?thesis unfolding row by simp
  next
    case False
    then show ?thesis unfolding row using row_read_torn [OF n, of bs "Suc j"] by simp
  qed
qed

text \<open>The rows of the picture, as the bytes after the header determine them.\<close>

definition shows_rows :: "info_header \<Rightarrow> u8 list \<Rightarrow> image \<Rightarrow> bool" where
  "shows_rows i bs img \<longleftrightarrow> length (pixels img) = unat (height i) \<and>
     (\<forall>j < unat (height i). pixels img ! (unat (height i) - 1 - j) =
        map (buf_pixel (if j < length bs div row_len i then take (row_len i) (drop (j * row_len i) bs)
          else torn_row (row_len i) bs)) [0..<unat (width i)])"

lemma ReadFile_shows:
  assumes "accepted f i" and "\<not> (715827882 < unat (width i) \<and> 0 < height i)"
  shows "\<exists>img. ReadFile path (Some (header_bytes f i @ bs)) = Inr img \<and> fh img = f \<and> ih img = i \<and> shows_rows i bs img"
proof (cases "height i = 0")
  case True
  with ReadFile_rowless [OF assms(1) True] show ?thesis by (simp add: headed_image_def shows_rows_def Let_def)
next
  case False
  then have "row_bytes_fit i" using assms(2) by (simp add: row_bytes_fit_def word_neq_0_conv)
  then show ?thesis
    using ReadFile_accepted [OF assms(1), of path bs] dims_height [OF read_grid_dims] grid_row [of _ i bs]
    by (simp add: shows_rows_def)
qed

subsection \<open>Properties\<close>

text \<open>
  C3: writing an image and reading the file back gives the same headers and every pixel rounded down to
  a byte per channel, on every well-formed image with intensities between zero and one; on an image
  whose pixels come from bytes the rounding is the identity.
\<close>

theorem write_then_read:
  assumes "wf_img img" and "unit_img img" and "accepted (fh img) (ih img)"
  shows "bnd (WriteFile img True) (\<lambda>bs. ReadFile path (Some bs)) =
      Inr (headed_image (fh img) (ih img)\<lparr>pixels := map (map quantise) (pixels img)\<rparr>) \<and>
    quantise (pixel_of_bytes r g b) = pixel_of_bytes r g b"
proof -
  have "row_bytes_fit (ih img)" using assms(1) by (simp add: wf_img_def row_bytes_fit_def img_w_def)
  with assms show ?thesis by (simp add: WriteFile_eq write_read)
qed

theorem write_then_read_witness:
  "bnd (WriteFile sample_image True) (\<lambda>bs. ReadFile ''b.bmp'' (Some bs)) =
      Inr (headed_image (fh sample_image) (ih sample_image)\<lparr>pixels := map (map quantise) (pixels sample_image)\<rparr>) \<and>
    quantise (pixel_of_bytes 7 8 9) = pixel_of_bytes 7 8 9"
  by (rule write_then_read [OF sample_image_wf sample_image_unit])
    (simp add: accepted_def sample_image_def sample_headers_def)

text \<open>
  C15: what \<open>ReadFile\<close> does with every file. A file that cannot be opened, one of fewer than 54 bytes, and one
  whose header is not acceptable are rejected with a \<open>ReadImageException\<close>. An accepted header that asks for
  more than 715827882 columns, and for at least one row, makes an \<open>int\<close> index overflow: the execution is
  undefined. Every other file is read, wherever it ends. The complete rows are read as they are; every other
  row of the picture shows one and the same mixture, the beginning of the row that is cut off followed by
  the end of the row before it, zeros if there is none, because the reads that fail leave the row buffer as
  it is.
\<close>

theorem reader_total:
  "(\<exists>m. ReadFile path None = Inl (ReadImageException m)) \<and>
   (length bytes < 54 \<longrightarrow> (\<exists>m. ReadFile path (Some bytes) = Inl (ReadImageException m))) \<and>
   (54 \<le> length bytes \<longrightarrow> (\<exists>f i bs. bytes = header_bytes f i @ bs)) \<and>
   (if \<not> accepted f i then \<exists>m. ReadFile path (Some (header_bytes f i @ bs)) = Inl (ReadImageException m)
    else if 715827882 < unat (width i) \<and> 0 < height i
    then ReadFile path (Some (header_bytes f i @ bs)) = Inl Undefined
    else \<exists>img. ReadFile path (Some (header_bytes f i @ bs)) = Inr img \<and> fh img = f \<and> ih img = i \<and>
      shows_rows i bs img)"
  using ReadFile_rejected ReadFile_oversized ReadFile_shows header_decode [of bytes] by (auto simp: ReadFile_def)

text \<open>
  Three rows of one pixel, of which the file has one and the beginning of a second; and a file with nothing
  but a header for one row that is too wide.
\<close>

theorem reader_total_witness:
  "(\<exists>img. ReadFile ''cut.bmp'' (Some (header_bytes (fst (sample_headers 3 1)) (snd (sample_headers 3 1)) @ [9, 8, 7, 0, 5])) =
      Inr img \<and> pixels img ! 2 = [pixel_of_bytes 7 8 9] \<and> pixels img ! 1 = [pixel_of_bytes 7 8 5] \<and>
      pixels img ! 0 = [pixel_of_bytes 7 8 5]) \<and>
   ReadFile ''wide.bmp'' (Some (header_bytes (fst (sample_headers 1 715827883)) (snd (sample_headers 1 715827883)) @ []))
    = Inl Undefined"
proof
  let ?f = "fst (sample_headers 3 1)" and ?i = "snd (sample_headers 3 1)" and ?bs = "[9, 8, 7, 0, 5] :: u8 list"
  have h: "unat (height ?i) = 3" "unat (width ?i) = 1" "row_len ?i = 4" "accepted ?f ?i"
    by (simp_all add: sample_headers_def row_len_def pad_len_def accepted_def)
  obtain img where img: "ReadFile ''cut.bmp'' (Some (header_bytes ?f ?i @ ?bs)) = Inr img" and "shows_rows ?i ?bs img"
    using reader_total [of "''cut.bmp''" "[]" ?f ?i ?bs] h by auto
  then have rows: "\<forall>j < 3. pixels img ! (3 - 1 - j) =
       map (buf_pixel (if j < length ?bs div 4 then take 4 (drop (j * 4) ?bs) else torn_row 4 ?bs)) [0..<1]"
    unfolding shows_rows_def h by blast
  have "torn_row 4 ?bs = [5, 8, 7, 0 :: u8]" by (simp add: torn_row_def Let_def)
  then have "pixels img ! 2 = [pixel_of_bytes 7 8 9] \<and> pixels img ! 1 = [pixel_of_bytes 7 8 5] \<and>
      pixels img ! 0 = [pixel_of_bytes 7 8 5]"
    using rows [rule_format, of 0] rows [rule_format, of 1] rows [rule_format, of 2] by (simp add: buf_pixel_def)
  with img show "\<exists>img. ReadFile ''cut.bmp'' (Some (header_bytes ?f ?i @ ?bs)) = Inr img \<and>
      pixels img ! 2 = [pixel_of_bytes 7 8 9] \<and> pixels img ! 1 = [pixel_of_bytes 7 8 5] \<and>
      pixels img ! 0 = [pixel_of_bytes 7 8 5]" by blast
next
  let ?f = "fst (sample_headers 1 715827883)" and ?i = "snd (sample_headers 1 715827883)"
  have "accepted ?f ?i" "715827882 < unat (width ?i) \<and> 0 < height ?i" by (simp_all add: sample_headers_def accepted_def)
  then show "ReadFile ''wide.bmp'' (Some (header_bytes ?f ?i @ [])) = Inl Undefined"
    using reader_total [of "''wide.bmp''" "[]" ?f ?i "[]"] by simp
qed

end
