(* ===== verification/Gaussian_Blur.thy ===== *)
theory Gaussian_Blur
  imports Bmp_Image
begin

text \<open>
  \<open>GaussianBlur::Apply\<close> and \<open>CalcMatrix\<close> of \<open>image_processor/src/filter.cpp\<close>: the kernel, its two
  convolutions, and their specification. The mathematical library is the parameter \<open>lm\<close>.
\<close>

subsection \<open>The code\<close>

definition M_PI :: double where "M_PI = dlit 314159265358979323846 (10 ^ 20)"
definition M_E :: double where "M_E = dlit 27182818284590452354 (10 ^ 19)"

text \<open>
  \<open>CalcMatrix\<close>: one row of weights and their sum, then every weight divided by the sum. The square
  of the column's distance is an \<open>int\<close> product.
\<close>

definition gauss_weight :: "libm \<Rightarrow> double \<Rightarrow> int \<Rightarrow> int \<Rightarrow> double res" where
  "gauss_weight lm sigma sz col =
    (let d_col = \<bar>c_div sz 2 - col\<bar> in
     bnd (i32 (d_col * d_col)) (\<lambda>d_col.
       let double_sigma = dmul (dmul (dint 2) sigma) sigma;
           e = l_powf lm (to_float M_E) (to_float (ddiv (dint (- d_col)) double_sigma))
       in Inr (ddiv (ddiv e M_PI) double_sigma)))"

definition weight_step ::
  "libm \<Rightarrow> double \<Rightarrow> int \<Rightarrow> nat \<Rightarrow> matrix \<times> double \<Rightarrow> (matrix \<times> double) res" where
  "weight_step lm sigma sz col st =
    (case st of (n_matrix, acc) \<Rightarrow>
      bnd (gauss_weight lm sigma sz (int col)) (\<lambda>x.
      bnd (grid_put n_matrix 0 (int col) x) (\<lambda>n_matrix. Inr (n_matrix, dadd acc x))))"

definition scale_step :: "double \<Rightarrow> nat \<Rightarrow> matrix \<Rightarrow> matrix res" where
  "scale_step acc col n_matrix =
    bnd (grid_at n_matrix 0 (int col)) (\<lambda>x. grid_put n_matrix 0 (int col) (ddiv x acc))"

definition calc_matrix :: "libm \<Rightarrow> double \<Rightarrow> int \<Rightarrow> matrix res" where
  "calc_matrix lm sigma sz =
    (if deq sigma d0 then Inl (ApplyFilterException ''Sigma can't be zero'')
     else
      bnd (for_each (weight_step lm sigma sz) [0..<nat sz] (replicate 1 (replicate (nat sz) d0), d0))
        (\<lambda>(n_matrix, acc). for_each (scale_step acc) [0..<nat sz] n_matrix))"

definition blur_size :: "double \<Rightarrow> int res" where
  "blur_size sigma =
    bnd (to_i32 (dmul sigma (dint 4))) (\<lambda>sz. if sz mod 2 = 0 then i32 (sz + 1) else Inr sz)"

definition blur_apply :: "libm \<Rightarrow> double \<Rightarrow> image \<Rightarrow> image res" where
  "blur_apply lm sigma img =
    bnd (blur_size sigma) (\<lambda>sz.
    bnd (calc_matrix lm sigma sz) (\<lambda>k.
    bnd (multiply k img) (\<lambda>img.
    bnd (transpose_matrix k) (\<lambda>k.
    multiply k img))))"

subsection \<open>The kernel\<close>

text \<open>In a kernel of at most 92681 entries the largest distance is 46340, whose square is an \<open>int\<close>.\<close>

lemma gauss_weight_ok:
  assumes "1 \<le> n" and "n \<le> 92681" and "0 \<le> col" and "col < n"
  shows "\<exists>x. gauss_weight lm sigma n col = Inr x"
proof -
  define d where "d = \<bar>c_div n 2 - col\<bar>"
  have "0 \<le> d" "d \<le> 46340"
    using assms by (simp_all add: d_def c_div_nonneg)
  then have "d * d \<le> 46340 * 46340" by (intro mult_mono) simp_all
  with \<open>0 \<le> d\<close> have "0 \<le> d * d" "d * d \<le> 2147395600" by simp_all
  then have "i32 (d * d) = Inr (d * d)" by (intro i32_ok; linarith)
  then show ?thesis
    by (simp only: gauss_weight_def Let_def d_def [symmetric] bnd_simps) simp
qed

text \<open>The specification of the kernel: the weights by their distance from the centre, over their sum.\<close>

definition gauss_value :: "libm \<Rightarrow> double \<Rightarrow> int \<Rightarrow> double" where
  "gauss_value lm sigma d =
    (let double_sigma = dmul (dmul (dint 2) sigma) sigma;
         e = l_powf lm (to_float M_E) (to_float (ddiv (dint (- (d * d))) double_sigma))
     in ddiv (ddiv e M_PI) double_sigma)"

definition gauss_weights :: "libm \<Rightarrow> double \<Rightarrow> nat \<Rightarrow> double list" where
  "gauss_weights lm sigma n = map (\<lambda>col. gauss_value lm sigma \<bar>int (n div 2) - int col\<bar>) [0..<n]"

definition gauss_row :: "libm \<Rightarrow> double \<Rightarrow> nat \<Rightarrow> double list" where
  "gauss_row lm sigma n = map (\<lambda>x. ddiv x (foldl dadd d0 (gauss_weights lm sigma n))) (gauss_weights lm sigma n)"

lemma gauss_row_length [simp]: "length (gauss_row lm sigma n) = n"
  by (simp add: gauss_row_def gauss_weights_def)

text \<open>The kernel is symmetric.\<close>

lemma gauss_weights_rev:
  assumes "odd n"
  shows "rev (gauss_weights lm sigma n) = gauss_weights lm sigma n"
proof (rule nth_equalityI)
  fix i assume "i < length (rev (gauss_weights lm sigma n))"
  then have i: "i < n" by (simp add: gauss_weights_def)
  from assms have "n = 2 * (n div 2) + 1" by simp
  then have "\<bar>int (n div 2) - int (n - Suc i)\<bar> = \<bar>int (n div 2) - int i\<bar>" using i by linarith
  with i show "rev (gauss_weights lm sigma n) ! i = gauss_weights lm sigma n ! i"
    by (simp add: gauss_weights_def rev_nth)
qed simp

lemma gauss_row_rev: "odd n \<Longrightarrow> rev (gauss_row lm sigma n) = gauss_row lm sigma n"
  by (simp add: gauss_row_def rev_map gauss_weights_rev)

text \<open>The two loops of \<open>CalcMatrix\<close>.\<close>

lemma gauss_weight_eq:
  assumes "n \<le> 92681" and "col < n"
  shows "gauss_weight lm sigma (int n) (int col) = Inr (gauss_weights lm sigma n ! col)"
proof -
  obtain x where x: "gauss_weight lm sigma (int n) (int col) = Inr x"
    using gauss_weight_ok [of "int n" "int col" lm sigma] assms by auto
  have "c_div (int n) 2 = int (n div 2)" by (simp add: c_div_nonneg zdiv_int)
  with x assms show ?thesis
    by (auto simp: gauss_weight_def gauss_weights_def gauss_value_def Let_def i32_def bnd_def split: if_splits)
qed

lemma put_in_row: "col < length row \<Longrightarrow> grid_put [row] 0 (int col) x = Inr [row[col := x]]"
  by (simp add: grid_put_def vec_at_def vec_put_def)

lemma weights_loop:
  assumes "n \<le> 92681" and "k \<le> n"
  shows "for_each (weight_step lm sigma (int n)) [0..<k] ([replicate n d0], d0) =
    Inr ([take k (gauss_weights lm sigma n) @ replicate (n - k) d0],
      foldl dadd d0 (take k (gauss_weights lm sigma n)))"
  using assms(2)
proof (induction k)
  case (Suc k)
  let ?ws = "gauss_weights lm sigma n"
  have len: "length ?ws = n" by (simp add: gauss_weights_def)
  have "replicate (n - k) d0 = d0 # replicate (n - Suc k) d0"
    using Suc.prems by (metis Suc_diff_Suc Suc_le_lessD replicate_Suc)
  then have "(take k ?ws @ replicate (n - k) d0)[k := ?ws ! k] = take (Suc k) ?ws @ replicate (n - Suc k) d0"
    using Suc.prems len by (simp add: list_update_append take_Suc_conv_app_nth)
  moreover have "foldl dadd d0 (take (Suc k) ?ws) = dadd (foldl dadd d0 (take k ?ws)) (?ws ! k)"
    using Suc.prems len by (simp add: take_Suc_conv_app_nth)
  ultimately show ?case
    using Suc assms(1) len
    by (simp add: for_each_append weight_step_def gauss_weight_eq put_in_row)
qed simp

lemma scale_loop:
  assumes "k \<le> length ws"
  shows "for_each (scale_step acc) [0..<k] [ws] = Inr [map (\<lambda>x. ddiv x acc) (take k ws) @ drop k ws]"
  using assms
proof (induction k)
  case (Suc k)
  let ?row = "map (\<lambda>x. ddiv x acc) (take k ws) @ drop k ws"
  have "drop k ws = ws ! k # drop (Suc k) ws" using Suc.prems by (simp add: Cons_nth_drop_Suc)
  then have "?row[k := ddiv (ws ! k) acc] = map (\<lambda>x. ddiv x acc) (take (Suc k) ws) @ drop (Suc k) ws"
    "?row ! k = ws ! k"
    using Suc.prems by (simp_all add: list_update_append take_Suc_conv_app_nth nth_append)
  with Suc show ?case
    by (simp add: for_each_append scale_step_def put_in_row grid_at_def vec_at_def)
qed simp

lemma calc_matrix_eq:
  assumes "n \<le> 92681" and "\<not> deq sigma d0"
  shows "calc_matrix lm sigma (int n) = Inr [gauss_row lm sigma n]"
proof -
  let ?ws = "gauss_weights lm sigma n"
  have "length ?ws = n" by (simp add: gauss_weights_def)
  with weights_loop [OF assms(1) le_refl, of lm sigma] scale_loop [of n ?ws "foldl dadd d0 ?ws"] assms(2)
  show ?thesis by (simp add: calc_matrix_def gauss_row_def)
qed

subsection \<open>The blur\<close>

text \<open>A row kernel and the column kernel it is transposed to.\<close>

lemma row_kernel:
  assumes "odd (length row)" and "length row < 1073741824"
  shows "odd_kernel [row]" "odd_kernel (map (\<lambda>x. [x]) row)" "transpose_matrix [row] = Inr (map (\<lambda>x. [x]) row)"
proof -
  have "row \<noteq> []" using assms(1) by auto
  with assms show "odd_kernel [row]" "odd_kernel (map (\<lambda>x. [x]) row)"
    by (auto simp: odd_kernel_def dims_def)
  have "tabulate (length row) 1 (\<lambda>r c. [row] ! c ! r) = map (\<lambda>x. [x]) row"
    by (rule nth_equalityI) (simp_all add: tabulate_def)
  then show "transpose_matrix [row] = Inr (map (\<lambda>x. [x]) row)"
    using transpose_matrix_eq [of 1 "length row" "[row]"] by (simp add: dims_def)
qed

text \<open>A larger kernel does not fit: the square of its first column's distance is no \<open>int\<close>.\<close>

lemma calc_matrix_oversized:
  assumes "92681 < n" and "odd n" and "\<not> deq sigma d0"
  shows "calc_matrix lm sigma (int n) = Inl Undefined"
proof -
  have half: "c_div (int n) 2 = int (n div 2)" by (simp add: c_div_nonneg zdiv_int)
  have "46341 \<le> n div 2" using assms(1,2) by presburger
  then have "46341 * 46341 \<le> int (n div 2) * int (n div 2)" by (intro mult_mono) simp_all
  then have "i32 (int (n div 2) * int (n div 2)) = Inl Undefined" unfolding i32_def by simp
  then have "gauss_weight lm sigma (int n) 0 = Inl Undefined" by (simp add: gauss_weight_def half Let_def)
  then have "weight_step lm sigma (int n) 0 st = Inl Undefined" for st
    by (cases st) (simp add: weight_step_def)
  moreover have "[0..<nat (int n)] = 0 # [Suc 0..<n]" unfolding nat_int using assms(1) by (intro upt_conv_Cons) simp
  ultimately show ?thesis
    unfolding calc_matrix_def using assms(3) by (simp only: for_each.simps if_False bnd_simps)
qed

lemma blur_size_odd:
  assumes "between 0 999999999 sigma"
  shows "blur_size sigma = Inl Undefined \<or> (\<exists>n. blur_size sigma = Inr (int n) \<and> odd n)"
proof -
  have "between 0 4 (dint 4)" using between_dint [of 4] by (auto intro: between_mono)
  then have "between 0 (999999999 * 4) (dmul sigma (dint 4))"
    using assms by (intro between_dmul(2)) (auto intro: between_mono)
  then obtain i where i: "dtrunc (dmul sigma (dint 4)) = Some i" "0 \<le> i"
    using dtrunc_between [of 0 "999999999 * 4" "dmul sigma (dint 4)"] by auto
  define n where "n = nat i"
  then have n: "i = int n" using i(2) by simp
  have even: "int n mod 2 = 0 \<longleftrightarrow> even n" by presburger
  show ?thesis
  proof (cases "i < 2147483648")
    case True
    then have "to_i32 (dmul sigma (dint 4)) = Inr (int n)" using i by (simp add: to_i32_def n)
    moreover have "even n \<Longrightarrow> int n + 1 < 2147483648" using True n by presburger
    ultimately show ?thesis
      by (cases "even n") (auto simp: blur_size_def even intro: exI [of _ "Suc n"] exI [of _ n])
  next
    case False
    then have "to_i32 (dmul sigma (dint 4)) = Inl Undefined" using i by (simp add: to_i32_def i32_def)
    then show ?thesis by (simp add: blur_size_def)
  qed
qed

text \<open>The blur with any sigma its factory can build.\<close>

definition blurred :: "libm \<Rightarrow> double \<Rightarrow> nat \<Rightarrow> image \<Rightarrow> image" where
  "blurred lm sigma n img =
    convolve (map (\<lambda>x. [x]) (gauss_row lm sigma n)) (convolve [gauss_row lm sigma n] img)"

lemma blur_total:
  assumes img: "wf_img img" and sz: "blur_size sigma = Inr (int n)" "odd n"
  shows "blur_apply lm sigma img =
      (if deq sigma d0 then Inl (ApplyFilterException ''Sigma can't be zero'')
       else if 92681 < n then Inl Undefined
       else Inr (blurred lm sigma n img))"
proof (cases "deq sigma d0 \<or> 92681 < n")
  case True
  then show ?thesis using sz calc_matrix_oversized [of n sigma lm] by (auto simp: blur_apply_def calc_matrix_def)
next
  case False
  let ?k = "gauss_row lm sigma n"
  have k: "odd_kernel [?k]" "odd_kernel (map (\<lambda>x. [x]) ?k)" "transpose_matrix [?k] = Inr (map (\<lambda>x. [x]) ?k)"
    using row_kernel [of ?k] sz(2) False by simp_all
  then show ?thesis using False sz(1)
    by (simp add: blur_apply_def calc_matrix_eq multiply_convolve [OF img] multiply_convolve [OF convolve_wf [OF img]]
        blurred_def)
qed

lemma blurred_ok: "wf_img img \<Longrightarrow> wf_img (blurred lm sigma n img)" "unit_img (blurred lm sigma n img)"
  unfolding blurred_def by (intro convolve_wf, assumption) (rule convolve_unit)

text \<open>The blurs whose kernel is not computed, because sigma is zero, or can be.\<close>

definition blur_fits :: "double \<Rightarrow> bool" where
  "blur_fits sigma \<longleftrightarrow> (case blur_size sigma of Inl e \<Rightarrow> False | Inr sz \<Rightarrow> deq sigma d0 \<or> sz \<le> 92681)"

lemma blur_ok:
  assumes img: "wf_img img" and sigma: "between 0 999999999 sigma" "blur_fits sigma"
  shows "(\<exists>img'. blur_apply lm sigma img = Inr img' \<and> wf_img img' \<and> unit_img img') \<or>
    (blur_apply lm sigma img = Inl (ApplyFilterException ''Sigma can't be zero'') \<and> deq sigma d0)"
proof -
  obtain n where n: "blur_size sigma = Inr (int n)" "odd n" "deq sigma d0 \<or> n \<le> 92681"
    using blur_size_odd [OF sigma(1)] sigma(2) by (auto simp: blur_fits_def)
  then show ?thesis using blur_total [OF img n(1,2), of lm] blurred_ok(2) blurred_ok(1) [OF img] by auto
qed

lemma blur_unfit:
  assumes img: "wf_img img" and sigma: "between 0 999999999 sigma" "\<not> blur_fits sigma"
  shows "blur_apply lm sigma img = Inl Undefined"
  using blur_size_odd [OF sigma(1)]
proof (elim disjE exE conjE)
  fix n assume n: "blur_size sigma = Inr (int n)" "odd n"
  then have "\<not> deq sigma d0" "92681 < n" using sigma(2) by (simp_all add: blur_fits_def)
  then show ?thesis using blur_total [OF img n, of lm] by simp
qed (simp add: blur_apply_def)

text \<open>A mathematical library with which the properties are tried: every function returns zero.\<close>

definition flat_libm :: libm where
  "flat_libm = \<lparr>l_sqrt = (\<lambda>x. d0), l_sin = (\<lambda>x. d0), l_cos = (\<lambda>x. d0), l_atan2 = (\<lambda>x y. d0), l_powf = (\<lambda>x y. d0)\<rparr>"

end
