(* ===== verification/Image_Filters.thy ===== *)
theory Image_Filters
  imports Gaussian_Blur
begin

text \<open>
  \<open>image_processor/include/filter.h\<close> and \<open>src/filter.cpp\<close>: the filter classes are the constructors
  of a datatype holding their private fields, \<open>Apply\<close> is one definition per class, and
  \<open>apply_filter\<close> the virtual call; \<open>GaussianBlur::Apply\<close> is \<open>blur_apply\<close> of \<open>Gaussian_Blur\<close>. The
  mathematical library is the parameter \<open>lm\<close>.
\<close>

datatype filter =
    Crop i16 i16
  | Grayscale
  | Negative
  | Sharpening
  | EdgeDetection double
  | GaussianBlur double
  | Tunnel int int double double

subsection \<open>Crop\<close>

text \<open>
  The members are \<open>int16_t\<close>; compared with the unsigned header fields they are sign-extended to 32
  bits, passed to \<open>resize\<close> to 64, and the products of \<open>image_size\<close> are computed in \<open>int\<close>.
\<close>

definition crop_rows :: "i16 \<Rightarrow> image \<Rightarrow> image" where
  "crop_rows h img =
    (if (scast h :: u32) < height (ih img)
     then img\<lparr>pixels := vec_resize [] (unat (scast h :: 64 word)) (pixels img),
              buffer := vec_resize [] (unat (scast h :: 64 word)) (buffer img),
              ih := (ih img)\<lparr>height := scast h\<rparr>\<rparr>
     else img)"

definition crop_cols :: "i16 \<Rightarrow> image \<Rightarrow> image" where
  "crop_cols w img =
    (if (scast w :: u32) < width (ih img)
     then img\<lparr>pixels := map (vec_resize blank (unat (scast w :: 64 word))) (pixels img),
              buffer := map (vec_resize blank (unat (scast w :: 64 word))) (buffer img),
              ih := (ih img)\<lparr>width := scast w\<rparr>\<rparr>
     else img)"

definition crop_apply :: "i16 \<Rightarrow> i16 \<Rightarrow> image \<Rightarrow> image res" where
  "crop_apply w h img =
    (let img = crop_cols w (crop_rows h img) in
     bnd (i32 (sint h * (c_div (sint w * 3 + 3) 4 * 4))) (\<lambda>size.
       Inr (img\<lparr>ih := (ih img)\<lparr>image_size := word_of_int size\<rparr>\<rparr>)))"

subsection \<open>Grayscale and negative\<close>

definition RGray :: double where "RGray = dlit 299 1000"
definition GGray :: double where "GGray = dlit 587 1000"
definition BGray :: double where "BGray = dlit 114 1000"

definition gray_pixel :: "pixel \<Rightarrow> pixel" where
  "gray_pixel p =
    (let color = dadd (dadd (dmul (px_r p) RGray) (dmul (px_g p) GGray)) (dmul (px_b p) BGray);
         color = std_max d0 (std_min d1 color)
     in \<lparr>px_r = color, px_g = color, px_b = color\<rparr>)"

definition grayscale_apply :: "image \<Rightarrow> image res" where
  "grayscale_apply img = Inr (img\<lparr>pixels := map (map gray_pixel) (pixels img)\<rparr>)"

definition negative_apply :: "image \<Rightarrow> image res" where
  "negative_apply img = Inr (img\<lparr>pixels := map (map (map_pixel (dsub d1))) (pixels img)\<rparr>)"

subsection \<open>Sharpening and edge detection\<close>

definition sharp_matrix :: matrix where
  "sharp_matrix =
    [[dint 0, dint (- 1), dint 0], [dint (- 1), dint 5, dint (- 1)], [dint 0, dint (- 1), dint 0]]"

definition edge_matrix :: matrix where
  "edge_matrix =
    [[dint 0, dint (- 1), dint 0], [dint (- 1), dint 4, dint (- 1)], [dint 0, dint (- 1), dint 0]]"

definition sharpening_apply :: "image \<Rightarrow> image res" where
  "sharpening_apply img = multiply sharp_matrix img"

definition white :: pixel where
  "white = \<lparr>px_r = d1, px_g = d1, px_b = d1\<rparr>"

definition threshold_pixel :: "double \<Rightarrow> pixel \<Rightarrow> pixel" where
  "threshold_pixel t p = (if dle (px_r p) t then blank else white)"

definition edge_apply :: "double \<Rightarrow> image \<Rightarrow> image res" where
  "edge_apply threshold img =
    bnd (grayscale_apply img) (\<lambda>img.
    bnd (multiply edge_matrix img) (\<lambda>img.
    bnd (for_each (\<lambda>row. for_each (\<lambda>col ps.
           bnd (grid_at ps (int row) (int col)) (\<lambda>p.
             grid_put ps (int row) (int col) (threshold_pixel threshold p)))
         [0..<img_w img]) [0..<img_h img] (pixels img)) (\<lambda>ps.
    Inr (img\<lparr>pixels := ps\<rparr>))))"

subsection \<open>Tunnel\<close>

definition signed_string :: "int \<Rightarrow> string" where
  "signed_string i = (if i < 0 then CHR ''-'' # to_string (nat (- i)) else to_string (nat i))"

definition tunnel_error :: "int \<Rightarrow> cpp_error" where
  "tunnel_error c = ApplyFilterException
    (''Incorrect center coordinates for -tunnel: '' @ signed_string c @ [CHR 10])"

text \<open>The pixel a cell of the tunnel shows, and the source coordinates inside the radius.\<close>

definition tunnel_source ::
  "libm \<Rightarrow> double \<Rightarrow> double \<Rightarrow> int \<Rightarrow> int \<Rightarrow> double \<Rightarrow> double \<Rightarrow> double \<Rightarrow> (int \<times> int) res" where
  "tunnel_source lm strength radius center_h center_w d_row d_col distance =
    (let angle = l_atan2 lm d_row d_col;
         new_angle = dadd angle (dmul strength (dsub d1 (ddiv distance radius)))
     in bnd (to_i32 (dmul distance (l_sin lm new_angle))) (\<lambda>dr. bnd (i32 (center_h + dr)) (\<lambda>src_row.
        bnd (to_i32 (dmul distance (l_cos lm new_angle))) (\<lambda>dc. bnd (i32 (center_w + dc)) (\<lambda>src_col.
        Inr (src_row, src_col))))))"

definition tunnel_cell ::
  "libm \<Rightarrow> double \<Rightarrow> double \<Rightarrow> int \<Rightarrow> int \<Rightarrow> image \<Rightarrow> nat \<Rightarrow> nat \<Rightarrow> pixel list list \<Rightarrow> pixel list list res" where
  "tunnel_cell lm strength radius center_h center_w img row col buf =
    (let d_row = dint (int row - center_h); d_col = dint (int col - center_w);
         distance = l_sqrt lm (dadd (dmul d_row d_row) (dmul d_col d_col))
     in bnd (grid_at (pixels img) (int row) (int col)) (\<lambda>p.
        bnd (grid_put buf (int row) (int col) p) (\<lambda>buf.
        if dlt distance radius \<and> dlt d0 distance
        then bnd (tunnel_source lm strength radius center_h center_w d_row d_col distance)
               (\<lambda>(src_row, src_col).
               if 0 \<le> src_col \<and> word_of_int src_col < width (ih img) \<and>
                  0 \<le> src_row \<and> word_of_int src_row < height (ih img)
               then bnd (grid_at (pixels img) src_row src_col) (\<lambda>q. grid_put buf (int row) (int col) q)
               else Inr buf)
        else Inr buf)))"

definition tunnel_apply :: "libm \<Rightarrow> int \<Rightarrow> int \<Rightarrow> double \<Rightarrow> double \<Rightarrow> image \<Rightarrow> image res" where
  "tunnel_apply lm ch cw strength radius img =
    (let h = height (ih img); w = width (ih img);
         center_h = (if ch \<noteq> 0 then ch else sint (h div 2));
         center_w = (if cw \<noteq> 0 then cw else sint (w div 2))
     in if center_h < 0 \<or> h \<le> word_of_int center_h then Inl (tunnel_error center_h)
        else if center_w < 0 \<or> w \<le> word_of_int center_w then Inl (tunnel_error center_w)
        else bnd (for_each (\<lambda>row. for_each (tunnel_cell lm strength radius center_h center_w img row)
                    [0..<unat w]) [0..<unat h] (replicate (unat h) (replicate (unat w) blank)))
               (\<lambda>buf. Inr (img\<lparr>pixels := buf\<rparr>)))"

subsection \<open>The virtual call and the pipeline\<close>

fun apply_filter :: "libm \<Rightarrow> filter \<Rightarrow> image \<Rightarrow> image res" where
  "apply_filter lm (Crop w h) img = crop_apply w h img"
| "apply_filter lm Grayscale img = grayscale_apply img"
| "apply_filter lm Negative img = negative_apply img"
| "apply_filter lm Sharpening img = sharpening_apply img"
| "apply_filter lm (EdgeDetection t) img = edge_apply t img"
| "apply_filter lm (GaussianBlur s) img = blur_apply lm s img"
| "apply_filter lm (Tunnel ch cw s r) img = tunnel_apply lm ch cw s r img"

text \<open>\<open>ApplyFilters\<close> of \<open>src/handler.cpp\<close>: the filters in command-line order.\<close>

definition apply_filters :: "libm \<Rightarrow> filter list \<Rightarrow> image \<Rightarrow> image res" where
  "apply_filters lm fs img = for_each (apply_filter lm) fs img"

subsection \<open>Constants\<close>

lemma odd_kernel_sharp: "odd_kernel sharp_matrix" and odd_kernel_edge: "odd_kernel edge_matrix"
  by (simp_all add: odd_kernel_def sharp_matrix_def edge_matrix_def dims_def)

lemma unit_blank [simp]: "unit_pixel blank" and unit_white [simp]: "unit_pixel white"
  by (simp_all add: unit_pixel_def blank_def white_def)

lemma unit_gray [simp]: "unit_pixel (gray_pixel p)"
  by (simp add: gray_pixel_def unit_pixel_def Let_def)

lemma unit_threshold [simp]: "unit_pixel (threshold_pixel t p)"
  by (simp add: threshold_pixel_def)

lemma unit_negative: "unit_pixel p \<Longrightarrow> unit_pixel (map_pixel (dsub d1) p)"
proof -
  have "between 1 1 d1" by (simp add: between_fin)
  then have "in_unit x \<Longrightarrow> in_unit (dsub d1 x)" for x
    using between_dsub [of 1 1 d1 0 1 x] by (simp add: in_unit_between)
  then show "unit_pixel p \<Longrightarrow> unit_pixel (map_pixel (dsub d1) p)"
    by (simp add: unit_pixel_def map_pixel_def)
qed

subsection \<open>Per-pixel filters\<close>

text \<open>A filter that maps every pixel keeps the grids; the result is in range when the map's is.\<close>

lemma map_pixels_wf:
  assumes "wf_img img" and "\<And>p. p \<in> (\<Union>row \<in> set (pixels img). set row) \<Longrightarrow> unit_pixel (f p)"
  shows "wf_img (img\<lparr>pixels := map (map f) (pixels img)\<rparr>) \<and> unit_img (img\<lparr>pixels := map (map f) (pixels img)\<rparr>)"
  using assms by (auto simp: wf_img_def img_h_def img_w_def unit_img_def dims_def)

lemma grayscale_ok:
  assumes "wf_img img"
  shows "\<exists>img'. grayscale_apply img = Inr img' \<and> wf_img img' \<and> unit_img img'"
  using map_pixels_wf [OF assms, of gray_pixel] by (simp add: grayscale_apply_def)

lemma negative_ok:
  assumes "wf_img img" and "unit_img img"
  shows "\<exists>img'. negative_apply img = Inr img' \<and> wf_img img' \<and> unit_img img'"
  using map_pixels_wf [OF assms(1), of "map_pixel (dsub d1)"] assms(2)
  by (auto simp: negative_apply_def unit_img_def intro: unit_negative)

lemma edge_eq:
  assumes "wf_img img"
  shows "\<exists>gray. grayscale_apply img = Inr gray \<and> wf_img gray \<and>
    edge_apply t img = Inr (gray\<lparr>pixels := tabulate (img_h img) (img_w img)
      (\<lambda>r c. threshold_pixel t (conv_pixel edge_matrix gray r c)), buffer := pixels gray\<rparr>)"
proof -
  obtain gray where g: "grayscale_apply img = Inr gray" "wf_img gray" "unit_img gray"
    using grayscale_ok [OF assms] by blast
  then have dim: "img_h gray = img_h img" "img_w gray = img_w img"
    by (auto simp: grayscale_apply_def img_h_def img_w_def)
  let ?ps = "tabulate (img_h img) (img_w img) (conv_pixel edge_matrix gray)"
  have "for_each (\<lambda>row. for_each (\<lambda>col ps.
           bnd (grid_at ps (int row) (int col)) (\<lambda>p.
             grid_put ps (int row) (int col) (threshold_pixel t p)))
         [0..<img_w img]) [0..<img_h img] ?ps =
      Inr (tabulate (img_h img) (img_w img) (\<lambda>r c. threshold_pixel t (?ps ! r ! c)))"
    by (rule for_each_grid)
      (simp_all add: grid_at_ok [of "img_h img" "img_w img"] grid_put_ok [of "img_h img" "img_w img"])
  also have "\<dots> = Inr (tabulate (img_h img) (img_w img)
      (\<lambda>r c. threshold_pixel t (conv_pixel edge_matrix gray r c)))"
    by (auto intro!: tabulate_cong)
  finally show ?thesis
    using g dim by (simp add: edge_apply_def multiply_eq odd_kernel_edge img_h_def img_w_def)
qed

lemma edge_ok:
  assumes "wf_img img"
  shows "\<exists>img'. edge_apply t img = Inr img' \<and> wf_img img' \<and> unit_img img'"
proof -
  obtain gray where g: "grayscale_apply img = Inr gray" "wf_img gray"
    "edge_apply t img = Inr (gray\<lparr>pixels := tabulate (img_h img) (img_w img)
      (\<lambda>r c. threshold_pixel t (conv_pixel edge_matrix gray r c)), buffer := pixels gray\<rparr>)"
    using edge_eq [OF assms] by blast
  then show ?thesis
    by (auto simp: wf_img_def img_h_def img_w_def grayscale_apply_def unit_img_def tabulate_def dims_def)
qed

subsection \<open>Crop\<close>

lemma uint_scast: "uint (scast (h :: i16) :: 'a::len word) = sint h mod 2 ^ LENGTH('a)"
  by (simp only: scast_eq uint_word_of_int)

lemma scast_nonneg:
  assumes "0 \<le> sint (h :: i16)"
  shows "unat (scast h :: u32) = nat (sint h)" "unat (scast h :: 64 word) = nat (sint h)"
    "nat (sint h) < 32768"
proof -
  have b: "sint h < 32768" using sint_lt [of h] by simp
  have "uint (scast h :: u32) = sint h" "uint (scast h :: 64 word) = sint h"
    unfolding uint_scast using assms b by (intro mod_pos_pos_trivial; simp)+
  then show "unat (scast h :: u32) = nat (sint h)" "unat (scast h :: 64 word) = nat (sint h)"
    by (simp_all only: unat_eq_nat_uint)
  show "nat (sint h) < 32768" using b by linarith
qed

lemma scast_negative:
  assumes "sint (h :: i16) < 0"
  shows "4294934528 \<le> unat (scast h :: u32)"
proof -
  have b: "- 32768 \<le> sint h" using sint_ge [of h] by simp
  have "uint (scast h :: u32) = (sint h + 4294967296) mod 4294967296"
    unfolding uint_scast by simp
  also have "\<dots> = sint h + 4294967296"
    using assms b by (intro mod_pos_pos_trivial) linarith+
  finally have "4294934528 \<le> uint (scast h :: u32)" using b by linarith
  then have "nat 4294934528 \<le> nat (uint (scast h :: u32))" by (rule nat_mono)
  then show ?thesis by (simp only: unat_eq_nat_uint nat_numeral)
qed

text \<open>The number of rows or columns a crop leaves: a negative bound leaves them all.\<close>

definition crop_to :: "i16 \<Rightarrow> nat \<Rightarrow> nat" where
  "crop_to b n = (if sint b < 0 then n else min (nat (sint b)) n)"

lemma crop_less:
  assumes "unat n < 1073741824"
  shows "(scast h :: u32) < n \<longleftrightarrow> 0 \<le> sint (h :: i16) \<and> nat (sint h) < unat n"
  using assms scast_nonneg(1) [of h] scast_negative [of h]
  by (cases "0 \<le> sint h") (auto simp: word_less_nat_alt)

lemma crop_rows_spec:
  assumes "wf_img img"
  shows "wf_img (crop_rows h img)" "img_h (crop_rows h img) = crop_to h (img_h img)"
    "img_w (crop_rows h img) = img_w img"
    "pixels (crop_rows h img) = take (crop_to h (img_h img)) (pixels img)"
proof -
  have small: "unat (height (ih img)) < 1073741824" and len: "length (pixels img) = img_h img"
    "length (buffer img) = img_h img"
    using assms by (simp_all add: wf_img_def img_h_def dims_def)
  show "wf_img (crop_rows h img)" "img_h (crop_rows h img) = crop_to h (img_h img)"
    "img_w (crop_rows h img) = img_w img"
    "pixels (crop_rows h img) = take (crop_to h (img_h img)) (pixels img)"
    using assms len scast_nonneg [of h]
    by (auto simp: crop_rows_def crop_less [OF small] wf_img_def img_h_def img_w_def crop_to_def
        vec_resize_shrink dims_def dest: in_set_takeD)
qed

lemma crop_cols_spec:
  assumes "wf_img img"
  shows "wf_img (crop_cols w img)" "img_w (crop_cols w img) = crop_to w (img_w img)"
    "img_h (crop_cols w img) = img_h img"
    "pixels (crop_cols w img) = map (take (crop_to w (img_w img))) (pixels img)"
proof -
  have small: "unat (width (ih img)) < 1073741824"
    using assms by (simp add: wf_img_def img_w_def)
  have rows: "dims (img_h img) (img_w img) (pixels img)" using assms by (simp add: wf_img_def)
  show "wf_img (crop_cols w img)" "img_w (crop_cols w img) = crop_to w (img_w img)"
    "img_h (crop_cols w img) = img_h img"
    using assms scast_nonneg [of w]
    by (auto simp: crop_cols_def crop_less [OF small] wf_img_def img_h_def img_w_def crop_to_def dims_def)
  show "pixels (crop_cols w img) = map (take (crop_to w (img_w img))) (pixels img)"
    using rows scast_nonneg [of w]
    by (auto simp: crop_cols_def crop_less [OF small] img_w_def crop_to_def vec_resize_shrink dims_def
        intro: map_idI [symmetric])
qed

definition crop_image_size :: "i16 \<Rightarrow> i16 \<Rightarrow> int" where
  "crop_image_size w h = sint h * (c_div (sint w * 3 + 3) 4 * 4)"

lemma crop_apply_spec:
  assumes "wf_img img" and "- 2147483648 \<le> crop_image_size w h" and "crop_image_size w h < 2147483648"
  shows "\<exists>img'. crop_apply w h img = Inr img' \<and> wf_img img' \<and>
    img_h img' = crop_to h (img_h img) \<and> img_w img' = crop_to w (img_w img) \<and>
    pixels img' = map (take (crop_to w (img_w img))) (take (crop_to h (img_h img)) (pixels img)) \<and>
    image_size (ih img') = word_of_int (crop_image_size w h)"
proof -
  note rows = crop_rows_spec [OF assms(1), of h]
  note cols = crop_cols_spec [OF rows(1), of w]
  have i: "i32 (sint h * (c_div (sint w * 3 + 3) 4 * 4)) = Inr (crop_image_size w h)"
    using assms(2,3) by (simp add: crop_image_size_def)
  show ?thesis
    unfolding crop_apply_def Let_def i bnd_simps using rows cols
    by (simp add: wf_img_def img_h_def img_w_def)
qed

text \<open>The headers of the result: the file header, and with it \<open>file_size\<close>, is kept.\<close>

lemma crop_apply_headers:
  assumes "wf_img img" and "crop_apply w h img = Inr img'"
  shows "fh img' = fh img"
    and "ih img' = (ih img)\<lparr>height := of_nat (crop_to h (img_h img)), width := of_nat (crop_to w (img_w img)),
      image_size := word_of_int (crop_image_size w h)\<rparr>"
proof -
  have small: "unat (height (ih img)) < 1073741824" "unat (width (ih img)) < 1073741824"
    using assms(1) by (simp_all add: wf_img_def img_w_def img_h_def)
  note less = crop_less [OF small(1), of h] crop_less [OF small(2), of w]
  have u: "of_nat (unat x) = x" for x :: u32 by simp
  have pos: "0 \<le> sint b \<Longrightarrow> of_nat (nat (sint b)) = (scast b :: u32)" for b :: i16
    using scast_nonneg(1) [of b] u [of "scast b"] by (simp only:)
  have i: "img' = (crop_cols w (crop_rows h img))\<lparr>ih := (ih (crop_cols w (crop_rows h img)))
      \<lparr>image_size := word_of_int (crop_image_size w h)\<rparr>\<rparr>"
    using assms(2) by (auto simp: crop_apply_def Let_def bnd_Inr_iff crop_image_size_def i32_def split: if_splits)
  have w: "width (ih (crop_rows h img)) = width (ih img)" by (simp add: crop_rows_def)
  show "fh img' = fh img" by (simp add: i crop_cols_def crop_rows_def)
  show "ih img' = (ih img)\<lparr>height := of_nat (crop_to h (img_h img)), width := of_nat (crop_to w (img_w img)),
      image_size := word_of_int (crop_image_size w h)\<rparr>"
    using less pos [of h] pos [of w]
    by (auto simp: i w crop_cols_def crop_rows_def crop_to_def img_h_def img_w_def u)
qed

lemma crop_ok:
  assumes "wf_img img" and "unit_img img"
    and "- 2147483648 \<le> crop_image_size w h" and "crop_image_size w h < 2147483648"
  shows "\<exists>img'. crop_apply w h img = Inr img' \<and> wf_img img' \<and> unit_img img'"
  using crop_apply_spec [OF assms(1,3,4)] assms(2)
  by (auto simp: unit_img_def dest!: in_set_takeD)

subsection \<open>Tunnel\<close>

text \<open>
  What the code relies on of the mathematical library: on finite arguments sine and cosine lie in
  [-1, 1] and the angle of \<open>atan2\<close> in [-4, 4].
\<close>

definition libm_ok :: "libm \<Rightarrow> bool" where
  "libm_ok lm \<longleftrightarrow> (\<forall>x. is_fin x \<longrightarrow> between (- 1) 1 (l_sin lm x) \<and> between (- 1) 1 (l_cos lm x)) \<and>
     (\<forall>x y. is_fin x \<longrightarrow> is_fin y \<longrightarrow> between (- 4) 4 (l_atan2 lm x y))"

lemma between_is_fin: "between lo hi d \<Longrightarrow> is_fin d"
  by (simp add: between_fin)

lemma tunnel_source_ok:
  assumes lm: "libm_ok lm" and s: "between 0 999999999 strength" and r: "between 0 999999999 radius"
    and c: "0 \<le> center_h" "center_h < 1073741824" "0 \<le> center_w" "center_w < 1073741824"
    and fin: "is_fin d_row" "is_fin d_col"
    and dist: "dlt distance radius" "dlt d0 distance"
  shows "\<exists>p. tunnel_source lm strength radius center_h center_w d_row d_col distance = Inr p"
proof -
  from r dist have "is_fin distance"
    by (cases distance; cases radius) (simp_all add: between_fin d0_eq)
  with r dist have d: "between 0 999999999 distance" "fval distance \<le> fval radius" "0 < fval radius" "0 \<le> fval distance"
    by (auto simp: between_fin dlt_fval)
  obtain m e n f where mn: "distance = Fin m e" "radius = Fin n f"
    using \<open>is_fin distance\<close> r by (metis between_fin is_fin.elims(2))
  have "between 0 1 (ddiv distance radius)" using mn d(4,2,3) by (rule between_ddiv_unit)
  then have "between (1 - 1) (1 - 0) (dsub d1 (ddiv distance radius))"
    by (intro between_dsub) (simp_all add: between_fin)
  then have "between (- (999999999 * 1)) (999999999 * 1) (dmul strength (dsub d1 (ddiv distance radius)))"
    using s by (intro between_dmul(1)) (auto intro: between_mono)
  moreover have "between (- 4) 4 (l_atan2 lm d_row d_col)" using lm fin by (simp add: libm_ok_def)
  ultimately have "is_fin (dadd (l_atan2 lm d_row d_col) (dmul strength (dsub d1 (ddiv distance radius))))"
    by (intro between_is_fin [OF between_dadd]) (assumption | simp)+
  then have trig: "between (- 1) 1 (l_sin lm (dadd (l_atan2 lm d_row d_col) (dmul strength (dsub d1 (ddiv distance radius)))))"
    "between (- 1) 1 (l_cos lm (dadd (l_atan2 lm d_row d_col) (dmul strength (dsub d1 (ddiv distance radius)))))"
    using lm by (simp_all add: libm_ok_def)
  have step: "\<exists>i. to_i32 (dmul distance x) = Inr i \<and> - 999999999 \<le> i \<and> i \<le> 999999999" if "between (- 1) 1 x" for x
  proof -
    from d(1) that have "between (- (999999999 * 1)) (999999999 * 1) (dmul distance x)"
      by (rule between_dmul(1)) simp
    then show ?thesis using to_i32_between [of "- 999999999" 999999999 "dmul distance x"] by simp
  qed
  show ?thesis
    using step [OF trig(1)] step [OF trig(2)] c by (auto simp: tunnel_source_def Let_def)
qed

text \<open>
  The cell whose pixel the tunnel shows at a cell: the source of a point inside the radius and off the
  centre, if it lies in the image, and else the cell itself.
\<close>

definition swirl :: "libm \<Rightarrow> double \<Rightarrow> double \<Rightarrow> int \<Rightarrow> int \<Rightarrow> nat \<Rightarrow> nat \<Rightarrow> nat \<Rightarrow> nat \<Rightarrow> nat \<times> nat" where
  "swirl lm strength radius center_h center_w h w row col =
    (let d_row = dint (int row - center_h); d_col = dint (int col - center_w);
         distance = l_sqrt lm (dadd (dmul d_row d_row) (dmul d_col d_col))
     in if dlt distance radius \<and> dlt d0 distance then
          (case tunnel_source lm strength radius center_h center_w d_row d_col distance of
             Inr (r, c) \<Rightarrow> if r \<in> {0..<int h} \<and> c \<in> {0..<int w} then (nat r, nat c) else (row, col)
           | Inl e \<Rightarrow> (row, col))
        else (row, col))"

lemma swirl_in_range:
  "row < h \<Longrightarrow> col < w \<Longrightarrow> fst (swirl lm s r ch cw h w row col) < h \<and> snd (swirl lm s r ch cw h w row col) < w"
  by (auto simp: swirl_def Let_def split: sum.split)

lemma swirl_outside:
  fixes row col :: nat
  defines "distance \<equiv> \<lambda>lm ch cw. l_sqrt lm
    (dadd (dmul (dint (int row - ch)) (dint (int row - ch))) (dmul (dint (int col - cw)) (dint (int col - cw))))"
  shows "dlt (distance lm ch cw) r \<and> dlt d0 (distance lm ch cw) \<or> swirl lm s r ch cw h w row col = (row, col)"
  by (simp add: swirl_def distance_def Let_def)

lemma tunnel_cell_ok:
  assumes img: "wf_img img" and lm: "libm_ok lm"
    and s: "between 0 999999999 strength" and r: "between 0 999999999 radius"
    and c: "0 \<le> center_h" "center_h < 1073741824" "0 \<le> center_w" "center_w < 1073741824"
    and cell: "row < img_h img" "col < img_w img"
    and buf: "dims (img_h img) (img_w img) buf"
  defines "src \<equiv> swirl lm strength radius center_h center_w (img_h img) (img_w img) row col"
  shows "tunnel_cell lm strength radius center_h center_w img row col buf =
    Inr (set_cell buf row col (pixels img ! fst src ! snd src))"
proof -
  let ?h = "img_h img" and ?w = "img_w img"
  have px: "dims ?h ?w (pixels img)" "?h < 1073741824" "?w < 1073741824" using img by (simp_all add: wf_img_def)
  have bufs: "dims ?h ?w (set_cell buf row col (pixels img ! row ! col))"
    using buf cell by simp
  let ?dr = "dint (int row - center_h)" and ?dc = "dint (int col - center_w)"
  have fin: "is_fin ?dr" "is_fin ?dc"
    using px cell c by (auto intro!: between_is_fin [OF between_dint])
  let ?dist = "l_sqrt lm (dadd (dmul ?dr ?dr) (dmul ?dc ?dc))"
  show ?thesis
  proof (cases "dlt ?dist radius \<and> dlt d0 ?dist")
    case False
    then show ?thesis
      using px(1) buf cell
      by (auto simp: tunnel_cell_def src_def swirl_def Let_def grid_at_ok [of ?h ?w] grid_put_ok [of ?h ?w])
  next
    case inside: True
    then obtain sr sc where src:
        "tunnel_source lm strength radius center_h center_w ?dr ?dc ?dist = Inr (sr, sc)"
      using tunnel_source_ok [OF lm s r c fin] by (metis surj_pair)
    have "sr < 4294967296" "sc < 4294967296"
      using src by (auto simp: tunnel_source_def Let_def bnd_Inr_iff i32_def split: if_splits)
    then have small: "0 \<le> sc \<Longrightarrow> word_of_int sc < width (ih img) \<longleftrightarrow> sc < int ?w"
      "0 \<le> sr \<Longrightarrow> word_of_int sr < height (ih img) \<longleftrightarrow> sr < int ?h"
      using word_le_small [of sc "width (ih img)"] word_le_small [of sr "height (ih img)"]
      by (auto simp: img_h_def img_w_def not_le [symmetric])
    show ?thesis
    proof (cases "sr \<in> {0..<int ?h} \<and> sc \<in> {0..<int ?w}")
      case True
      then have "grid_at (pixels img) sr sc = Inr (pixels img ! nat sr ! nat sc)"
        using px(1) by (auto intro!: grid_at_ok_int)
      then show ?thesis
        using True inside px(1) buf cell bufs src small
        by (auto simp: tunnel_cell_def src_def swirl_def Let_def grid_at_ok [of ?h ?w] grid_put_ok [of ?h ?w])
    next
      case False
      then have "\<not> (0 \<le> sc \<and> word_of_int sc < width (ih img) \<and> 0 \<le> sr \<and> word_of_int sr < height (ih img))"
        using small by auto
      then show ?thesis
        using False inside px(1) buf cell src
        by (auto simp: tunnel_cell_def src_def swirl_def Let_def grid_at_ok [of ?h ?w] grid_put_ok [of ?h ?w])
    qed
  qed
qed

text \<open>
  The centre is the given one or, when that is zero, the middle of the image; outside of the image it is
  rejected. Otherwise the tunnel rearranges pixels.
\<close>

definition tunnel_center :: "int \<Rightarrow> nat \<Rightarrow> int" where
  "tunnel_center c n = (if c \<noteq> 0 then c else int n div 2)"

definition swirled :: "libm \<Rightarrow> double \<Rightarrow> double \<Rightarrow> int \<Rightarrow> int \<Rightarrow> image \<Rightarrow> image" where
  "swirled lm strength radius center_h center_w img =
    img\<lparr>pixels := tabulate (img_h img) (img_w img) (\<lambda>row col.
      let src = swirl lm strength radius center_h center_w (img_h img) (img_w img) row col
      in pixels img ! fst src ! snd src)\<rparr>"

lemma tunnel_apply_eq:
  assumes img: "wf_img img" and lm: "libm_ok lm"
    and s: "between 0 999999999 strength" and r: "between 0 999999999 radius"
    and ch: "0 \<le> ch" "ch \<le> 999999999" and cw: "0 \<le> cw" "cw \<le> 999999999"
  shows "tunnel_apply lm ch cw strength radius img =
    (let center_h = tunnel_center ch (img_h img); center_w = tunnel_center cw (img_w img) in
     if int (img_h img) \<le> center_h then Inl (tunnel_error center_h)
     else if int (img_w img) \<le> center_w then Inl (tunnel_error center_w)
     else Inr (swirled lm strength radius center_h center_w img))"
proof -
  let ?h = "img_h img" and ?w = "img_w img"
  have small: "?h < 1073741824" "?w < 1073741824" using img by (simp_all add: wf_img_def)
  define center_h center_w where
    "center_h = (if ch \<noteq> 0 then ch else sint (height (ih img) div 2))" and
    "center_w = (if cw \<noteq> 0 then cw else sint (width (ih img) div 2))"
  have half: "sint (x div 2) = int (unat x) div 2" if "unat x < 1073741824" for x :: u32
  proof -
    have "unat (x div 2) = unat x div 2" by (simp add: unat_div)
    moreover from this have "sint (x div 2) = int (unat (x div 2))"
      using that by (intro sint_small) linarith
    ultimately show ?thesis by (simp add: zdiv_int)
  qed
  have center: "center_h = tunnel_center ch ?h" "center_w = tunnel_center cw ?w"
    using half small by (simp_all add: center_h_def center_w_def tunnel_center_def img_h_def img_w_def)
  have c: "0 \<le> center_h" "center_h < 1073741824" "0 \<le> center_w" "center_w < 1073741824"
    using ch cw small by (auto simp: center tunnel_center_def)
  have out: "height (ih img) \<le> word_of_int center_h \<longleftrightarrow> int ?h \<le> center_h"
    "width (ih img) \<le> word_of_int center_w \<longleftrightarrow> int ?w \<le> center_w"
    using word_le_small [of center_h "height (ih img)"] word_le_small [of center_w "width (ih img)"] c
    by (simp_all add: img_h_def img_w_def)
  have "for_each (\<lambda>row. for_each (tunnel_cell lm strength radius center_h center_w img row) [0..<?w])
      [0..<?h] (replicate ?h (replicate ?w blank)) =
    Inr (tabulate ?h ?w (\<lambda>row col. let src = swirl lm strength radius center_h center_w ?h ?w row col
      in pixels img ! fst src ! snd src))"
    by (rule for_each_grid) (use tunnel_cell_ok [OF img lm s r c] in \<open>auto simp: Let_def\<close>)
  then have "tunnel_apply lm ch cw strength radius img =
     (if int ?h \<le> center_h then Inl (tunnel_error center_h)
     else if int ?w \<le> center_w then Inl (tunnel_error center_w)
     else Inr (swirled lm strength radius center_h center_w img))"
    using c out
    by (simp add: tunnel_apply_def Let_def swirled_def img_h_def img_w_def flip: center_h_def center_w_def)
  then show ?thesis by (simp add: center Let_def)
qed

subsection \<open>Filters as a contract, and the pipeline\<close>

text \<open>
  What \<open>ApplyFilters\<close> needs of the filters it calls: on a well-formed image with intensities in
  [0, 1] they run into no undefined behaviour and return such an image or throw
  \<open>ApplyFilterException\<close>. The pipeline then has the same contract.
\<close>

locale filter_chain =
  fixes app :: "'f \<Rightarrow> image \<Rightarrow> image res" and ok :: "'f \<Rightarrow> bool"
  assumes app_keeps: "ok f \<Longrightarrow> wf_img img \<Longrightarrow> unit_img img \<Longrightarrow> app f img = Inr img' \<Longrightarrow>
      wf_img img' \<and> unit_img img'"
    and app_throws: "ok f \<Longrightarrow> wf_img img \<Longrightarrow> unit_img img \<Longrightarrow> app f img = Inl e \<Longrightarrow>
      \<exists>m. e = ApplyFilterException m"
begin

lemma chain_keeps:
  "(\<forall>f \<in> set fs. ok f) \<Longrightarrow> wf_img img \<Longrightarrow> unit_img img \<Longrightarrow> for_each app fs img = Inr img' \<Longrightarrow>
    wf_img img' \<and> unit_img img'"
  by (rule for_each_invariant [where P = "\<lambda>i. wf_img i \<and> unit_img i"]) (auto dest: app_keeps)

lemma chain_throws:
  "(\<forall>f \<in> set fs. ok f) \<Longrightarrow> wf_img img \<Longrightarrow> unit_img img \<Longrightarrow> for_each app fs img = Inl e \<Longrightarrow>
    \<exists>m. e = ApplyFilterException m"
proof (induction fs arbitrary: img)
  case Nil
  then show ?case by simp
next
  case (Cons f fs)
  then show ?case
    by (auto simp: bnd_Inl_iff dest: app_throws app_keeps)
qed

end

text \<open>
  The filters the factories can build, any crop, a sigma of at most 999999999 and a tunnel with non-negative
  parameters of at most nine digits; and those among them that can be applied: a crop whose \<open>image_size\<close> is an
  \<open>int\<close> and a blur whose kernel can be computed.
\<close>

fun buildable :: "filter \<Rightarrow> bool" where
  "buildable (GaussianBlur s) \<longleftrightarrow> between 0 999999999 s"
| "buildable (Tunnel ch cw s r) \<longleftrightarrow> 0 \<le> ch \<and> ch \<le> 999999999 \<and> 0 \<le> cw \<and> cw \<le> 999999999 \<and>
     between 0 999999999 s \<and> between 0 999999999 r"
| "buildable f \<longleftrightarrow> True"

fun fits :: "filter \<Rightarrow> bool" where
  "fits (Crop w h) \<longleftrightarrow> - 2147483648 \<le> crop_image_size w h \<and> crop_image_size w h < 2147483648"
| "fits (GaussianBlur s) \<longleftrightarrow> blur_fits s"
| "fits f \<longleftrightarrow> True"

definition filter_ok :: "filter \<Rightarrow> bool" where
  "filter_ok f \<longleftrightarrow> buildable f \<and> fits f"

lemma tunnel_ok:
  assumes "wf_img img" and "unit_img img" and "libm_ok lm" and "buildable (Tunnel ch cw s r)"
  shows "(\<exists>img'. tunnel_apply lm ch cw s r img = Inr img' \<and> wf_img img' \<and> unit_img img') \<or>
    (\<exists>m. tunnel_apply lm ch cw s r img = Inl (ApplyFilterException m))"
proof -
  have "dims (img_h img) (img_w img) (pixels img)" using assms(1) by (simp add: wf_img_def)
  then have px: "r < img_h img \<Longrightarrow> c < img_w img \<Longrightarrow> unit_pixel (pixels img ! r ! c)" for r c
    using assms(2) by (blast intro: unit_img_nth)
  have "unit_img (swirled lm s r h w img)" for h w
    unfolding swirled_def Let_def using swirl_in_range by (intro unit_img_tabulate px) blast+
  moreover have "wf_img (swirled lm s r h w img)" for h w
    unfolding swirled_def by (rule wf_img_pixels [OF assms(1) dims_tabulate])
  ultimately show ?thesis
    using tunnel_apply_eq [OF assms(1,3), of s r ch cw] assms(4) by (auto simp: Let_def tunnel_error_def)
qed

lemma apply_filter_ok:
  assumes "libm_ok lm" and "filter_ok f" and "wf_img img" and "unit_img img"
  shows "(\<exists>img'. apply_filter lm f img = Inr img' \<and> wf_img img' \<and> unit_img img') \<or>
    (\<exists>m. apply_filter lm f img = Inl (ApplyFilterException m))"
proof (cases f)
  case (Crop w h)
  with assms crop_ok show ?thesis by (simp add: filter_ok_def)
next
  case Grayscale
  with grayscale_ok [OF assms(3)] show ?thesis by simp
next
  case Negative
  with negative_ok [OF assms(3,4)] show ?thesis by simp
next
  case Sharpening
  with multiply_wf [OF assms(3) odd_kernel_sharp] show ?thesis by (auto simp: sharpening_apply_def)
next
  case (EdgeDetection t)
  with edge_ok [OF assms(3)] show ?thesis by simp
next
  case (GaussianBlur s)
  with blur_ok [OF assms(3), of s lm] assms(2) show ?thesis by (auto simp: filter_ok_def)
next
  case (Tunnel ch cw s r)
  with tunnel_ok assms show ?thesis by (simp add: filter_ok_def)
qed

interpretation chain: filter_chain "apply_filter lm" "\<lambda>f. libm_ok lm \<and> filter_ok f" for lm
  by unfold_locales (use apply_filter_ok in fastforce)+

text \<open>A filter that does not fit is undefined on every image, and a chain stops at the first filter that fails.\<close>

lemma apply_filter_unfit:
  assumes "buildable f" and "\<not> fits f" and "wf_img img"
  shows "apply_filter lm f img = Inl Undefined"
proof (cases f)
  case (Crop w h)
  with assms(2) show ?thesis by (auto simp: crop_apply_def Let_def i32_def crop_image_size_def)
next
  case (GaussianBlur s)
  with assms blur_unfit show ?thesis by simp
qed (use assms(2) in simp_all)

fun reaches_unfit :: "libm \<Rightarrow> filter list \<Rightarrow> image \<Rightarrow> bool" where
  "reaches_unfit lm [] img = False"
| "reaches_unfit lm (f # fs) img \<longleftrightarrow>
     \<not> fits f \<or> (case apply_filter lm f img of Inl e \<Rightarrow> False | Inr img' \<Rightarrow> reaches_unfit lm fs img')"

lemma chain_undefined:
  assumes "libm_ok lm" and "\<forall>f \<in> set fs. buildable f" and "wf_img img" and "unit_img img"
  shows "(case apply_filters lm fs img of
      Inr img' \<Rightarrow> wf_img img' \<and> unit_img img'
    | Inl e \<Rightarrow> e = Undefined \<or> (\<exists>m. e = ApplyFilterException m)) \<and>
    (apply_filters lm fs img = Inl Undefined \<longleftrightarrow> reaches_unfit lm fs img)"
  using assms(2-4)
proof (induction fs arbitrary: img)
  case Nil
  then show ?case by (simp add: apply_filters_def)
next
  case (Cons f fs)
  have step: "apply_filters lm (f # fs) img = bnd (apply_filter lm f img) (apply_filters lm fs)"
    by (simp add: apply_filters_def bnd_def split: sum.split)
  show ?case
  proof (cases "fits f")
    case False
    with apply_filter_unfit [of f img lm] Cons.prems show ?thesis by (simp add: step)
  next
    case True
    with Cons.prems have "filter_ok f" by (simp add: filter_ok_def)
    from apply_filter_ok [OF assms(1) this Cons.prems(2,3)] show ?thesis
      using Cons.IH Cons.prems(1) True by (auto simp: step)
  qed
qed

subsection \<open>Properties\<close>

lemma flat_libm_ok: "libm_ok flat_libm"
  by (simp add: libm_ok_def flat_libm_def between_fin)

lemma between_9: "between 0 999999999 (dint 9)"
  using between_dint [of 9] by (auto elim: between_mono)

text \<open>
  C5: \<open>ApplyFilters\<close> with filters the factories can build, in any number and order, keeps images well-formed
  with intensities between zero and one, or throws an \<open>ApplyFilterException\<close>, or is undefined. It is undefined
  exactly when it reaches a filter that does not fit, the ones before it having succeeded: a crop whose \<open>image_size\<close>, or a
  blur the square of whose largest distance, is no \<open>int\<close>. In particular nothing else in any filter overflows
  or indexes out of range.
\<close>

theorem pipeline_safe:
  assumes "libm_ok lm" and "\<forall>f \<in> set fs. buildable f" and "wf_img img" and "unit_img img"
  shows "(case apply_filters lm fs img of
      Inr img' \<Rightarrow> wf_img img' \<and> unit_img img'
    | Inl e \<Rightarrow> e = Undefined \<or> (\<exists>m. e = ApplyFilterException m)) \<and>
    (apply_filters lm fs img = Inl Undefined \<longleftrightarrow> reaches_unfit lm fs img)"
  by (rule chain_undefined [OF assms])

theorem pipeline_safe_witness:
  "(case apply_filters flat_libm [Negative, Sharpening, Tunnel 1 1 (dint 9) (dint 9), Crop 1 1] sample_image of
      Inr img' \<Rightarrow> wf_img img' \<and> unit_img img'
    | Inl e \<Rightarrow> \<exists>m. e = ApplyFilterException m) \<and>
   apply_filters flat_libm [Negative, Crop 32767 32767, Sharpening] sample_image = Inl Undefined"
proof
  let ?fs = "[Negative, Sharpening, Tunnel 1 1 (dint 9) (dint 9), Crop 1 1]"
  have "\<not> reaches_unfit flat_libm ?fs sample_image"
    by (auto simp: crop_image_size_def c_div_def split: sum.split)
  with pipeline_safe [OF flat_libm_ok _ sample_image_wf sample_image_unit, of ?fs]
  show "case apply_filters flat_libm ?fs sample_image of
      Inr img' \<Rightarrow> wf_img img' \<and> unit_img img'
    | Inl e \<Rightarrow> \<exists>m. e = ApplyFilterException m"
    by (auto simp: between_9 split: sum.splits)
  have "reaches_unfit flat_libm [Negative, Crop 32767 32767, Sharpening] sample_image"
    by (simp add: crop_image_size_def c_div_def negative_apply_def)
  with pipeline_safe [OF flat_libm_ok _ sample_image_wf sample_image_unit, of "[Negative, Crop 32767 32767, Sharpening]"]
  show "apply_filters flat_libm [Negative, Crop 32767 32767, Sharpening] sample_image = Inl Undefined" by simp
qed

end
