(* ===== verification/Filter_Args.thy ===== *)
theory Filter_Args
  imports Image_Filters
begin

text \<open>
  \<open>image_processor/include/fabrics.h\<close> and \<open>src/fabrics.cpp\<close>: the checks on the textual parameters of
  a filter, and the factories that build the filters from them. \<open>std::isdigit\<close> is taken to be false for
  characters beyond ASCII, as the C libraries have it.
\<close>

subsection \<open>Checks\<close>

definition MaxIntegerLength :: nat where
  "MaxIntegerLength = 9"

definition arg_error :: "string \<Rightarrow> string \<Rightarrow> cpp_error" where
  "arg_error s what = ParserException (''The argument '' @ [CHR 34] @ s @ [CHR 34] @ what)"

definition IsInteger :: "string \<Rightarrow> unit res" where
  "IsInteger s =
    (if length s > MaxIntegerLength then Inl (arg_error s '' is too long'')
     else for_each (\<lambda>c _. if \<not> is_digit c then Inl (arg_error s '' is not integer'') else Inr ()) s ())"

text \<open>The loop counts the dots; the number is judged after it.\<close>

definition IsFloat :: "string \<Rightarrow> unit res" where
  "IsFloat s =
    (if length s > MaxIntegerLength then Inl (arg_error s '' is too long'')
     else bnd (for_each (\<lambda>c cnt_dots.
                if \<not> is_digit c \<and> c \<noteq> CHR ''.'' then Inl (arg_error s '' is not integer'')
                else Inr (if c = CHR ''.'' then cnt_dots + 1 else cnt_dots)) s (0::nat))
            (\<lambda>cnt_dots. if cnt_dots > 1 then Inl (arg_error s '' is not float'') else Inr ()))"

definition IsNotNull :: "string \<Rightarrow> unit res" where
  "IsNotNull s =
    (if list_ex (\<lambda>c. c \<noteq> CHR ''.'' \<and> c \<noteq> CHR ''0'') s then Inr () else Inl (arg_error s '' is null''))"

text \<open>
  \<open>std::atoi\<close> and \<open>std::atof\<close> on the strings the checks let through: digits, and digits around at
  most one dot; the decimal is rounded to the nearest double.
\<close>

definition atoi :: "string \<Rightarrow> int" where
  "atoi s = int (dec_val (takeWhile is_digit s))"

definition atof :: "string \<Rightarrow> double" where
  "atof s =
    (let whole = takeWhile is_digit s;
         frac = (case dropWhile is_digit s of c # t \<Rightarrow> if c = CHR ''.'' then takeWhile is_digit t else [] | [] \<Rightarrow> [])
     in dlit (int (dec_val (whole @ frac))) (10 ^ length frac))"

subsection \<open>Factories\<close>

text \<open>\<open>Crop\<close> takes \<open>int16_t\<close> parameters: the \<open>int\<close> of \<open>atoi\<close> is narrowed modulo \<open>2 ^ 16\<close>.\<close>

definition CropFabric_Make :: "string \<Rightarrow> string \<Rightarrow> filter res" where
  "CropFabric_Make w h =
    bnd (IsInteger h) (\<lambda>_. bnd (IsNotNull h) (\<lambda>_. bnd (IsInteger w) (\<lambda>_. bnd (IsNotNull w) (\<lambda>_.
      Inr (Crop (word_of_int (atoi w)) (word_of_int (atoi h)))))))"

definition GrayScaleFabric_Make :: "filter res" where
  "GrayScaleFabric_Make = Inr Grayscale"

definition NegativeFabric_Make :: "filter res" where
  "NegativeFabric_Make = Inr Negative"

definition SharpFabric_Make :: "filter res" where
  "SharpFabric_Make = Inr Sharpening"

definition EdgeFabric_Make :: "string \<Rightarrow> filter res" where
  "EdgeFabric_Make v = bnd (IsFloat v) (\<lambda>_. Inr (EdgeDetection (atof v)))"

definition BlurFabric_Make :: "string \<Rightarrow> filter res" where
  "BlurFabric_Make v = bnd (IsFloat v) (\<lambda>_. Inr (GaussianBlur (atof v)))"

definition TunnelFabric_Make :: "string \<Rightarrow> string \<Rightarrow> string \<Rightarrow> string \<Rightarrow> filter res" where
  "TunnelFabric_Make pixel_h pixel_w strongth radius =
    bnd (IsInteger pixel_h) (\<lambda>_. bnd (IsInteger pixel_w) (\<lambda>_.
    bnd (IsFloat strongth) (\<lambda>_. bnd (IsFloat radius) (\<lambda>_.
      Inr (Tunnel (atoi pixel_h) (atoi pixel_w) (atof strongth) (atof radius))))))"

subsection \<open>What the checks accept\<close>

definition dots :: "string \<Rightarrow> nat" where
  "dots s = count_list s (CHR ''.'')"

lemma check_loop:
  "for_each (\<lambda>c _. if \<not> P c then Inl e else Inr ()) s () = (if list_all P s then Inr () else Inl e)"
  by (induction s) simp_all

lemma IsInteger_iff: "IsInteger s = Inr () \<longleftrightarrow> length s \<le> 9 \<and> list_all is_digit s"
  by (simp add: IsInteger_def MaxIntegerLength_def check_loop)

lemma float_loop:
  "for_each (\<lambda>c cnt. if \<not> is_digit c \<and> c \<noteq> CHR ''.'' then Inl e
      else Inr (if c = CHR ''.'' then cnt + 1 else cnt)) s (n::nat) =
    (if list_all (\<lambda>c. is_digit c \<or> c = CHR ''.'') s then Inr (n + dots s) else Inl e)"
  by (induction s arbitrary: n) (auto simp: dots_def)

lemma IsFloat_iff:
  "IsFloat s = Inr () \<longleftrightarrow> length s \<le> 9 \<and> list_all (\<lambda>c. is_digit c \<or> c = CHR ''.'') s \<and> dots s \<le> 1"
  unfolding IsFloat_def float_loop MaxIntegerLength_def by auto

text \<open>Every rejection is a \<open>ParserException\<close>.\<close>

lemma check_errors:
  "IsInteger s = Inl e \<Longrightarrow> \<exists>m. e = ParserException m"
  "IsFloat s = Inl e \<Longrightarrow> \<exists>m. e = ParserException m"
  "IsNotNull s = Inl e \<Longrightarrow> \<exists>m. e = ParserException m"
  unfolding IsInteger_def IsFloat_def IsNotNull_def check_loop float_loop arg_error_def
  by (auto split: if_splits)

lemma takeWhile_all: "list_all P s \<Longrightarrow> takeWhile P s = s"
  by (induction s) simp_all

lemma atoi_bounds:
  assumes "IsInteger s = Inr ()"
  shows "0 \<le> atoi s" "atoi s \<le> 999999999"
proof -
  from assms have s: "length s \<le> 9" "list_all is_digit s" by (simp_all add: IsInteger_iff)
  then have "dec_val s < 10 ^ length s" by (intro dec_val_less)
  also have "\<dots> \<le> 10 ^ 9" using s(1) by (intro power_increasing) simp_all
  finally have "dec_val s \<le> 999999999" by simp
  then show "0 \<le> atoi s" "atoi s \<le> 999999999" by (simp_all add: atoi_def takeWhile_all [OF s(2)])
qed

lemma atoi_to_string: "atoi (to_string n) = int n"
  by (simp add: atoi_def takeWhile_all to_string_digits)

text \<open>A string \<open>IsInteger\<close> accepts and \<open>IsNotNull\<close> accepts is a positive number.\<close>

lemma dec_val_append: "dec_val (s @ t) = dec_val s * 10 ^ length t + dec_val t"
proof (induction t rule: rev_induct)
  case Nil
  show ?case by (simp add: dec_val_def)
next
  case (snoc c t)
  have "dec_val (u @ [c]) = 10 * dec_val u + digit_val c" for u by (simp add: dec_val_def)
  from this [of "s @ t"] this [of t] snoc show ?case by (simp add: algebra_simps)
qed

lemma dec_val_zero: "list_all is_digit s \<Longrightarrow> dec_val s = 0 \<longleftrightarrow> list_all (\<lambda>c. c = CHR ''0'') s"
proof (induction s rule: rev_induct)
  case Nil
  show ?case by (simp add: dec_val_def)
next
  case (snoc c s)
  have "digit_val c = 0 \<longleftrightarrow> c = CHR ''0''" if "is_digit c"
  proof
    assume "digit_val c = 0"
    with that have "(of_char c :: nat) = of_char (CHR ''0'')" by (simp add: digit_val_def is_digit_def)
    then show "c = CHR ''0''" by (simp only: of_char_eq_iff)
  qed (simp add: digit_val_def)
  with snoc show ?case by (auto simp: dec_val_append) (simp_all add: dec_val_def)
qed

lemma atoi_pos:
  assumes "IsInteger s = Inr ()" and "IsNotNull s = Inr ()"
  shows "0 < atoi s"
proof -
  from assms have s: "list_all is_digit s" and "\<not> list_all (\<lambda>c. c = CHR ''0'') s"
    by (auto simp: IsInteger_iff IsNotNull_def list_ex_iff list_all_iff split: if_splits)
  then have "dec_val s \<noteq> 0" by (simp add: dec_val_zero)
  then show ?thesis by (simp add: atoi_def takeWhile_all [OF s])
qed

lemma atof_bounds:
  assumes "IsFloat s = Inr ()"
  shows "between 0 999999999 (atof s)"
proof -
  define whole where "whole = takeWhile is_digit s"
  define frac where "frac = (case dropWhile is_digit s of c # t \<Rightarrow>
      if c = CHR ''.'' then takeWhile is_digit t else [] | [] \<Rightarrow> [])"
  have len: "length s = length whole + length (dropWhile is_digit s)"
    by (metis length_append takeWhile_dropWhile_id whole_def)
  have s9: "length s \<le> 9" using assms by (simp add: IsFloat_iff)
  have dig: "list_all is_digit whole" "list_all is_digit frac"
    by (auto simp: whole_def frac_def list_all_iff dest: set_takeWhileD split: list.splits if_splits)
  note w = dec_val_less [OF dig(1)] and f = dec_val_less [OF dig(2)]
  have "dec_val (whole @ frac) \<le> 999999999 * 10 ^ length frac"
  proof (cases "frac = []")
    case True
    have "(10::nat) ^ length whole \<le> 10 ^ 9" using len s9 by (intro power_increasing) simp_all
    with True w show ?thesis by simp
  next
    case False
    have "length frac < length (dropWhile is_digit s)"
    proof (cases "dropWhile is_digit s")
      case Nil
      with False show ?thesis by (simp add: frac_def)
    next
      case (Cons c t)
      with False show ?thesis by (auto simp: frac_def less_Suc_eq_le length_takeWhile_le split: if_splits)
    qed
    with len s9 have "(10::nat) ^ length whole \<le> 10 ^ 8" by (intro power_increasing) simp_all
    with w have "dec_val whole * 10 ^ length frac \<le> 99999999 * 10 ^ length frac"
      by (intro mult_right_mono) simp_all
    with f show ?thesis unfolding dec_val_append by linarith
  qed
  then have "int (dec_val (whole @ frac)) \<le> int (999999999 * 10 ^ length frac)"
    by (simp only: of_nat_le_iff)
  then show ?thesis
    by (simp add: atof_def Let_def flip: whole_def frac_def) (intro between_dlit; simp)
qed

lemmas check_bounds = atoi_bounds atoi_pos atof_bounds

subsection \<open>What the factories build\<close>

lemma Crop_Make_Inr:
  "CropFabric_Make w h = Inr f \<Longrightarrow>
    0 < atoi w \<and> atoi w \<le> 999999999 \<and> 0 < atoi h \<and> atoi h \<le> 999999999 \<and>
    f = Crop (word_of_int (atoi w)) (word_of_int (atoi h))"
  by (auto simp: CropFabric_Make_def bnd_Inr_iff intro: check_bounds)

lemma Tunnel_Make_Inr: "TunnelFabric_Make ph pw s r = Inr f \<Longrightarrow> filter_ok f"
  by (auto simp: TunnelFabric_Make_def bnd_Inr_iff filter_ok_def intro: check_bounds)

lemma Make_buildable:
  "CropFabric_Make w h = Inr f \<Longrightarrow> buildable f" "GrayScaleFabric_Make = Inr f \<Longrightarrow> buildable f"
  "NegativeFabric_Make = Inr f \<Longrightarrow> buildable f" "SharpFabric_Make = Inr f \<Longrightarrow> buildable f"
  "EdgeFabric_Make v = Inr f \<Longrightarrow> buildable f" "BlurFabric_Make v = Inr f \<Longrightarrow> buildable f"
  "TunnelFabric_Make ph pw s r = Inr f \<Longrightarrow> buildable f"
  using Tunnel_Make_Inr [of ph pw s r f]
  by (auto simp: CropFabric_Make_def GrayScaleFabric_Make_def NegativeFabric_Make_def SharpFabric_Make_def
      EdgeFabric_Make_def BlurFabric_Make_def filter_ok_def bnd_Inr_iff intro: check_bounds)

lemma Make_errors:
  "CropFabric_Make w h = Inl e \<Longrightarrow> \<exists>m. e = ParserException m"
  "EdgeFabric_Make v = Inl e \<Longrightarrow> \<exists>m. e = ParserException m"
  "BlurFabric_Make v = Inl e \<Longrightarrow> \<exists>m. e = ParserException m"
  "TunnelFabric_Make ph pw s r = Inl e \<Longrightarrow> \<exists>m. e = ParserException m"
  by (auto simp: CropFabric_Make_def EdgeFabric_Make_def BlurFabric_Make_def TunnelFabric_Make_def
      bnd_Inl_iff dest: check_errors)

lemma Crop_Make_checked:
  "IsInteger w = Inr () \<Longrightarrow> IsNotNull w = Inr () \<Longrightarrow> IsInteger h = Inr () \<Longrightarrow> IsNotNull h = Inr () \<Longrightarrow>
    CropFabric_Make w h = Inr (Crop (word_of_int (atoi w)) (word_of_int (atoi h)))"
  by (simp add: CropFabric_Make_def)

text \<open>
  What a crop request does in all cases. The two numbers are narrowed to 16 bits without a check; the new
  \<open>image_size\<close> is computed from the narrowed request, not from the resulting image.
\<close>

definition narrow16 :: "int \<Rightarrow> int" where
  "narrow16 x = (x + 32768) mod 65536 - 32768"

lemma sint_narrow16: "sint (word_of_int x :: i16) = narrow16 x"
  by (simp add: sint_uint uint_word_of_int signed_take_bit_eq_take_bit_shift take_bit_eq_mod narrow16_def mod_simps)

definition cropped_to :: "int \<Rightarrow> nat \<Rightarrow> nat" where
  "cropped_to b n = (if b < 0 then n else min (nat b) n)"

lemma crop_narrowed:
  assumes "CropFabric_Make w h = Inr f" and "wf_img img"
    and nw: "nw = narrow16 (atoi w)" and nh: "nh = narrow16 (atoi h)" and nbytes: "nbytes = nh * (c_div (nw * 3 + 3) 4 * 4)"
  shows "- 2147483648 \<le> nbytes \<Longrightarrow> nbytes < 2147483648 \<Longrightarrow>
      \<exists>img'. apply_filter lm f img = Inr img' \<and> wf_img img' \<and> fh img' = fh img \<and>
        ih img' = (ih img)\<lparr>height := of_nat (cropped_to nh (img_h img)), width := of_nat (cropped_to nw (img_w img)),
          image_size := word_of_int nbytes\<rparr> \<and>
        pixels img' = map (take (cropped_to nw (img_w img))) (take (cropped_to nh (img_h img)) (pixels img))"
    and "\<not> (- 2147483648 \<le> nbytes \<and> nbytes < 2147483648) \<Longrightarrow> apply_filter lm f img = Inl Undefined"
proof -
  let ?w = "word_of_int (atoi w) :: i16" and ?h = "word_of_int (atoi h) :: i16"
  have f: "f = Crop ?w ?h" using Crop_Make_Inr [OF assms(1)] by simp
  have s: "crop_image_size ?w ?h = nbytes" by (simp add: crop_image_size_def sint_narrow16 nw nh nbytes)
  have to: "crop_to ?w k = cropped_to nw k" "crop_to ?h k = cropped_to nh k" for k
    by (simp_all add: crop_to_def cropped_to_def sint_narrow16 nw nh)
  show "\<exists>img'. apply_filter lm f img = Inr img' \<and> wf_img img' \<and> fh img' = fh img \<and>
        ih img' = (ih img)\<lparr>height := of_nat (cropped_to nh (img_h img)), width := of_nat (cropped_to nw (img_w img)),
          image_size := word_of_int nbytes\<rparr> \<and>
        pixels img' = map (take (cropped_to nw (img_w img))) (take (cropped_to nh (img_h img)) (pixels img))"
    if "- 2147483648 \<le> nbytes" "nbytes < 2147483648"
  proof -
    from crop_apply_spec [OF assms(2), of ?w ?h] that obtain img' where img': "crop_apply ?w ?h img = Inr img'"
      "wf_img img'" "pixels img' = map (take (cropped_to nw (img_w img))) (take (cropped_to nh (img_h img)) (pixels img))"
      by (auto simp: s to)
    with crop_apply_headers [OF assms(2) img'(1)] show ?thesis by (intro exI [of _ img']) (simp add: f to s)
  qed
  show "apply_filter lm f img = Inl Undefined" if "\<not> (- 2147483648 \<le> nbytes \<and> nbytes < 2147483648)"
    using that s by (auto simp: f crop_apply_def Let_def i32_def crop_image_size_def)
qed

subsection \<open>Properties\<close>

text \<open>
  C17: the checks accept exactly what they are meant to: an integer is at most nine digits, a float at
  most nine digits and dots with at most one dot, a number is not null when something else than zeros and
  dots stands in it; every other string is a \<open>ParserException\<close>. What they accept converts without
  overflow: \<open>atoi\<close> returns the number the digits denote, at most 999999999 and positive when it is not null,
  and \<open>atof\<close> a finite double between zero and 999999999.
\<close>

theorem checks_exact:
  "(IsInteger s = Inr () \<longleftrightarrow> length s \<le> 9 \<and> list_all is_digit s) \<and>
   (IsFloat s = Inr () \<longleftrightarrow> length s \<le> 9 \<and> list_all (\<lambda>c. is_digit c \<or> c = CHR ''.'') s \<and> dots s \<le> 1) \<and>
   (IsNotNull s = Inr () \<longleftrightarrow> list_ex (\<lambda>c. c \<noteq> CHR ''.'' \<and> c \<noteq> CHR ''0'') s) \<and>
   (\<forall>e. IsInteger s = Inl e \<or> IsFloat s = Inl e \<or> IsNotNull s = Inl e \<longrightarrow> (\<exists>m. e = ParserException m)) \<and>
   (IsInteger s = Inr () \<longrightarrow> atoi s = int (dec_val s) \<and> atoi s \<le> 999999999 \<and> (IsNotNull s = Inr () \<longrightarrow> 0 < atoi s)) \<and>
   (IsFloat s = Inr () \<longrightarrow> between 0 999999999 (atof s))"
proof (intro conjI impI)
  show "IsNotNull s = Inr () \<longleftrightarrow> list_ex (\<lambda>c. c \<noteq> CHR ''.'' \<and> c \<noteq> CHR ''0'') s" by (simp add: IsNotNull_def)
  assume i: "IsInteger s = Inr ()"
  then show "atoi s = int (dec_val s)" by (simp add: IsInteger_iff atoi_def takeWhile_all)
  show "atoi s \<le> 999999999" by (rule check_bounds(2) [OF i])
  show "0 < atoi s" if "IsNotNull s = Inr ()" by (rule atoi_pos [OF i that])
qed (use IsInteger_iff [of s] IsFloat_iff [of s] check_errors [of s] atof_bounds [of s] in blast)+

theorem checks_exact_witness:
  "(\<exists>m. IsInteger ''12a'' = Inl (ParserException m)) \<and> 0 < atoi ''640'' \<and> atoi ''640'' \<le> 999999999 \<and>
    between 0 999999999 (atof ''2.5'')"
proof -
  have "IsInteger ''12a'' = Inl (arg_error ''12a'' '' is not integer'')" by code_simp
  then obtain e where e: "IsInteger ''12a'' = Inl e" by blast
  then have "\<exists>m. e = ParserException m" using checks_exact [of "''12a''"] by blast
  with e have 1: "\<exists>m. IsInteger ''12a'' = Inl (ParserException m)" by simp
  have "IsInteger ''640'' = Inr ()" "IsNotNull ''640'' = Inr ()" by code_simp+
  with checks_exact [of "''640''"] have 2: "0 < atoi ''640''" "atoi ''640'' \<le> 999999999" by blast+
  have "IsFloat ''2.5'' = Inr ()" by code_simp
  with checks_exact [of "''2.5''"] have "between 0 999999999 (atof ''2.5'')" by blast
  with 1 2 show ?thesis by simp
qed

end
