(* ===== verification/Arg_Parser.thy ===== *)
theory Arg_Parser
  imports Filter_Args
begin

text \<open>
  \<open>image_processor/include/parser.h\<close> and \<open>src/parser.cpp\<close>: the command line. \<open>argv\<close> is the list of
  the program's arguments, the program's name first, so \<open>argc\<close> is its length; the file system is a
  map from paths to its nodes.
\<close>

datatype fnode = Regular "u8 list" | Directory

type_synonym filesystem = "string \<Rightarrow> fnode option"

definition PathCheck :: "filesystem \<Rightarrow> string \<Rightarrow> unit res" where
  "PathCheck fs s =
    (case fs s of
       None \<Rightarrow> Inl (ParserException ''This file doesn't exist.'')
     | Some Directory \<Rightarrow> Inl (ParserException ''This path is bad'')
     | Some (Regular bs) \<Rightarrow> Inr ())"

text \<open>
  One turn of the loop: the filter the argument at \<open>cur\<close> asks for, if any, and the number of
  parameters it takes. An unknown name that starts with a dash is passed over.
\<close>

definition parse_step :: "string list \<Rightarrow> nat \<Rightarrow> (filter option \<times> nat) res" where
  "parse_step argv cur =
    (let argc = length argv; a = argv ! cur in
     if a = [] \<or> hd a \<noteq> CHR ''-''
     then Inl (ParserException (''Unknown parameter as '' @ to_string cur @ [CHR 39] @ ''s argument''))
     else if a = ''-crop'' then
       (if argc \<le> cur + 2 then Inl (ParserException ''Expected 2 arguments for -crop.'')
        else bnd (CropFabric_Make (argv ! (cur + 1)) (argv ! (cur + 2))) (\<lambda>f. Inr (Some f, 2)))
     else if a = ''-gs'' then bnd GrayScaleFabric_Make (\<lambda>f. Inr (Some f, 0))
     else if a = ''-neg'' then bnd NegativeFabric_Make (\<lambda>f. Inr (Some f, 0))
     else if a = ''-sharp'' then bnd SharpFabric_Make (\<lambda>f. Inr (Some f, 0))
     else if a = ''-edge'' then
       (if argc \<le> cur + 1 then Inl (ParserException (''Expected 1 arguments for -edge.'' @ [CHR 10]))
        else bnd (EdgeFabric_Make (argv ! (cur + 1))) (\<lambda>f. Inr (Some f, 1)))
     else if a = ''-blur'' then
       (if argc \<le> cur + 1 then Inl (ParserException (''Expected 1 arguments for -blur.'' @ [CHR 10]))
        else bnd (BlurFabric_Make (argv ! (cur + 1))) (\<lambda>f. Inr (Some f, 1)))
     else if a = ''-tunnel'' then
       (if argc \<le> cur + 4 then Inl (ParserException (''Expected 4 arguments for -tunnel.'' @ [CHR 10]))
        else bnd (TunnelFabric_Make (argv ! (cur + 1)) (argv ! (cur + 2)) (argv ! (cur + 3)) (argv ! (cur + 4)))
               (\<lambda>f. Inr (Some f, 4)))
     else Inr (None, 0))"

text \<open>The loop \<open>while (cur_arg < argc_)\<close>; \<open>filters\<close> is the vector the factories' results go to.\<close>

function parse_loop :: "string list \<Rightarrow> nat \<Rightarrow> filter list \<Rightarrow> filter list res" where
  "parse_loop argv cur filters =
    (if cur < length argv
     then bnd (parse_step argv cur) (\<lambda>(f, taken).
            parse_loop argv (cur + taken + 1)
              (case f of None \<Rightarrow> filters | Some f \<Rightarrow> filters @ [f]))
     else Inr filters)"
  by pat_completeness auto
termination
  by (relation "measure (\<lambda>(argv, cur, filters). length argv - cur)") auto

declare parse_loop.simps [simp del]

text \<open>
  \<open>Parser::Parse\<close>: without arguments the help text is printed and the program exits; otherwise the
  paths and the filters are kept.
\<close>

datatype parsed = Help | Parsed (get_input: string) (get_output: string) (get_filters: "filter list")

definition parse :: "filesystem \<Rightarrow> string list \<Rightarrow> parsed res" where
  "parse fs argv =
    (if length argv = 1 then Inr Help
     else if length argv < 3
     then Inl (ParserException (''Expected 2 or more arguments for this app.'' @ [CHR 10]))
     else bnd (PathCheck fs (argv ! 1)) (\<lambda>_.
          bnd (parse_loop argv 3 []) (\<lambda>filters. Inr (Parsed (argv ! 1) (argv ! 2) filters))))"

subsection \<open>The grammar the loop accepts\<close>

text \<open>
  A command line is a sequence of requests; \<open>render\<close> writes a request down and \<open>build\<close> is the filter
  it stands for.
\<close>

datatype request =
    RqCrop string string
  | RqGray
  | RqNeg
  | RqSharp
  | RqEdge string
  | RqBlur string
  | RqTunnel string string string string

fun render :: "request \<Rightarrow> string list" where
  "render (RqCrop w h) = [''-crop'', w, h]"
| "render RqGray = [''-gs'']"
| "render RqNeg = [''-neg'']"
| "render RqSharp = [''-sharp'']"
| "render (RqEdge v) = [''-edge'', v]"
| "render (RqBlur v) = [''-blur'', v]"
| "render (RqTunnel a b c d) = [''-tunnel'', a, b, c, d]"

fun build :: "request \<Rightarrow> filter res" where
  "build (RqCrop w h) = CropFabric_Make w h"
| "build RqGray = GrayScaleFabric_Make"
| "build RqNeg = NegativeFabric_Make"
| "build RqSharp = SharpFabric_Make"
| "build (RqEdge v) = EdgeFabric_Make v"
| "build (RqBlur v) = BlurFabric_Make v"
| "build (RqTunnel a b c d) = TunnelFabric_Make a b c d"

fun build_all :: "request list \<Rightarrow> filter list res" where
  "build_all [] = Inr []"
| "build_all (r # rs) = bnd (build r) (\<lambda>f. bnd (build_all rs) (\<lambda>fs. Inr (f # fs)))"

lemma parse_step_render:
  "parse_step (pre @ render r @ post) (length pre) =
    bnd (build r) (\<lambda>f. Inr (Some f, length (render r) - 1))"
  by (cases r) (simp_all add: parse_step_def nth_append eval_nat_numeral)

subsection \<open>Errors\<close>

lemma parse_step_error: "parse_step argv cur = Inl e \<Longrightarrow> \<exists>m. e = ParserException m"
  by (auto simp: parse_step_def Let_def bnd_Inl_iff GrayScaleFabric_Make_def NegativeFabric_Make_def
      SharpFabric_Make_def dest: Make_errors split: if_splits)

lemma parse_loop_error: "parse_loop argv cur fs = Inl e \<Longrightarrow> \<exists>m. e = ParserException m"
proof (induction argv cur fs rule: parse_loop.induct)
  case (1 argv cur fs)
  from "1.prems" show ?case
    by (subst (asm) parse_loop.simps)
      (auto simp: bnd_Inl_iff dest: parse_step_error "1.IH" split: if_splits)
qed

subsection \<open>Command lines with unknown options\<close>

text \<open>
  What the loop makes of a command line: a request, or an argument it passes over because it starts
  with a dash and is not the name of an option.
\<close>

datatype cmd_token = Request request | Ignored string

definition option_names :: "string list" where
  "option_names = [''-crop'', ''-gs'', ''-neg'', ''-sharp'', ''-edge'', ''-blur'', ''-tunnel'']"

fun token_ok :: "cmd_token \<Rightarrow> bool" where
  "token_ok (Request r) = True"
| "token_ok (Ignored a) = (a \<noteq> [] \<and> hd a = CHR ''-'' \<and> a \<notin> set option_names)"

fun render_token :: "cmd_token \<Rightarrow> string list" where
  "render_token (Request r) = render r"
| "render_token (Ignored a) = [a]"

fun requests_of :: "cmd_token list \<Rightarrow> request list" where
  "requests_of [] = []"
| "requests_of (Request r # ts) = r # requests_of ts"
| "requests_of (Ignored a # ts) = requests_of ts"

abbreviation command_line :: "string \<Rightarrow> string \<Rightarrow> string \<Rightarrow> cmd_token list \<Rightarrow> string list" where
  "command_line prog inp outp ts \<equiv> [prog, inp, outp] @ concat (map render_token ts)"

lemma parse_step_ignored:
  "token_ok (Ignored a) \<Longrightarrow> parse_step (pre @ a # post) (length pre) = Inr (None, 0)"
  by (auto simp: parse_step_def option_names_def)

lemma parse_loop_tokens:
  "list_all token_ok ts \<Longrightarrow> parse_loop (pre @ concat (map render_token ts)) (length pre) fs =
    bnd (build_all (requests_of ts)) (\<lambda>gs. Inr (fs @ gs))"
proof (induction ts arbitrary: pre fs)
  case Nil
  show ?case by (simp add: parse_loop.simps)
next
  case (Cons t ts)
  show ?case
  proof (cases t)
    case (Ignored a)
    with Cons.prems have "parse_step (pre @ a # concat (map render_token ts)) (length pre) = Inr (None, 0)"
      by (intro parse_step_ignored) simp
    with Ignored Cons.IH [of "pre @ [a]" fs] Cons.prems show ?thesis
      by (subst parse_loop.simps) simp
  next
    case (Request r)
    let ?argv = "pre @ render r @ concat (map render_token ts)"
    have len: "render r \<noteq> []" by (cases r) simp_all
    then have nxt: "Suc (length pre + (length (render r) - Suc 0)) = length pre + length (render r)"
      by (cases "render r") simp_all
    have "parse_loop ?argv (length pre) fs =
        bnd (build r) (\<lambda>f. parse_loop ?argv (length (pre @ render r)) (fs @ [f]))"
      using len by (subst parse_loop.simps) (simp add: parse_step_render bnd_assoc nxt)
    also have "\<dots> = bnd (build r) (\<lambda>f. bnd (build_all (requests_of ts)) (\<lambda>gs. Inr ((fs @ [f]) @ gs)))"
      using Cons.IH [of "pre @ render r"] Cons.prems by simp
    finally show ?thesis by (simp add: Request bnd_assoc)
  qed
qed

text \<open>Conversely, a turn of the loop that returns has passed over the arguments of one token.\<close>

lemma parse_step_token:
  assumes "parse_step argv cur = Inr (f, n)" and "cur < length argv"
  shows "\<exists>t. token_ok t \<and> drop cur argv = render_token t @ drop (Suc (cur + n)) argv \<and>
    build_all (requests_of [t]) = Inr (case f of None \<Rightarrow> [] | Some g \<Rightarrow> [g])"
proof -
  have nth: "drop k argv = argv ! k # drop (Suc k) argv" if "k < length argv" for k
    using that by (rule Cons_nth_drop_Suc [symmetric])
  consider "argv ! cur = ''-crop''" | "argv ! cur = ''-gs''" | "argv ! cur = ''-neg''"
    | "argv ! cur = ''-sharp''" | "argv ! cur = ''-edge''" | "argv ! cur = ''-blur''"
    | "argv ! cur = ''-tunnel''" | "argv ! cur \<notin> set option_names"
    by (auto simp: option_names_def)
  then show ?thesis
  proof cases
    case 1
    with assms show ?thesis
      by (intro exI [of _ "Request (RqCrop (argv ! (cur + 1)) (argv ! (cur + 2)))"])
        (auto simp: parse_step_def bnd_Inr_iff nth split: if_splits)
  next
    case 5
    with assms show ?thesis
      by (intro exI [of _ "Request (RqEdge (argv ! (cur + 1)))"])
        (auto simp: parse_step_def bnd_Inr_iff nth split: if_splits)
  next
    case 6
    with assms show ?thesis
      by (intro exI [of _ "Request (RqBlur (argv ! (cur + 1)))"])
        (auto simp: parse_step_def bnd_Inr_iff nth split: if_splits)
  next
    case 7
    with assms show ?thesis
      by (intro exI [of _ "Request (RqTunnel (argv ! (cur + 1)) (argv ! (cur + 2)) (argv ! (cur + 3)) (argv ! (cur + 4)))"])
        (auto simp: parse_step_def bnd_Inr_iff nth eval_nat_numeral split: if_splits)
  next
    case 8
    with assms show ?thesis
      by (intro exI [of _ "Ignored (argv ! cur)"])
        (auto simp: parse_step_def Let_def bnd_Inr_iff nth option_names_def split: if_splits)
  qed (use assms in \<open>intro exI [of _ "Request RqGray"] exI [of _ "Request RqNeg"] exI [of _ "Request RqSharp"],
        auto simp: parse_step_def bnd_Inr_iff nth\<close>)+
qed

lemma parse_step_taken: "parse_step argv cur = Inr (f, n) \<Longrightarrow> cur < length argv \<Longrightarrow> cur + n < length argv"
  by (auto simp: parse_step_def Let_def bnd_Inr_iff split: if_splits)

lemma build_all_cons_token:
  "build_all (requests_of (t # ts)) =
    bnd (build_all (requests_of [t])) (\<lambda>fs. bnd (build_all (requests_of ts)) (\<lambda>gs. Inr (fs @ gs)))"
  by (cases t) (simp_all add: bnd_assoc bnd_def split: sum.split)

lemma parse_loop_grammar:
  "parse_loop argv cur fs = Inr gs \<Longrightarrow> cur \<le> length argv \<Longrightarrow>
    \<exists>ts hs. list_all token_ok ts \<and> drop cur argv = concat (map render_token ts) \<and>
      build_all (requests_of ts) = Inr hs \<and> gs = fs @ hs"
proof (induction argv cur fs rule: parse_loop.induct)
  case (1 argv cur fs)
  show ?case
  proof (cases "cur < length argv")
    case False
    with "1.prems" show ?thesis
      by (subst (asm) parse_loop.simps) (auto intro!: exI [of _ "[]"])
  next
    case True
    with "1.prems"(1) obtain f n where step: "parse_step argv cur = Inr (f, n)"
      and rest: "parse_loop argv (cur + n + 1) (case f of None \<Rightarrow> fs | Some f \<Rightarrow> fs @ [f]) = Inr gs"
      by (subst (asm) parse_loop.simps) (auto simp: bnd_Inr_iff)
    from parse_step_token [OF step True] obtain t where t: "token_ok t"
      "drop cur argv = render_token t @ drop (Suc (cur + n)) argv"
      "build_all (requests_of [t]) = Inr (case f of None \<Rightarrow> [] | Some g \<Rightarrow> [g])" by blast
    have "cur + n + 1 \<le> length argv" using parse_step_taken [OF step True] by simp
    with "1.IH" [OF True step refl] rest obtain ts hs where ts: "list_all token_ok ts"
      "drop (cur + n + 1) argv = concat (map render_token ts)" "build_all (requests_of ts) = Inr hs"
      "gs = (case f of None \<Rightarrow> fs | Some f \<Rightarrow> fs @ [f]) @ hs" by blast
    from t ts show ?thesis
      by (intro exI [of _ "t # ts"]) (auto simp: build_all_cons_token [of t ts] split: option.splits)
  qed
qed

text \<open>The command lines that parse to filters, and nothing else does.\<close>

lemma parse_Parsed_iff:
  "parse fs argv = Inr (Parsed inp outp filters) \<longleftrightarrow>
    (\<exists>prog ts bs. argv = command_line prog inp outp ts \<and> fs inp = Some (Regular bs) \<and>
       list_all token_ok ts \<and> build_all (requests_of ts) = Inr filters)"
proof
  assume p: "parse fs argv = Inr (Parsed inp outp filters)"
  then have len: "3 \<le> length argv" and io: "argv ! 1 = inp" "argv ! 2 = outp"
    and loop: "parse_loop argv 3 [] = Inr filters"
    by (auto simp: parse_def bnd_Inr_iff split: if_splits)
  from p obtain bs where "fs inp = Some (Regular bs)"
    by (auto simp: parse_def bnd_Inr_iff PathCheck_def split: if_splits option.splits fnode.splits)
  moreover from len io have "argv = [argv ! 0, inp, outp] @ drop 3 argv"
    by (cases argv rule: remdups_adj.cases; cases "tl (tl argv)") (auto simp: numeral_3_eq_3)
  moreover from parse_loop_grammar [OF loop len] obtain ts where
    "list_all token_ok ts" "drop 3 argv = concat (map render_token ts)" "build_all (requests_of ts) = Inr filters"
    by auto
  ultimately show "\<exists>prog ts bs. argv = command_line prog inp outp ts \<and> fs inp = Some (Regular bs) \<and>
       list_all token_ok ts \<and> build_all (requests_of ts) = Inr filters" by metis
next
  assume "\<exists>prog ts bs. argv = command_line prog inp outp ts \<and> fs inp = Some (Regular bs) \<and>
       list_all token_ok ts \<and> build_all (requests_of ts) = Inr filters"
  then obtain prog ts bs where "argv = command_line prog inp outp ts" "fs inp = Some (Regular bs)"
    "list_all token_ok ts" "build_all (requests_of ts) = Inr filters" by blast
  with parse_loop_tokens [of ts "[prog, inp, outp]" "[]"] show "parse fs argv = Inr (Parsed inp outp filters)"
    by (simp add: parse_def PathCheck_def numeral_3_eq_3)
qed

lemma parse_error: "parse fs argv = Inl e \<Longrightarrow> \<exists>m. e = ParserException m"
  by (auto simp: parse_def bnd_Inl_iff PathCheck_def dest: parse_loop_error split: if_splits option.splits
      fnode.splits)

subsection \<open>Properties\<close>

text \<open>
  C6: a command line made of filter requests and of unknown options that start with a dash is parsed to
  exactly the filters the factories build for the requests, in order, and the first factory that rejects
  its parameters decides the error; the two paths are kept as they are.
\<close>

theorem parse_requests:
  assumes "fs inp = Some (Regular bs)" and "list_all token_ok ts"
  shows "parse fs ([prog, inp, outp] @ concat (map render_token ts)) =
    bnd (build_all (requests_of ts)) (\<lambda>filters. Inr (Parsed inp outp filters))"
  using parse_loop_tokens [of ts "[prog, inp, outp]" "[]"] assms
  by (simp add: parse_def PathCheck_def numeral_3_eq_3 bnd_assoc)

theorem parse_requests_witness:
  "parse [''a.bmp'' \<mapsto> Regular []]
      ([''app'', ''a.bmp'', ''b.bmp''] @
        concat (map render_token [Request RqNeg, Ignored ''-v'', Request (RqEdge ''0.1''), Request (RqCrop ''800'' ''x'')])) =
    bnd (build_all [RqNeg, RqEdge ''0.1'', RqCrop ''800'' ''x''])
      (\<lambda>filters. Inr (Parsed ''a.bmp'' ''b.bmp'' filters))"
  using parse_requests [of "[''a.bmp'' \<mapsto> Regular []]" "''a.bmp''" "[]"
      "[Request RqNeg, Ignored ''-v'', Request (RqEdge ''0.1''), Request (RqCrop ''800'' ''x'')]" "''app''" "''b.bmp''"]
  by (simp add: option_names_def)

text \<open>
  C7: the grammar of the command line, for every list of arguments. Filters come out exactly when the
  input path names a regular file and the arguments after the two paths are a sequence of complete
  requests and skipped unknown options, all of whose requests the factories accept; the help text comes
  out exactly when there are no arguments; everything else is a \<open>ParserException\<close>.
\<close>

theorem parse_grammar:
  "(parse fs argv = Inr (Parsed inp outp filters) \<longleftrightarrow>
      (\<exists>prog ts bs. argv = [prog, inp, outp] @ concat (map render_token ts) \<and> fs inp = Some (Regular bs) \<and>
         list_all token_ok ts \<and> build_all (requests_of ts) = Inr filters)) \<and>
   (parse fs argv = Inr Help \<longleftrightarrow> length argv = 1) \<and>
   (parse fs argv = Inl e \<longrightarrow> (\<exists>m. e = ParserException m))"
  using parse_Parsed_iff [of fs argv inp outp filters] parse_error [of fs argv e]
  by (auto simp: parse_def bnd_Inr_iff split: if_splits)

theorem parse_grammar_witness:
  "\<exists>m. parse [''a.bmp'' \<mapsto> Regular []] [''app'', ''a.bmp'', ''b.bmp'', ''neg''] = Inl (ParserException m)"
proof -
  have "\<exists>e. parse [''a.bmp'' \<mapsto> Regular []] [''app'', ''a.bmp'', ''b.bmp'', ''neg''] = Inl e"
    by (simp add: parse_def PathCheck_def parse_loop.simps parse_step_def)
  then show ?thesis using parse_grammar by blast
qed

end
