(* ===== verification/Image_Processor.thy ===== *)
theory Image_Processor
  imports Bmp_Roundtrip Arg_Parser
begin

text \<open>
  \<open>image_processor/image_processor.cpp\<close> and \<open>src/handler.cpp\<close>: the program, as a function of the file
  system and the command line. A run ends with the new file system, what was printed and what went to
  the error stream, or is undefined.
\<close>

datatype run =
    Finished (files: filesystem) (printed: string) (errors: string)
  | Undefined_run

definition newline :: string where
  "newline = [CHR 10]"

definition HELP_INFO :: string where
  "HELP_INFO =
    ''Well,'' @ newline @
    ''1. -crop <int> <int> : crops the photo to height as the first parameter and to width'' @ newline @
    ''as the second parameter.'' @ newline @
    ''2. -gs : renders the photo to black and white.'' @ newline @
    ''3. -neg : makes a negative of the photo.'' @ newline @
    ''4. -sharp : improves a contrast of the photo.'' @ newline @
    ''5. -edge <double> : highlights borders with using the '' @ [CHR 34] @ ''sensibility'' @ [CHR 34] @
    '' as the parameter.'' @ newline @
    ''6. -blur <double> : blurs the photo with using the '' @ [CHR 34] @ ''sensibility'' @ [CHR 34] @
    '' as the parameter.'' @ newline @
    ''7. -tunnel <int> <int> <double> <double> : rotate pixels around a pixel with coords'' @ newline @
    ''as the first parameter for x and the second parameter for y with strength as the third'' @ newline @
    ''parameter and radius as the fourth parameter. You can write 0 0 as first ans second'' @ newline @
    ''parameter it will mean center of the photo.'' @
    ''!!!ATTENTION: USE ONLY NON-NEGATIVE NUMBERS!!!''"

text \<open>
  What the operating system allows: which paths can be opened for reading and which for writing. A
  directory is never written to; a path that names nothing is created.
\<close>

record access =
  may_read :: "string \<Rightarrow> bool"
  may_write :: "string \<Rightarrow> bool"

definition contents :: "access \<Rightarrow> filesystem \<Rightarrow> string \<Rightarrow> u8 list option" where
  "contents os fs p = (case fs p of Some (Regular bs) \<Rightarrow> if may_read os p then Some bs else None | _ \<Rightarrow> None)"

definition writable :: "access \<Rightarrow> filesystem \<Rightarrow> string \<Rightarrow> bool" where
  "writable os fs p \<longleftrightarrow> fs p \<noteq> Some Directory \<and> may_write os p"

text \<open>The two handlers of \<open>main\<close>; an undefined execution reaches neither.\<close>

definition report :: "filesystem \<Rightarrow> cpp_error \<Rightarrow> run" where
  "report fs e = (case e of Undefined \<Rightarrow> Undefined_run | _ \<Rightarrow> Finished fs [] (error_what e @ newline))"

definition process_file :: "libm \<Rightarrow> access \<Rightarrow> filesystem \<Rightarrow> string \<Rightarrow> string \<Rightarrow> filter list \<Rightarrow> u8 list res" where
  "process_file lm os fs input output filters =
    bnd (ReadFile input (contents os fs input)) (\<lambda>img.
    bnd (apply_filters lm filters img) (\<lambda>img.
      WriteFile img (writable os fs output)))"

definition main :: "libm \<Rightarrow> access \<Rightarrow> filesystem \<Rightarrow> string list \<Rightarrow> run" where
  "main lm os fs argv =
    (case parse fs argv of
       Inl e \<Rightarrow> report fs e
     | Inr Help \<Rightarrow> Finished fs HELP_INFO []
     | Inr (Parsed input output filters) \<Rightarrow>
         (case process_file lm os fs input output filters of
            Inl e \<Rightarrow> report fs e
          | Inr bs \<Rightarrow> Finished (fs(output \<mapsto> Regular bs)) [] []))"

subsection \<open>The filters keep the format\<close>

lemma multiply_headers: "multiply k img = Inr img' \<Longrightarrow> fh img' = fh img \<and> ih img' = ih img"
  by (auto simp: multiply_def bnd_Inr_iff Let_def)

definition same_format :: "image \<Rightarrow> image \<Rightarrow> bool" where
  "same_format img img' \<longleftrightarrow> (accepted (fh img') (ih img') \<longleftrightarrow> accepted (fh img) (ih img))"

lemma apply_filter_format: "apply_filter lm f img = Inr img' \<Longrightarrow> same_format img img'"
  by (cases f)
    (auto simp: same_format_def accepted_def crop_apply_def crop_rows_def crop_cols_def Let_def bnd_Inr_iff
      grayscale_apply_def negative_apply_def sharpening_apply_def edge_apply_def blur_apply_def
      tunnel_apply_def dest!: multiply_headers split: if_splits)

lemma apply_filters_format: "apply_filters lm fs img = Inr img' \<Longrightarrow> same_format img img'"
  unfolding apply_filters_def
  by (rule for_each_invariant [where P = "same_format img"])
    (auto dest: apply_filter_format simp: same_format_def)


subsection \<open>Which runs are undefined\<close>

text \<open>The parser returns only filters of the factories.\<close>

lemma parse_step_buildable: "parse_step argv cur = Inr (Some f, n) \<Longrightarrow> buildable f"
  by (auto simp: parse_step_def Let_def bnd_Inr_iff dest: Make_buildable split: if_splits)

lemma parse_loop_buildable:
  "parse_loop argv cur fs = Inr fs' \<Longrightarrow> \<forall>f \<in> set fs. buildable f \<Longrightarrow> \<forall>f \<in> set fs'. buildable f"
proof (induction argv cur fs rule: parse_loop.induct)
  case (1 argv cur fs)
  show ?case
  proof (cases "cur < length argv")
    case False
    with "1.prems" show ?thesis by (subst (asm) parse_loop.simps) simp
  next
    case True
    with "1.prems"(1) obtain f n where step: "parse_step argv cur = Inr (f, n)"
      and rest: "parse_loop argv (cur + n + 1) (case f of None \<Rightarrow> fs | Some f \<Rightarrow> fs @ [f]) = Inr fs'"
      by (subst (asm) parse_loop.simps) (auto simp: bnd_Inr_iff)
    from parse_step_buildable step "1.prems"(2)
    have "\<forall>f \<in> set (case f of None \<Rightarrow> fs | Some f \<Rightarrow> fs @ [f]). buildable f" by (auto split: option.split)
    from "1.IH" [OF True step refl rest this] show ?thesis .
  qed
qed

lemma parse_buildable: "parse fs argv = Inr (Parsed input output filters) \<Longrightarrow> \<forall>f \<in> set filters. buildable f"
  by (auto simp: parse_def bnd_Inr_iff dest: parse_loop_buildable split: if_splits)

text \<open>
  The only bound on the input: fewer than \<open>2 ^ 30\<close> rows, and no oversized width in a header without rows.
\<close>

definition sized_input :: "access \<Rightarrow> filesystem \<Rightarrow> string list \<Rightarrow> bool" where
  "sized_input os fs argv \<longleftrightarrow>
    (\<forall>input output filters f i bs. parse fs argv = Inr (Parsed input output filters) \<longrightarrow>
       contents os fs input = Some (header_bytes f i @ bs) \<longrightarrow>
       unat (height i) < 1073741824 \<and> (row_bytes_fit i \<or> 0 < height i))"

text \<open>
  A request that runs into undefined behaviour: the file is accepted, and its rows are too wide or the
  chain reaches a filter that does not fit.
\<close>

definition undefined_request :: "libm \<Rightarrow> access \<Rightarrow> filesystem \<Rightarrow> string list \<Rightarrow> bool" where
  "undefined_request lm os fs argv \<longleftrightarrow>
    (\<exists>input output filters f i bs. parse fs argv = Inr (Parsed input output filters) \<and>
       contents os fs input = Some (header_bytes f i @ bs) \<and> accepted f i \<and>
       (\<not> row_bytes_fit i \<or> reaches_unfit lm filters (loaded f i bs)))"

lemma header_bytes_inj:
  assumes "header_bytes f i @ r = header_bytes f' i' @ r'"
  shows "f = f' \<and> i = i' \<and> r = r'"
proof -
  let ?s = "\<lambda>f i r. file_header_bytes f @ (info_header_bytes i @ r)"
  have eq: "?s f i r = ?s f' i' r'" using assms by (simp add: header_bytes_def)
  have "(f, open_in (info_header_bytes i @ r)) = (f', open_in (info_header_bytes i' @ r'))"
    by (rule trans [OF ReadFileHeader_written [of no_file_header, symmetric]], subst eq)
      (rule ReadFileHeader_written)
  then have f: "f = f'" and i: "info_header_bytes i @ r = info_header_bytes i' @ r'"
    by (auto simp only: open_in_def prod.inject istream.simps)
  have "(i, open_in r) = (i', open_in r')"
    by (rule trans [OF ReadInfoHeader_written [of no_info_header, symmetric]], subst i)
      (rule ReadInfoHeader_written)
  with f show ?thesis by (simp add: open_in_def)
qed

text \<open>
  What \<open>process_file\<close> can come to: an exception, undefined behaviour for one of these two reasons, or the bytes of
  a well-formed image.
\<close>

lemma process_file_cases:
  assumes lm: "libm_ok lm" and fs: "\<forall>f \<in> set filters. buildable f"
    and small: "\<forall>f i bs. contents os fs input = Some (header_bytes f i @ bs) \<longrightarrow>
      unat (height i) < 1073741824 \<and> (row_bytes_fit i \<or> 0 < height i)"
  shows "case process_file lm os fs input output filters of
      Inr bytes \<Rightarrow> (\<exists>img. bytes = bmp_bytes img \<and> wf_img img \<and> unit_img img \<and> accepted (fh img) (ih img)) \<and>
        \<not> (\<exists>f i bs. contents os fs input = Some (header_bytes f i @ bs) \<and> accepted f i \<and>
          (\<not> row_bytes_fit i \<or> reaches_unfit lm filters (loaded f i bs)))
    | Inl e \<Rightarrow> e = Undefined \<longleftrightarrow> (\<exists>f i bs. contents os fs input = Some (header_bytes f i @ bs) \<and> accepted f i \<and>
          (\<not> row_bytes_fit i \<or> reaches_unfit lm filters (loaded f i bs)))"
proof (cases "\<exists>bytes. contents os fs input = Some bytes \<and> 54 \<le> length bytes")
  case False
  then have none: "\<not> (\<exists>f i bs. contents os fs input = Some (header_bytes f i @ bs))" by auto
  from False have "\<exists>m. process_file lm os fs input output filters = Inl (ReadImageException m)"
    by (auto simp: process_file_def ReadFile_def split: option.splits)
  with none show ?thesis by auto
next
  case True
  then obtain f i bs where given: "contents os fs input = Some (header_bytes f i @ bs)" using header_decode by blast
  have only: "(\<exists>f' i' bs'. contents os fs input = Some (header_bytes f' i' @ bs') \<and> P f' i' bs') \<longleftrightarrow> P f i bs" for P
    using header_bytes_inj given by auto
  have bound: "unat (height i) < 1073741824" "row_bytes_fit i \<or> 0 < height i" using small given by blast+
  show ?thesis
  proof (cases "accepted f i \<and> row_bytes_fit i")
    case False
    then have "process_file lm os fs input output filters = Inl Undefined \<and> accepted f i \<or>
        (\<exists>m. process_file lm os fs input output filters = Inl (ReadImageException m)) \<and> \<not> accepted f i"
      using ReadFile_rejected [of f i input bs] ReadFile_oversized [of f i input bs] bound
      by (cases "accepted f i") (auto simp: process_file_def given row_bytes_fit_def)
    with False show ?thesis unfolding only by auto
  next
    case True
    let ?img = "loaded f i bs"
    have img: "wf_img ?img" "unit_img ?img" using wf_img_loaded True bound by simp_all
    have run: "process_file lm os fs input output filters =
        bnd (apply_filters lm filters ?img) (\<lambda>img. WriteFile img (writable os fs output))"
      using True by (simp add: process_file_def given ReadFile_loaded)
    note chain = chain_undefined [OF lm fs img]
    show ?thesis
    proof (cases "apply_filters lm filters ?img")
      case (Inl e)
      with chain True show ?thesis unfolding only by (auto simp: run)
    next
      case (Inr img')
      with chain have img': "wf_img img'" "unit_img img'" "\<not> reaches_unfit lm filters ?img" by auto
      then have "row_bytes_fit (ih img')" by (simp add: wf_img_def row_bytes_fit_def img_w_def)
      with img' have w: "WriteFile img' True = Inr (bmp_bytes img')" by (intro WriteFile_eq)
      have "accepted (fh img') (ih img')"
        using apply_filters_format [OF Inr] True by (simp add: same_format_def)
      with img' w Inr True show ?thesis unfolding only
        by (cases "writable os fs output") (auto simp: run WriteFile_def)
    qed
  qed
qed

text \<open>
  A run ends with a message and the file system untouched, or with one file written; that file is a
  BMP image the program itself reads back.
\<close>

definition readable_image :: "u8 list \<Rightarrow> bool" where
  "readable_image bs \<longleftrightarrow> (\<exists>img. \<forall>path. ReadFile path (Some bs) = Inr img)"

lemma main_outcome:
  assumes "libm_ok lm" and "sized_input os fs argv"
  shows "if undefined_request lm os fs argv then main lm os fs argv = Undefined_run
    else (\<exists>msg. main lm os fs argv = Finished fs [] (msg @ newline)) \<or>
      main lm os fs argv = Finished fs HELP_INFO [] \<or>
      (\<exists>inp outp filters bs. parse fs argv = Inr (Parsed inp outp filters) \<and> readable_image bs \<and>
         main lm os fs argv = Finished (fs(outp \<mapsto> Regular bs)) [] [])"
proof (cases "parse fs argv")
  case (Inl e)
  then have "e \<noteq> Undefined"
    by (auto simp: parse_def bnd_Inl_iff PathCheck_def dest: parse_loop_error split: if_splits option.splits
        fnode.splits)
  with Inl show ?thesis by (cases e) (auto simp: main_def report_def undefined_request_def)
next
  case (Inr p)
  show ?thesis
  proof (cases p)
    case Help
    with Inr show ?thesis by (simp add: main_def undefined_request_def)
  next
    case (Parsed inp outp filters)
    with Inr have parse: "parse fs argv = Inr (Parsed inp outp filters)" by simp
    have small: "\<forall>f i bs. contents os fs inp = Some (header_bytes f i @ bs) \<longrightarrow>
        unat (height i) < 1073741824 \<and> (row_bytes_fit i \<or> 0 < height i)"
      using assms(2) parse unfolding sized_input_def by blast
    note process = process_file_cases [OF assms(1) parse_buildable [OF parse] small, of outp]
    have undefined: "undefined_request lm os fs argv \<longleftrightarrow>
        (\<exists>f i bs. contents os fs inp = Some (header_bytes f i @ bs) \<and> accepted f i \<and>
          (\<not> row_bytes_fit i \<or> reaches_unfit lm filters (loaded f i bs)))"
      by (auto simp: undefined_request_def parse)
    have readable: "readable_image (bmp_bytes img)" if "wf_img img" "accepted (fh img) (ih img)" for img
      unfolding readable_image_def using write_read [OF that(1) _ that(2)] that(1)
      by (auto simp: wf_img_def row_bytes_fit_def img_w_def)
    show ?thesis
    proof (cases "process_file lm os fs inp outp filters")
      case (Inl e)
      with process parse show ?thesis unfolding undefined by (cases e) (auto simp: main_def report_def)
    next
      case (Inr bytes)
      with process obtain img where img: "bytes = bmp_bytes img" "wf_img img" "accepted (fh img) (ih img)"
        and "\<not> undefined_request lm os fs argv" unfolding undefined by auto
      moreover have "main lm os fs argv = Finished (fs(outp \<mapsto> Regular bytes)) [] []"
        using Inr parse by (simp add: main_def)
      ultimately show ?thesis using parse readable [OF img(2,3)] unfolding img(1) by (simp only: if_False) blast
    qed
  qed
qed

subsection \<open>Properties\<close>

text \<open>A file of one pixel, and a file system that holds it.\<close>

definition tiny_bmp :: "u8 list" where
  "tiny_bmp = header_bytes (fst (sample_headers 1 1)) (snd (sample_headers 1 1)) @ [10, 20, 30, 0]"

definition free_access :: access where
  "free_access = \<lparr>may_read = (\<lambda>p. True), may_write = (\<lambda>p. True)\<rparr>"

definition tiny_fs :: filesystem where
  "tiny_fs = [''a.bmp'' \<mapsto> Regular tiny_bmp]"

lemma tiny_sized: "sized_input free_access tiny_fs (''app'' # ''a.bmp'' # args)"
proof -
  have "unat (height i) < 1073741824 \<and> (row_bytes_fit i \<or> 0 < height i)"
    if "contents free_access tiny_fs ''a.bmp'' = Some (header_bytes f i @ bs)" for f i bs
  proof -
    have "header_bytes (fst (sample_headers 1 1)) (snd (sample_headers 1 1)) @ [10, 20, 30, 0] = header_bytes f i @ bs"
      using that by (simp add: contents_def free_access_def tiny_fs_def tiny_bmp_def)
    from header_bytes_inj [OF this] show ?thesis by (auto simp: sample_headers_def)
  qed
  then show ?thesis by (auto simp: sized_input_def parse_def bnd_Inr_iff split: if_splits)
qed

text \<open>
  C1: what a run of the program can come to, for every file system, access rights and command line, with a
  file of fewer than \<open>2 ^ 30\<close> rows. The run is undefined exactly when the file is accepted and either its rows
  are wider than 715827882 pixels or the chain of filters reaches a crop or a blur that does not fit. Every
  other run ends with a message on the error stream and the file system untouched, with the help text, or
  with exactly one file written, and that file is an image the program reads back.
\<close>

theorem main_safe:
  assumes "libm_ok lm" and "sized_input os fs argv"
  shows "if undefined_request lm os fs argv then main lm os fs argv = Undefined_run
    else (\<exists>msg. main lm os fs argv = Finished fs [] (msg @ newline)) \<or>
      main lm os fs argv = Finished fs HELP_INFO [] \<or>
      (\<exists>input output filters bs. parse fs argv = Inr (Parsed input output filters) \<and> readable_image bs \<and>
         main lm os fs argv = Finished (fs(output \<mapsto> Regular bs)) [] [])"
  by (rule main_outcome [OF assms])

text \<open>One run without filters and one with a blur that does not fit.\<close>

theorem main_safe_witness:
  "((\<exists>msg. main flat_libm free_access tiny_fs [''app'', ''a.bmp'', ''b.bmp''] = Finished tiny_fs [] (msg @ newline)) \<or>
    main flat_libm free_access tiny_fs [''app'', ''a.bmp'', ''b.bmp''] = Finished tiny_fs HELP_INFO [] \<or>
    (\<exists>input output filters bs.
       parse tiny_fs [''app'', ''a.bmp'', ''b.bmp''] = Inr (Parsed input output filters) \<and> readable_image bs \<and>
       main flat_libm free_access tiny_fs [''app'', ''a.bmp'', ''b.bmp''] = Finished (tiny_fs(output \<mapsto> Regular bs)) [] [])) \<and>
   main flat_libm free_access tiny_fs [''app'', ''a.bmp'', ''b.bmp'', ''-blur'', ''30000''] = Undefined_run"
proof
  let ?f = "fst (sample_headers 1 1)" and ?i = "snd (sample_headers 1 1)"
  have tiny: "contents free_access tiny_fs ''a.bmp'' = Some (header_bytes ?f ?i @ [10, 20, 30, 0])"
    by (simp add: contents_def free_access_def tiny_fs_def tiny_bmp_def)
  have ok: "accepted ?f ?i" "row_bytes_fit ?i" by (simp_all add: sample_headers_def accepted_def row_bytes_fit_def)
  have plain: "parse tiny_fs [''app'', ''a.bmp'', ''b.bmp''] = Inr (Parsed ''a.bmp'' ''b.bmp'' [])"
    by (simp add: parse_def PathCheck_def tiny_fs_def parse_loop.simps)
  have "\<not> undefined_request flat_libm free_access tiny_fs [''app'', ''a.bmp'', ''b.bmp'']"
    using header_bytes_inj [of ?f ?i "[10, 20, 30, 0]"] ok by (auto simp: undefined_request_def plain tiny)
  with main_safe [OF flat_libm_ok tiny_sized, of "[''b.bmp'']"]
  show "(\<exists>msg. main flat_libm free_access tiny_fs [''app'', ''a.bmp'', ''b.bmp''] = Finished tiny_fs [] (msg @ newline)) \<or>
    main flat_libm free_access tiny_fs [''app'', ''a.bmp'', ''b.bmp''] = Finished tiny_fs HELP_INFO [] \<or>
    (\<exists>input output filters bs.
       parse tiny_fs [''app'', ''a.bmp'', ''b.bmp''] = Inr (Parsed input output filters) \<and> readable_image bs \<and>
       main flat_libm free_access tiny_fs [''app'', ''a.bmp'', ''b.bmp''] = Finished (tiny_fs(output \<mapsto> Regular bs)) [] [])"
    by (simp only: if_False)
  have float: "IsFloat ''30000'' = Inr ()" and sz: "blur_size (dlit 30000 1) = Inr 120001" "\<not> deq (dlit 30000 1) d0"
    by code_simp+
  have num: "atof ''30000'' = dlit 30000 1" by (simp add: atof_def dec_val_def digit_val_def is_digit_def)
  have blur: "parse tiny_fs [''app'', ''a.bmp'', ''b.bmp'', ''-blur'', ''30000''] =
      Inr (Parsed ''a.bmp'' ''b.bmp'' [GaussianBlur (dlit 30000 1)])"
    by (simp add: parse_def PathCheck_def tiny_fs_def parse_loop.simps parse_step_def BlurFabric_Make_def float num)
  have "undefined_request flat_libm free_access tiny_fs [''app'', ''a.bmp'', ''b.bmp'', ''-blur'', ''30000'']"
    unfolding undefined_request_def blur using tiny ok by (auto simp: blur_fits_def sz)
  with main_safe [OF flat_libm_ok tiny_sized, of "[''b.bmp'', ''-blur'', ''30000'']"]
  show "main flat_libm free_access tiny_fs [''app'', ''a.bmp'', ''b.bmp'', ''-blur'', ''30000''] = Undefined_run"
    by (simp only: if_True)
qed

end
