(* ===== verification/Image_Requests.thy ===== *)
theory Image_Requests
  imports Image_Processor
begin

text \<open>
  Whole runs of the image processor with at most one request, from the bytes of the input file to those of
  the output file: \<open>-neg\<close>, \<open>-crop\<close> and \<open>-edge\<close>. A file holds the rows from the bottom of the picture to its top.
\<close>

subsection \<open>From the input file to the output file\<close>

text \<open>The rows of the file.\<close>

definition file_row :: "info_header \<Rightarrow> u8 list \<Rightarrow> nat \<Rightarrow> u8 list" where
  "file_row i bs j = take (row_len i) (drop (j * row_len i) bs)"

text \<open>A file the program accepts, with rows that can be indexed and all of them present.\<close>

definition good_file :: "access \<Rightarrow> filesystem \<Rightarrow> string \<Rightarrow> file_header \<Rightarrow> info_header \<Rightarrow> u8 list \<Rightarrow> bool" where
  "good_file os fs input f i bs \<longleftrightarrow>
     fs input = Some (Regular (header_bytes f i @ bs)) \<and> may_read os input \<and> accepted f i \<and> row_bytes_fit i \<and>
     unat (height i) < 1073741824 \<and> unat (height i) * row_len i \<le> length bs"

lemma loaded_wf: "good_file os fs input f i bs \<Longrightarrow> wf_img (loaded f i bs)"
  by (simp add: good_file_def wf_img_loaded)

lemma loaded_row:
  assumes "good_file os fs input f i bs" and "r < unat (height i)"
  shows "pixels (loaded f i bs) ! r =
    map (buf_pixel (file_row i bs (unat (height i) - 1 - r))) [0..<unat (width i)]"
  using assms by (simp add: good_file_def read_grid_complete tabulate_def file_row_def complete_row_def)

lemma length_file_row:
  assumes "good_file os fs input f i bs" and "j < unat (height i)"
  shows "length (file_row i bs j) = row_len i"
proof -
  have "Suc j * row_len i \<le> unat (height i) * row_len i" using assms(2) by (intro mult_le_mono1) simp
  moreover have "unat (height i) * row_len i \<le> length bs" using assms(1) by (simp add: good_file_def)
  ultimately have "Suc j * row_len i \<le> length bs" by (rule le_trans)
  then show ?thesis by (simp add: file_row_def)
qed

text \<open>A run whose filters keep the image well formed writes the bytes of their result.\<close>

lemma main_writes:
  assumes "parse fs argv = Inr (Parsed input output filters)" and "good_file os fs input f i bs"
    and "writable os fs output" and "apply_filters lm filters (loaded f i bs) = Inr img'"
    and "wf_img img'" and "unit_img img'"
  shows "main lm os fs argv = Finished (fs(output \<mapsto> Regular (bmp_bytes img'))) [] []"
proof -
  have "ReadFile input (contents os fs input) = Inr (loaded f i bs)"
    using assms(2) ReadFile_accepted [of f i input bs] by (simp add: good_file_def contents_def loaded_def)
  moreover have "WriteFile img' True = Inr (bmp_bytes img')"
    using assms(5,6) by (intro WriteFile_eq) (simp_all add: wf_img_def row_bytes_fit_def img_w_def)
  ultimately show ?thesis using assms(1,3,4) by (simp add: main_def process_file_def)
qed

text \<open>The rows of the result, in the order of the file, when each is a function of a row of the input.\<close>

lemma written_rows:
  assumes "length px = k" and "k \<le> h"
    and "\<And>r. r < k \<Longrightarrow> padded_row (px ! r) = g (h - 1 - r)"
  shows "concat (map padded_row (rev px)) = concat (map g [h - k..<h])"
proof -
  have "map padded_row (rev px) = map g [h - k..<h]"
    using assms by (intro nth_equalityI) (auto simp: rev_nth intro!: arg_cong [of _ _ g])
  then show ?thesis by simp
qed

subsection \<open>Negatives\<close>

text \<open>
  The bytes whose negative is written as \<open>254 - b\<close>, because \<open>GetByte\<close> truncates a product that is
  slightly below \<open>255 - b\<close>.
\<close>

definition dimmed_bytes :: "int list" where
  "dimmed_bytes =
    [43, 59, 74, 75, 90, 91, 106, 107, 122, 123, 132, 133, 140, 141, 148, 149, 156, 157, 164, 165, 172, 173, 180,
     181, 188, 189, 196, 197, 198, 204, 205, 206, 212, 213, 214, 220, 221, 222, 228, 229, 230, 236, 237, 238, 244,
     245, 246, 252, 253, 254]"

definition negative_int :: "int \<Rightarrow> int" where
  "negative_int b = (if b \<in> set dimmed_bytes then 254 - b else 255 - b)"

definition negative_byte :: "u8 \<Rightarrow> u8" where
  "negative_byte b = word_of_int (negative_int (uint b))"

definition negated_ok :: "int \<Rightarrow> bool" where
  "negated_ok i \<longleftrightarrow>
    to_u8 (dmul (dsub d1 (ddiv (dint i) (dint 255))) (dint 255)) = Inr (word_of_int (negative_int i))"

lemma negated_ok_1: "list_all negated_ok [0..63]"
  by code_simp
lemma negated_ok_2: "list_all negated_ok [64..127]"
  by code_simp
lemma negated_ok_3: "list_all negated_ok [128..191]"
  by code_simp
lemma negated_ok_4: "list_all negated_ok [192..255]"
  by code_simp

lemma negated_byte: "GetByte (dsub d1 (byte_intensity b)) = Inr (negative_byte b)"
proof -
  have "0 \<le> uint b" "uint b < 256" using uint_lt2p [of b] by simp_all
  then have "uint b \<in> {0..63} \<or> uint b \<in> {64..127} \<or> uint b \<in> {128..191} \<or> uint b \<in> {192..255}"
    unfolding atLeastAtMost_iff by linarith
  then have "negated_ok (uint b)"
    using negated_ok_1 negated_ok_2 negated_ok_3 negated_ok_4 unfolding list_all_iff set_upto by blast
  then show ?thesis by (simp add: negated_ok_def GetByte_def byte_intensity_def negative_byte_def)
qed

lemma pixel_bytes_negated:
  "pixel_bytes (map_pixel (dsub d1) (buf_pixel b c)) = map negative_byte (pixel_bytes (buf_pixel b c))"
  by (simp add: pixel_bytes_buf) (simp add: pixel_bytes_def map_pixel_def buf_pixel_def pixel_of_bytes_def
      byte_of_def negated_byte)

lemma padded_row_negated:
  assumes "3 * w \<le> length b"
  shows "padded_row (map (map_pixel (dsub d1)) (map (buf_pixel b) [0..<w])) =
    map negative_byte (take (3 * w) b) @ replicate (pad_len w) 0"
  by (simp add: padded_row_def comp_def pixel_bytes_negated map_concat [symmetric, unfolded comp_def]
      flip: buf_pixels_bytes [OF assms]) (simp add: map_concat comp_def)

subsection \<open>Crops\<close>

lemma padded_row_cropped:
  assumes "w' \<le> w" and "3 * w \<le> length b"
  shows "padded_row (take w' (map (buf_pixel b) [0..<w])) = take (3 * w') b @ replicate (pad_len w') 0"
  using assms buf_pixels_bytes [of w' b] by (simp add: padded_row_def take_map comp_def min_absorb2)

text \<open>Without filters the program writes the rows of the input file, with zeros for their padding.\<close>

lemma copy_run:
  assumes "good_file os fs input f i bs" and "writable os fs output"
  shows "main lm os fs [prog, input, output] =
    Finished (fs(output \<mapsto> Regular (header_bytes f i @
      concat (map (\<lambda>j. take (3 * unat (width i)) (file_row i bs j) @ replicate (pad_len (unat (width i))) 0)
        [0..<unat (height i)])))) [] []"
proof -
  let ?img = "loaded f i bs" and ?h = "unat (height i)" and ?w = "unat (width i)"
  have len: "length (pixels ?img) = ?h" using dims_height [OF read_grid_dims [of i "open_in bs"]] by simp
  have rows: "padded_row (pixels ?img ! r) =
      take (3 * ?w) (file_row i bs (?h - 1 - r)) @ replicate (pad_len ?w) 0" if r: "r < ?h" for r
    using length_file_row [OF assms(1), of "?h - 1 - r"] r padded_row_cropped [of ?w ?w "file_row i bs (?h - 1 - r)"]
    by (simp only: loaded_row [OF assms(1) r]) (simp add: row_len_def)
  have parse: "parse fs [prog, input, output] = Inr (Parsed input output [])"
    using assms(1) by (simp add: parse_def PathCheck_def good_file_def parse_loop.simps)
  show ?thesis
    using main_writes [OF parse assms _ loaded_wf [OF assms(1)]] written_rows [OF len le_refl rows]
    by (simp add: apply_filters_def bmp_bytes_def)
qed

lemma zero_padded_rows:
  assumes "zero_padded i bs"
  shows "concat (map (\<lambda>j. take (3 * unat (width i)) (file_row i bs j) @ replicate (pad_len (unat (width i))) 0)
    [0..<unat (height i)]) = bs"
proof -
  have row: "take (3 * unat (width i)) (file_row i bs j) @ replicate (pad_len (unat (width i))) 0 = file_row i bs j"
    if "j < unat (height i)" for j
  proof -
    have "replicate (pad_len (unat (width i))) 0 = drop (3 * unat (width i)) (file_row i bs j)"
      using assms that by (simp add: zero_padded_def file_row_def)
    then show ?thesis by (simp only: append_take_drop_id)
  qed
  have rows: "map (\<lambda>j. take (3 * unat (width i)) (file_row i bs j) @ replicate (pad_len (unat (width i))) 0) [0..<unat (height i)] =
      map (\<lambda>j. take (row_len i) (drop (j * row_len i) bs)) [0..<unat (height i)]"
    by (intro map_cong refl, subst row) (simp_all add: file_row_def)
  show ?thesis
    unfolding rows using assms by (intro concat_chunks) (simp add: zero_padded_def)
qed

lemma unit_img_subgrid:
  "unit_img img \<Longrightarrow> pixels img' = map (take w) (take h (pixels img)) \<Longrightarrow> unit_img img'"
  by (auto simp: unit_img_def dest!: in_set_takeD)

text \<open>The header a crop leaves, for the numbers it has been given after their narrowing.\<close>

definition cropped_header :: "int \<Rightarrow> int \<Rightarrow> int \<Rightarrow> info_header \<Rightarrow> info_header" where
  "cropped_header nw nh nbytes i =
    i\<lparr>height := of_nat (cropped_to nh (unat (height i))), width := of_nat (cropped_to nw (unat (width i))),
      image_size := word_of_int nbytes\<rparr>"

lemma crop_run:
  assumes given: "good_file os fs input f i bs" "writable os fs output"
    and make: "CropFabric_Make w h = Inr crop"
    and nums: "nw = narrow16 (atoi w)" "nh = narrow16 (atoi h)" "nbytes = nh * (c_div (nw * 3 + 3) 4 * 4)"
    and new: "w' = cropped_to nw (unat (width i))" "h' = cropped_to nh (unat (height i))"
  shows "main lm os fs [prog, input, output, ''-crop'', w, h] =
    (if - 2147483648 \<le> nbytes \<and> nbytes < 2147483648
     then Finished (fs(output \<mapsto> Regular (header_bytes f (cropped_header nw nh nbytes i) @
       concat (map (\<lambda>j. take (3 * w') (file_row i bs j) @ replicate (pad_len w') 0)
         [unat (height i) - h'..<unat (height i)])))) [] []
     else Undefined_run)"
proof -
  let ?img = "loaded f i bs" and ?h = "unat (height i)" and ?w = "unat (width i)"
  have parse: "parse fs [prog, input, output, ''-crop'', w, h] = Inr (Parsed input output [crop])"
    using given(1) make by (simp add: parse_def PathCheck_def good_file_def parse_loop.simps parse_step_def)
  note narrowed = crop_narrowed [OF make loaded_wf [OF given(1)] nums, of lm]
  show ?thesis
  proof (cases "- 2147483648 \<le> nbytes \<and> nbytes < 2147483648")
    case False
    have "ReadFile input (contents os fs input) = Inr ?img"
      using given(1) ReadFile_accepted [of f i input bs] by (simp add: good_file_def contents_def loaded_def)
    with narrowed(2) [OF False] parse False show ?thesis
      by (auto simp: main_def process_file_def apply_filters_def report_def split: if_splits)
  next
    case True
    with narrowed(1) obtain img' where img': "apply_filter lm crop ?img = Inr img'" "wf_img img'" "fh img' = f"
      "ih img' = cropped_header nw nh nbytes i" "pixels img' = map (take w') (take h' (pixels ?img))"
      by (auto simp: new cropped_header_def)
    have unit: "unit_img img'" by (rule unit_img_subgrid [OF _ img'(5)]) simp
    have le: "h' \<le> ?h" "w' \<le> ?w" by (simp_all add: new cropped_to_def)
    then have len: "length (pixels img') = h'"
      using dims_height [OF read_grid_dims [of i "open_in bs"]] by (simp add: img'(5))
    have rows: "padded_row (pixels img' ! r) =
        take (3 * w') (file_row i bs (?h - 1 - r)) @ replicate (pad_len w') 0" if r: "r < h'" for r
    proof -
      have r': "r < ?h" using r le by simp
      have "pixels img' ! r = take w' (pixels ?img ! r)" using r len by (simp add: img'(5))
      then show ?thesis
        using length_file_row [OF given(1), of "?h - 1 - r"] r' le
        by (simp only: loaded_row [OF given(1) r']) (simp add: padded_row_cropped row_len_def)
    qed
    from main_writes [OF parse given _ img'(2) unit] written_rows [OF len le(1) rows] img' True
    show ?thesis by (simp add: apply_filters_def bmp_bytes_def)
  qed
qed

subsection \<open>Edges\<close>

text \<open>The grayscale image that is convolved, and the byte a cell of the result is written as.\<close>

definition gray_image :: "image \<Rightarrow> image" where
  "gray_image img = img\<lparr>pixels := map (map gray_pixel) (pixels img)\<rparr>"

definition edge_byte :: "double \<Rightarrow> image \<Rightarrow> nat \<Rightarrow> nat \<Rightarrow> u8" where
  "edge_byte t img r c = (if dle (px_r (conv_pixel edge_matrix (gray_image img) r c)) t then 0 else 255)"

lemma pixel_bytes_threshold:
  "pixel_bytes (threshold_pixel t p) = replicate 3 (if dle (px_r p) t then 0 else 255)"
proof -
  have "byte_of d0 = 0" "byte_of d1 = 255" by code_simp+
  then show ?thesis by (simp add: pixel_bytes_def threshold_pixel_def blank_def white_def numeral_3_eq_3)
qed

text \<open>No cell exceeds a threshold of one or more.\<close>

lemma edge_byte_dark:
  assumes "is_fin t" and "dle d1 t"
  shows "edge_byte t img r c = 0"
proof -
  have "between 0 1 (px_r (conv_pixel edge_matrix (gray_image img) r c))"
    using unit_pixel_conv [of edge_matrix "gray_image img" r c] by (simp add: unit_pixel_def in_unit_between)
  with assms show ?thesis by (simp add: edge_byte_def between_fin dle_fval)
qed

lemma edge_run:
  assumes given: "good_file os fs input f i bs" "writable os fs output" and make: "EdgeFabric_Make v = Inr edge"
  shows "main lm os fs [prog, input, output, ''-edge'', v] =
    Finished (fs(output \<mapsto> Regular (header_bytes f i @
      concat (map (\<lambda>j. concat (map (\<lambda>c. replicate 3 (edge_byte (atof v) (loaded f i bs) (unat (height i) - 1 - j) c))
          [0..<unat (width i)]) @ replicate (pad_len (unat (width i))) 0) [0..<unat (height i)])))) [] []"
proof -
  let ?img = "loaded f i bs" and ?h = "unat (height i)" and ?w = "unat (width i)"
  have parse: "parse fs [prog, input, output, ''-edge'', v] = Inr (Parsed input output [edge])"
    using given(1) make by (simp add: parse_def PathCheck_def good_file_def parse_loop.simps parse_step_def)
  have f: "edge = EdgeDetection (atof v)" using make by (auto simp: EdgeFabric_Make_def bnd_Inr_iff)
  let ?img' = "(gray_image ?img)\<lparr>pixels := tabulate ?h ?w
      (\<lambda>r c. threshold_pixel (atof v) (conv_pixel edge_matrix (gray_image ?img) r c)), buffer := pixels (gray_image ?img)\<rparr>"
  have run: "edge_apply (atof v) ?img = Inr ?img'"
    using edge_eq [OF loaded_wf [OF given(1)], of "atof v"] by (auto simp: grayscale_apply_def gray_image_def)
  have ok: "wf_img ?img'" "unit_img ?img'"
    using edge_ok [OF loaded_wf [OF given(1)], of "atof v"] run by auto
  have len: "length (pixels ?img') = ?h" by (simp add: tabulate_def)
  have rows: "padded_row (pixels ?img' ! r) =
      concat (map (\<lambda>c. replicate 3 (edge_byte (atof v) ?img (?h - 1 - (?h - 1 - r)) c)) [0..<?w]) @
      replicate (pad_len ?w) 0" if "r < ?h" for r
    using that by (simp add: tabulate_def padded_row_def comp_def pixel_bytes_threshold edge_byte_def)
  show ?thesis
    using main_writes [OF parse given _ ok] written_rows [OF len le_refl rows] run
    by (simp add: apply_filters_def f bmp_bytes_def gray_image_def)
qed

subsection \<open>Requests without a crop\<close>

text \<open>No other filter touches a header.\<close>

definition is_crop :: "filter \<Rightarrow> bool" where
  "is_crop f = (case f of Crop w h \<Rightarrow> True | _ \<Rightarrow> False)"

lemma apply_filter_headers:
  "apply_filter lm f img = Inr img' \<Longrightarrow> \<not> is_crop f \<Longrightarrow> fh img' = fh img \<and> ih img' = ih img"
  by (cases f)
    (auto simp: is_crop_def Let_def bnd_Inr_iff grayscale_apply_def negative_apply_def sharpening_apply_def
      edge_apply_def blur_apply_def tunnel_apply_def dest!: multiply_headers split: if_splits)

lemma apply_filters_headers:
  assumes "apply_filters lm fs img = Inr img'" and "\<forall>f \<in> set fs. \<not> is_crop f"
  shows "fh img' = fh img \<and> ih img' = ih img"
  using assms unfolding apply_filters_def
  by (elim for_each_invariant [where P = "\<lambda>i. fh i = fh img \<and> ih i = ih img"])
    (auto dest!: apply_filter_headers)

text \<open>The pixel section of a file: complete rows, with zeros after the pixels.\<close>

definition pixel_rows :: "info_header \<Rightarrow> u8 list list \<Rightarrow> bool" where
  "pixel_rows i rows \<longleftrightarrow> length rows = unat (height i) \<and>
     (\<forall>row \<in> set rows. length row = row_len i \<and> drop (3 * unat (width i)) row = replicate (pad_len (unat (width i))) 0)"

lemma written_pixel_rows: "wf_img img \<Longrightarrow> pixel_rows (ih img) (map padded_row (rev (pixels img)))"
  by (auto simp: pixel_rows_def wf_img_def dims_def row_len_def img_h_def img_w_def padded_row_def)

lemma main_keeps_headers:
  assumes lm: "libm_ok lm" and given: "good_file os fs input f i bs" "writable os fs output"
    and parse: "parse fs argv = Inr (Parsed input output filters)"
    and ok: "\<forall>f \<in> set filters. filter_ok f \<and> \<not> is_crop f"
  shows "(\<exists>rows. pixel_rows i rows \<and>
      main lm os fs argv = Finished (fs(output \<mapsto> Regular (header_bytes f i @ concat rows))) [] []) \<or>
    (\<exists>m. main lm os fs argv = Finished fs [] (m @ newline))"
proof (cases "apply_filters lm filters (loaded f i bs)")
  case (Inl e)
  have "ReadFile input (contents os fs input) = Inr (loaded f i bs)"
    using given(1) ReadFile_accepted [of f i input bs] by (simp add: good_file_def contents_def loaded_def)
  moreover have "\<exists>m. e = ApplyFilterException m"
    using chain.chain_throws [of filters lm "loaded f i bs" e] lm ok Inl loaded_wf [OF given(1)]
    by (auto simp: apply_filters_def)
  ultimately show ?thesis using Inl parse by (auto simp: main_def process_file_def report_def)
next
  case (Inr img')
  have img': "wf_img img'" "unit_img img'"
    using chain.chain_keeps [of filters lm "loaded f i bs" img'] lm ok Inr loaded_wf [OF given(1)]
    by (simp_all add: apply_filters_def)
  have "fh img' = f" "ih img' = i" using apply_filters_headers [OF Inr] ok by auto
  with main_writes [OF parse given Inr img'] written_pixel_rows [OF img'(1)] show ?thesis
    by (auto simp: bmp_bytes_def)
qed

text \<open>A file of one pixel that the requests accept.\<close>

lemma tiny_good:
  "good_file free_access tiny_fs ''a.bmp'' (fst (sample_headers 1 1)) (snd (sample_headers 1 1)) [10, 20, 30, 0]"
  by (simp add: good_file_def tiny_fs_def tiny_bmp_def free_access_def sample_headers_def accepted_def
      row_bytes_fit_def row_len_def pad_len_def)

lemma tiny_writable: "writable free_access tiny_fs ''b.bmp''"
  by (simp add: writable_def free_access_def tiny_fs_def)

subsection \<open>Properties\<close>

text \<open>
  C2: without filters the program copies the picture: the output has the headers and the rows of the input
  file, with zeros for the padding and without what follows the rows. A file that has zeros there and ends
  after its rows is copied byte by byte.
\<close>

theorem main_copies_file:
  assumes "good_file os fs input f i bs" and "writable os fs output"
  shows "main lm os fs [prog, input, output] =
      Finished (fs(output \<mapsto> Regular (header_bytes f i @
        concat (map (\<lambda>j. take (3 * unat (width i)) (file_row i bs j) @ replicate (pad_len (unat (width i))) 0)
          [0..<unat (height i)])))) [] [] \<and>
    (zero_padded i bs \<longrightarrow> main lm os fs [prog, input, output] = Finished (fs(output \<mapsto> the (fs input))) [] [])"
proof -
  have "the (fs input) = Regular (header_bytes f i @ bs)" using assms(1) by (simp add: good_file_def)
  then show ?thesis using copy_run [OF assms] zero_padded_rows [of i bs] by simp
qed

theorem main_copies_file_witness:
  "main flat_libm free_access tiny_fs [''app'', ''a.bmp'', ''b.bmp''] = Finished (tiny_fs(''b.bmp'' \<mapsto> Regular tiny_bmp)) [] []"
proof -
  have "zero_padded (snd (sample_headers 1 1)) [10, 20, 30, 0]"
    by (simp add: zero_padded_def sample_headers_def row_len_def pad_len_def)
  with main_copies_file [OF tiny_good tiny_writable, of flat_libm "''app''"]
  have "main flat_libm free_access tiny_fs [''app'', ''a.bmp'', ''b.bmp''] =
      Finished (tiny_fs(''b.bmp'' \<mapsto> the (tiny_fs ''a.bmp''))) [] []" by blast
  then show ?thesis by (simp add: tiny_fs_def)
qed

text \<open>
  C8: a run with \<open>-crop\<close>, whatever two numbers it is given. They are narrowed to 16 bits without a check,
  so 65537 columns are one and 40000 are a negative number, which crops nothing. The output holds the
  upper left part of the picture: of the rows of the file, which go from the bottom to the top, the last
  ones, and of each its first pixels, with the padding of the new width. The header gets the new width
  and height, an \<open>image_size\<close> computed from the narrowed request even when the picture is smaller, and the
  \<open>file_size\<close> of the input file, which no longer holds; the run is undefined exactly when the computation of
  \<open>image_size\<close> overflows an \<open>int\<close>.
\<close>

theorem crop_file:
  assumes "good_file os fs input f i bs" and "writable os fs output"
    and "CropFabric_Make w h = Inr crop"
    and "nw = narrow16 (atoi w)" and "nh = narrow16 (atoi h)" and "nbytes = nh * (c_div (nw * 3 + 3) 4 * 4)"
    and "w' = cropped_to nw (unat (width i))" and "h' = cropped_to nh (unat (height i))"
  shows "main lm os fs [prog, input, output, ''-crop'', w, h] =
    (if - 2147483648 \<le> nbytes \<and> nbytes < 2147483648
     then Finished (fs(output \<mapsto> Regular (header_bytes f (cropped_header nw nh nbytes i) @
       concat (map (\<lambda>j. take (3 * w') (file_row i bs j) @ replicate (pad_len w') 0)
         [unat (height i) - h'..<unat (height i)])))) [] []
     else Undefined_run)"
  by (rule crop_run [OF assms])

text \<open>
  A crop to 65538 columns and two rows of a picture of one pixel changes its \<open>image_size\<close> to 16, and one to
  32767 columns and rows is undefined.
\<close>

theorem crop_file_witness:
  "main flat_libm free_access tiny_fs [''app'', ''a.bmp'', ''b.bmp'', ''-crop'', ''65538'', ''2''] =
    Finished (tiny_fs(''b.bmp'' \<mapsto> Regular (header_bytes (fst (sample_headers 1 1))
      ((snd (sample_headers 1 1))\<lparr>image_size := 16\<rparr>) @ [10, 20, 30, 0]))) [] [] \<and>
   main flat_libm free_access tiny_fs [''app'', ''a.bmp'', ''b.bmp'', ''-crop'', ''32767'', ''32767''] = Undefined_run"
proof
  have ok: "IsInteger ''2'' = Inr ()" "IsNotNull ''2'' = Inr ()" "IsInteger ''65538'' = Inr ()"
    "IsNotNull ''65538'' = Inr ()" "IsInteger ''32767'' = Inr ()" "IsNotNull ''32767'' = Inr ()" by code_simp+
  have num: "atoi ''2'' = 2" "atoi ''65538'' = 65538" "atoi ''32767'' = 32767"
    by (simp_all add: atoi_def dec_val_def digit_val_def is_digit_def)
  note make = Crop_Make_checked [OF ok(3,4,1,2)] Crop_Make_checked [OF ok(5,6,5,6)]
  show "main flat_libm free_access tiny_fs [''app'', ''a.bmp'', ''b.bmp'', ''-crop'', ''65538'', ''2''] =
    Finished (tiny_fs(''b.bmp'' \<mapsto> Regular (header_bytes (fst (sample_headers 1 1))
      ((snd (sample_headers 1 1))\<lparr>image_size := 16\<rparr>) @ [10, 20, 30, 0]))) [] []"
    using crop_file [OF tiny_good tiny_writable make(1) refl refl refl refl refl, of flat_libm "''app''"]
    by (simp add: num narrow16_def c_div_def cropped_to_def cropped_header_def sample_headers_def file_row_def
        row_len_def pad_len_def)
  show "main flat_libm free_access tiny_fs [''app'', ''a.bmp'', ''b.bmp'', ''-crop'', ''32767'', ''32767''] = Undefined_run"
    using crop_file [OF tiny_good tiny_writable make(2) refl refl refl refl refl, of flat_libm "''app''"]
    by (simp add: num narrow16_def c_div_def)
qed

text \<open>
  C18: only \<open>-crop\<close> changes the format. A run with any other filters, in any number and order, with safe
  parameters, writes the headers of the input file and exactly as many complete, zero-padded rows as
  they announce, or fails with a message and leaves the file system as it is.
\<close>

theorem headers_kept:
  assumes "libm_ok lm" and "good_file os fs input f i bs" and "writable os fs output"
    and "parse fs argv = Inr (Parsed input output filters)"
    and "\<forall>g \<in> set filters. filter_ok g \<and> \<not> is_crop g"
  shows "(\<exists>rows. pixel_rows i rows \<and>
      main lm os fs argv = Finished (fs(output \<mapsto> Regular (header_bytes f i @ concat rows))) [] []) \<or>
    (\<exists>m. main lm os fs argv = Finished fs [] (m @ newline))"
  by (rule main_keeps_headers [OF assms])

theorem headers_kept_witness:
  "(\<exists>rows. pixel_rows (snd (sample_headers 1 1)) rows \<and>
      main flat_libm free_access tiny_fs [''app'', ''a.bmp'', ''b.bmp'', ''-neg'', ''-gs'', ''-sharp''] =
        Finished (tiny_fs(''b.bmp'' \<mapsto> Regular (header_bytes (fst (sample_headers 1 1)) (snd (sample_headers 1 1)) @
          concat rows))) [] []) \<or>
    (\<exists>m. main flat_libm free_access tiny_fs [''app'', ''a.bmp'', ''b.bmp'', ''-neg'', ''-gs'', ''-sharp''] =
        Finished tiny_fs [] (m @ newline))"
  by (rule headers_kept [OF flat_libm_ok tiny_good tiny_writable, where filters = "[Negative, Grayscale, Sharpening]"])
    (simp_all add: parse_def PathCheck_def tiny_fs_def parse_loop.simps parse_step_def NegativeFabric_Make_def
      GrayScaleFabric_Make_def SharpFabric_Make_def is_crop_def filter_ok_def)

text \<open>
  C13: a run with \<open>-edge\<close> writes the same headers and a picture in black and white: the three bytes of a
  pixel are 255 where the convolution of the grayscale image with the edge kernel exceeds the threshold,
  and zero elsewhere. A threshold of one or more makes the whole picture black.
\<close>

theorem edge_file:
  assumes "good_file os fs input f i bs" and "writable os fs output" and "EdgeFabric_Make v = Inr edge"
  shows "main lm os fs [prog, input, output, ''-edge'', v] =
    Finished (fs(output \<mapsto> Regular (header_bytes f i @
      concat (map (\<lambda>j. concat (map (\<lambda>c. replicate 3 (edge_byte (atof v) (loaded f i bs) (unat (height i) - 1 - j) c))
          [0..<unat (width i)]) @ replicate (pad_len (unat (width i))) 0) [0..<unat (height i)])))) [] [] \<and>
    (dle d1 (atof v) \<longrightarrow> edge_byte (atof v) img r c = 0)"
proof -
  have "IsFloat v = Inr ()" using assms(3) by (auto simp: EdgeFabric_Make_def bnd_Inr_iff)
  then have "is_fin (atof v)" using atof_bounds by (simp add: between_fin)
  with edge_run [OF assms] edge_byte_dark show ?thesis by simp
qed

theorem edge_file_witness:
  "main flat_libm free_access tiny_fs [''app'', ''a.bmp'', ''b.bmp'', ''-edge'', ''1''] =
    Finished (tiny_fs(''b.bmp'' \<mapsto> Regular (header_bytes (fst (sample_headers 1 1)) (snd (sample_headers 1 1)) @
      [0, 0, 0, 0]))) [] []"
proof -
  have "IsFloat ''1'' = Inr ()" by code_simp
  then have make: "EdgeFabric_Make ''1'' = Inr (EdgeDetection (atof ''1''))" by (simp add: EdgeFabric_Make_def)
  have "atof ''1'' = dlit 1 1" by (simp add: atof_def dec_val_def digit_val_def is_digit_def)
  moreover have "dle d1 (dlit 1 1)" by code_simp
  ultimately have one: "dle d1 (atof ''1'')" by simp
  note run = edge_file [OF tiny_good tiny_writable make, of flat_libm "''app''"]
  have dark: "edge_byte (atof ''1'') img r c = 0" for img r c using run one by blast
  have h: "unat (width (snd (sample_headers 1 1))) = 1" "unat (height (snd (sample_headers 1 1))) = 1"
    by (simp_all add: sample_headers_def)
  have "replicate (pad_len 1) (0 :: u8) = [0]" by (simp add: pad_len_def)
  with conjunct1 [OF run] show ?thesis unfolding h dark by (simp add: numeral_3_eq_3)
qed

text \<open>
  C14: a run with \<open>-neg\<close> on an accepted file with all its rows writes the same headers and, row by row,
  the negatives of the bytes of the pixels, with zero padding. The negative of a byte \<open>b\<close> is \<open>255 - b\<close>,
  except for fifty bytes, from 43 on, for which it is one less because the writer truncates.
\<close>

theorem negative_file:
  assumes "good_file os fs input f i bs" and "writable os fs output"
  shows "main lm os fs [prog, input, output, ''-neg''] =
    Finished (fs(output \<mapsto> Regular (header_bytes f i @
      concat (map (\<lambda>j. map negative_byte (take (3 * unat (width i)) (file_row i bs j)) @
        replicate (pad_len (unat (width i))) 0) [0..<unat (height i)])))) [] [] \<and>
    negative_byte 43 = 211"
proof
  let ?img = "loaded f i bs" and ?h = "unat (height i)" and ?w = "unat (width i)"
  let ?img' = "?img\<lparr>pixels := map (map (map_pixel (dsub d1))) (pixels ?img)\<rparr>"
  have wf: "wf_img ?img" by (rule loaded_wf [OF assms(1)])
  have ok: "wf_img ?img'" "unit_img ?img'"
    using negative_ok [OF wf] by (simp_all add: negative_apply_def)
  have rows: "padded_row (pixels ?img' ! r) =
      map negative_byte (take (3 * ?w) (file_row i bs (?h - 1 - r))) @ replicate (pad_len ?w) 0"
    if r: "r < ?h" for r
    using length_file_row [OF assms(1), of "?h - 1 - r"] dims_height [OF read_grid_dims [of i "open_in bs"]] r
    by (simp add: padded_row_negated row_len_def loaded_row [OF assms(1) r, simplified] del: map_map)
  have parse: "parse fs [prog, input, output, ''-neg''] = Inr (Parsed input output [Negative])"
    using assms(1) by (simp add: parse_def PathCheck_def good_file_def parse_loop.simps parse_step_def NegativeFabric_Make_def)
  have len: "length (pixels ?img') = ?h" using dims_height [OF read_grid_dims [of i "open_in bs"]] by simp
  show "main lm os fs [prog, input, output, ''-neg''] =
    Finished (fs(output \<mapsto> Regular (header_bytes f i @
      concat (map (\<lambda>j. map negative_byte (take (3 * ?w) (file_row i bs j)) @ replicate (pad_len ?w) 0) [0..<?h]))))
      [] []"
    using main_writes [OF parse assms(1,2) _ ok] written_rows [OF len le_refl rows]
    by (simp add: apply_filters_def negative_apply_def bmp_bytes_def)
qed (simp add: negative_byte_def negative_int_def dimmed_bytes_def)

theorem negative_file_witness:
  "main flat_libm free_access tiny_fs [''app'', ''a.bmp'', ''b.bmp'', ''-neg''] =
    Finished (tiny_fs(''b.bmp'' \<mapsto> Regular (header_bytes (fst (sample_headers 1 1)) (snd (sample_headers 1 1)) @
      [245, 235, 225, 0]))) [] []"
  using negative_file [OF tiny_good tiny_writable, of flat_libm "''app''"]
  by (simp add: sample_headers_def file_row_def row_len_def pad_len_def negative_byte_def negative_int_def
      dimmed_bytes_def)

end
