(* ===== verification/Float_Error.thy ===== *)
theory Float_Error
  imports Double_Arith
begin

text \<open>
  The rounding error of the double operations: the result of an operation whose exact value is smaller
  than \<open>2 ^ K\<close> in absolute value lies within \<open>2 ^ (K - 54)\<close> of it, half a unit in the last place.
\<close>

lemma rne_div_error:
  assumes "0 < b"
  shows "\<bar>of_int (rne_div a b) - of_int a / (of_int b :: rat)\<bar> \<le> 1 / 2"
proof -
  have "(of_int \<bar>2 * (rne_div a b * b - a)\<bar> :: rat) \<le> of_int b"
    using rne_div_half [OF assms, of a] by (simp only: of_int_le_iff)
  then have "\<bar>2 * (of_int (rne_div a b) * of_int b - of_int a)\<bar> \<le> (of_int b :: rat)" by simp
  then have "2 * \<bar>of_int (rne_div a b) * of_int b - of_int a\<bar> \<le> (of_int b :: rat)" by (simp only: abs_mult abs_numeral)
  moreover have b: "0 < (of_int b :: rat)" using assms by simp
  moreover have "of_int (rne_div a b) - of_int a / (of_int b :: rat) =
      (of_int (rne_div a b) * of_int b - of_int a) / of_int b"
    using b by (simp add: diff_divide_distrib)
  ultimately show ?thesis by (simp add: abs_divide pos_divide_le_eq)
qed

lemma scaled_rne_error:
  assumes "0 < d"
  shows "\<bar>of_int (scaled_rne n d s) - of_int n * 2 powi s / (of_int d :: rat)\<bar> \<le> 1 / 2"
proof (cases "0 \<le> s")
  case True
  with rne_div_error [OF assms, of "n * 2 ^ nat s"] show ?thesis by (simp add: scaled_rne_def powi_nat)
next
  case False
  then have "(2::rat) powi s = 1 / 2 ^ nat (- s)" by (simp add: power_int_def power_one_over)
  with False assms rne_div_error [of "d * 2 ^ nat (- s)" n] show ?thesis
    by (simp add: scaled_rne_def mult.commute)
qed

lemma rnd_error:
  assumes d: "0 < d" and x: "\<bar>of_int n * 2 powi e / of_int d\<bar> < (2::rat) powi K" and K: "- 1000 \<le> K" "K \<le> 900"
  shows "is_fin (rnd n d e) \<and> \<bar>fval (rnd n d e) - of_int n * 2 powi e / of_int d\<bar> \<le> 2 powi (K - 54)"
proof (cases "n = 0")
  case True
  then show ?thesis by (simp add: rnd_def round_frac_def zero_le_power_int)
next
  case False
  define l where "l = expo \<bar>n\<bar> d"
  define u where "u = max (l + e - 52) (- 1074)"
  define m where "m = scaled_rne n d (e - u)"
  have "(2::rat) powi (l + e) = 2 powi l * 2 powi e" by (simp add: power_int_add)
  also have "\<dots> \<le> of_int \<bar>n\<bar> / of_int d * 2 powi e"
    using expo_le [of "\<bar>n\<bar>" d] False d
    by (intro mult_right_mono) (simp_all add: l_def pos_le_divide_eq mult.commute)
  also have "\<dots> = \<bar>of_int n * 2 powi e / of_int d\<bar>" using d by (simp add: abs_mult)
  also note x
  finally have "l + e < K" by (meson not_less one_le_numeral power_int_increasing)
  then have u: "u \<le> K - 53" using K by (simp add: u_def)
  have "of_int n * (2::rat) powi (e - u) / of_int d * 2 powi u = of_int n * 2 powi e / of_int d"
    by (simp add: power_int_diff)
  then have "of_int m * 2 powi u - of_int n * (2::rat) powi e / of_int d =
      (of_int m - of_int n * (2::rat) powi (e - u) / of_int d) * 2 powi u"
    by (simp only: left_diff_distrib)
  then have "\<bar>of_int m * 2 powi u - of_int n * (2::rat) powi e / of_int d\<bar> =
      \<bar>of_int m - of_int n * (2::rat) powi (e - u) / of_int d\<bar> * 2 powi u"
    by (simp add: abs_mult)
  also have "\<dots> \<le> 1 / 2 * 2 powi u"
    using scaled_rne_error [OF d] by (intro mult_right_mono) (simp_all add: m_def)
  also have "\<dots> \<le> 1 / 2 * 2 powi (K - 53)" using u by (simp add: power_int_increasing)
  also have "\<dots> = 2 powi (K - 54)" by (simp add: power_int_diff)
  finally have near: "\<bar>of_int m * 2 powi u - of_int n * (2::rat) powi e / of_int d\<bar> \<le> 2 powi (K - 54)" .
  obtain m' u' where "pack 53 1024 m u = Fin m' u'" "of_int m' * (2::rat) powi u' = of_int m * 2 powi u"
    using pack_Fin [of 53 u 1024 m] u K by auto
  moreover have "rnd n d e = pack 53 1024 m u"
    using False by (simp add: rnd_def round_frac_def m_def u_def l_def Let_def)
  ultimately show ?thesis using near by simp
qed

lemma dlit_error:
  assumes "0 < d" and "\<bar>of_int n / of_int d\<bar> < (2::rat) powi K" and "- 1000 \<le> K" and "K \<le> 900"
  shows "is_fin (dlit n d) \<and> \<bar>fval (dlit n d) - of_int n / of_int d\<bar> \<le> 2 powi (K - 54)"
  using rnd_error [OF assms(1) _ assms(3,4), of n 0] assms(2) by (simp add: dlit_def)

lemma is_finE: assumes "is_fin x" obtains m e where "x = Fin m e"
  using assms by (cases x) simp_all

lemma dmul_error:
  assumes "is_fin x" and "is_fin y" and "\<bar>fval x * fval y\<bar> < 2 powi K" and "- 1000 \<le> K" and "K \<le> 900"
  shows "is_fin (dmul x y) \<and> \<bar>fval (dmul x y) - fval x * fval y\<bar> \<le> 2 powi (K - 54)"
proof -
  obtain m e n f where xy: "x = Fin m e" "y = Fin n f" using assms(1,2) by (metis is_finE)
  have "of_int (m * n) * (2::rat) powi (e + f) / of_int 1 = fval x * fval y"
    by (simp add: xy power_int_add)
  with rnd_error [of 1 "m * n" "e + f" K] assms(3-5) show ?thesis
    unfolding xy(1) xy(2) dmul.simps by (simp only: zero_less_one simp_thms)
qed

lemma dadd_error:
  assumes "is_fin x" and "is_fin y" and "\<bar>fval x + fval y\<bar> < 2 powi K" and "- 1000 \<le> K" and "K \<le> 900"
  shows "is_fin (dadd x y) \<and> \<bar>fval (dadd x y) - (fval x + fval y)\<bar> \<le> 2 powi (K - 54)"
proof -
  obtain m e n f where xy: "x = Fin m e" "y = Fin n f" using assms(1,2) by (metis is_finE)
  let ?g = "min e f"
  have "of_int (m * 2 ^ nat (e - ?g) + n * 2 ^ nat (f - ?g)) * (2::rat) powi ?g / of_int 1 = fval x + fval y"
    unfolding xy fval.simps of_int_1 div_by_1
    by (simp only: of_int_add distrib_right powi_shift min.cobounded1 min.cobounded2)
  with rnd_error [of 1 "m * 2 ^ nat (e - ?g) + n * 2 ^ nat (f - ?g)" ?g K] assms(3-5) show ?thesis
    unfolding xy(1) xy(2) dadd.simps Let_def by (simp only: zero_less_one simp_thms)
qed

lemma ddiv_error:
  assumes "is_fin x" and "is_fin y" and "0 < fval y" and "\<bar>fval x / fval y\<bar> < 2 powi K" and "- 1000 \<le> K" and "K \<le> 900"
  shows "is_fin (ddiv x y) \<and> \<bar>fval (ddiv x y) - fval x / fval y\<bar> \<le> 2 powi (K - 54)"
proof -
  obtain m e n f where xy: "x = Fin m e" "y = Fin n f" using assms(1,2) by (metis is_finE)
  from assms(3) have "0 < (of_int n :: rat)"
    unfolding xy by (metis fval.simps(1) powi_pos zero_less_mult_pos2)
  then have n: "0 < n" by simp
  have "of_int m * (2::rat) powi (e - f) / of_int n = fval x / fval y"
    by (simp add: xy power_int_diff)
  with rnd_error [OF n, of m "e - f" K] assms(4-6) n show ?thesis
    unfolding xy(1) xy(2) by (simp del: fval.simps)
qed

text \<open>Clamping to the unit interval brings no value further away from a number of the interval.\<close>

lemma clamp_error:
  assumes "is_fin x" and "0 \<le> y" and "y \<le> 1"
  shows "is_fin (std_max d0 (std_min d1 x)) \<and> \<bar>fval (std_max d0 (std_min d1 x)) - y\<bar> \<le> \<bar>fval x - y\<bar>"
  using assms by (auto simp: std_max_def std_min_def dlt_fval)

text \<open>Truncation to an integer.\<close>

lemma dtrunc_floor:
  assumes "is_fin x" and "0 \<le> fval x"
  shows "dtrunc x = Some \<lfloor>fval x\<rfloor>"
proof -
  obtain m e where x: "x = Fin m e" using assms(1) by (rule is_finE)
  have m: "0 \<le> m" using assms(2) powi_pos [of e] by (simp add: x zero_le_mult_iff not_le [symmetric] del: powi_pos)
  show ?thesis
  proof (cases "0 \<le> e")
    case True
    then have "fval x = of_int (m * 2 ^ nat e)" by (simp add: x powi_nat)
    then have "\<lfloor>fval x\<rfloor> = m * 2 ^ nat e" by (simp only: floor_of_int)
    with True show ?thesis by (simp add: x)
  next
    case False
    then have "fval x = of_int m / of_int (2 ^ nat (- e))" by (simp add: x power_int_def power_one_over)
    then have "\<lfloor>fval x\<rfloor> = m div 2 ^ nat (- e)" by (simp only: floor_divide_of_int_eq)
    moreover have "sgn m * (\<bar>m\<bar> div 2 ^ nat (- e)) = m div 2 ^ nat (- e)"
      using m by (cases "m = 0") (simp_all add: sgn_if)
    ultimately show ?thesis using False by (simp add: x)
  qed
qed

end
