(* ===== verification/Gray_Accuracy.thy ===== *)
theory Gray_Accuracy
  imports Image_Requests Float_Error
begin

text \<open>
  How exact \<open>-gs\<close> is: the eight roundings of \<open>Grayscale::Apply\<close>, of the constructor of \<open>Pixel\<close> and of
  \<open>GetByte\<close> together stay so small that the byte written is the weighted mean of the three bytes read,
  rounded down, except where the mean is a whole number.
\<close>

abbreviation eps :: rat where "eps \<equiv> 2 powi (- 53)"

lemma eps_eq: "eps = 1 / 9007199254740992"
  by (simp add: power_int_def power_one_over)

lemma powi_46: "(2::rat) powi (- 46) = 128 * eps"
  by (simp add: power_int_def power_one_over)

lemma dint_255: "is_fin (dint 255)" "fval (dint 255) = 255"
  using between_dint [of 255] by (simp_all add: between_fin)

text \<open>The intensity of a byte, and the three weights.\<close>

definition near :: "rat \<Rightarrow> rat \<Rightarrow> double \<Rightarrow> bool" where
  "near k x d \<longleftrightarrow> is_fin d \<and> \<bar>fval d - x\<bar> \<le> k * eps"

lemma byte_near: "near 1 (of_int (uint b) / 255) (byte_intensity b)"
proof -
  have b: "0 \<le> uint b" "uint b < 256" using uint_lt2p [of b] by simp_all
  have "between (uint b) (uint b) (dint (uint b))" using b by (intro between_dint) simp
  then have v: "is_fin (dint (uint b))" "fval (dint (uint b)) = of_int (uint b)" by (simp_all add: between_fin)
  have "(of_int (uint b) :: rat) < of_int 256" using b by (simp only: of_int_less_iff)
  then have "\<bar>of_int (uint b) / (255::rat)\<bar> < 2 powi 1" using b by (simp del: of_int_uint)
  with ddiv_error [of "dint (uint b)" "dint 255" 1] v dint_255 show ?thesis
    by (simp add: near_def byte_intensity_def del: of_int_uint)
qed

lemma weights_near: "near 1 (299 / 1000) RGray" "near 1 (587 / 1000) GGray" "near 1 (114 / 1000) BGray"
  using dlit_error [of 1000 299 1] dlit_error [of 1000 587 1] dlit_error [of 1000 114 1]
  by (simp_all add: near_def RGray_def GGray_def BGray_def)

lemma near_dmul:
  assumes x: "near 1 a x" and y: "near 1 c y" and a: "0 \<le> a" "a \<le> 1" and c: "0 \<le> c" "c \<le> 1 / 2 + 1 / 10"
  shows "near 3 (a * c) (dmul x y)"
proof -
  let ?x = "fval x" and ?y = "fval y"
  have fin: "is_fin x" "is_fin y" and d: "\<bar>?x - a\<bar> \<le> eps" "\<bar>?y - c\<bar> \<le> eps"
    using x y by (simp_all add: near_def)
  have y1: "\<bar>?y\<bar> \<le> 1" and x1: "\<bar>?x\<bar> \<le> 1 + 1 / 2" using d a c unfolding eps_eq by linarith+
  have "?x * ?y - a * c = (?x - a) * ?y + a * (?y - c)" by (simp add: algebra_simps)
  then have "\<bar>?x * ?y - a * c\<bar> \<le> \<bar>?x - a\<bar> * \<bar>?y\<bar> + a * \<bar>?y - c\<bar>"
    using a by (simp add: abs_mult order_trans [OF abs_triangle_ineq])
  also have "\<dots> \<le> eps * 1 + 1 * eps"
    using d y1 a by (intro add_mono mult_mono) simp_all
  finally have prod: "\<bar>?x * ?y - a * c\<bar> \<le> 2 * eps" by simp
  have "\<bar>?x\<bar> * \<bar>?y\<bar> \<le> (1 + 1 / 2) * 1" using x1 y1 by (intro mult_mono) simp_all
  then have "\<bar>?x * ?y\<bar> < 2 powi 1" by (simp add: abs_mult)
  from dmul_error [OF fin this] have "is_fin (dmul x y)" "\<bar>fval (dmul x y) - ?x * ?y\<bar> \<le> eps" by simp_all
  with prod show ?thesis unfolding near_def by linarith
qed

lemma near_dadd:
  assumes x: "near j a x" and y: "near k c y" and "0 \<le> a" "0 \<le> c" "a + c \<le> 1" "j \<le> 10" "k \<le> 10"
  shows "near (j + k + 1) (a + c) (dadd x y)"
proof -
  have fin: "is_fin x" "is_fin y" and d: "\<bar>fval x - a\<bar> \<le> j * eps" "\<bar>fval y - c\<bar> \<le> k * eps"
    using x y by (simp_all add: near_def)
  have "j * eps \<le> 10 * eps" "k * eps \<le> 10 * eps" using assms(6,7) by (intro mult_right_mono; simp)+
  with d assms(3-5) have "\<bar>fval x + fval y\<bar> < 2" unfolding eps_eq by linarith
  from dadd_error [OF fin, of 1] this
  have "is_fin (dadd x y)" "\<bar>fval (dadd x y) - (fval x + fval y)\<bar> \<le> eps" by simp_all
  with d show ?thesis unfolding near_def distrib_right by linarith
qed

text \<open>A number close to \<open>s / 1000\<close> has its floor, unless it lies below a whole number.\<close>

lemma floor_near:
  assumes "\<bar>z - of_int s / 1000\<bar> < (1 / 1000 :: rat)"
  shows "\<lfloor>z\<rfloor> = s div 1000 \<or> 1000 dvd s \<and> \<lfloor>z\<rfloor> = s div 1000 - 1"
proof -
  define q t where "q = s div 1000" and "t = s mod 1000"
  have s: "s = 1000 * q + t" "0 \<le> t" "t < 1000" by (simp_all add: q_def t_def)
  then have v: "(of_int s / 1000 :: rat) = of_int q + of_int t / 1000" by simp
  show ?thesis
  proof (cases "t = 0")
    case True
    with assms v have "of_int q - 1 < z" "z < of_int q + 1" by linarith+
    then have "\<lfloor>z\<rfloor> = q \<or> \<lfloor>z\<rfloor> = q - 1" by linarith
    with True show ?thesis by (auto simp: q_def t_def)
  next
    case False
    with s have "(1::rat) \<le> of_int t" "(of_int t :: rat) \<le> 999" by simp_all
    with assms v have "of_int q \<le> z" "z < of_int q + 1" by linarith+
    then have "\<lfloor>z\<rfloor> = q" by linarith
    then show ?thesis by (simp add: q_def)
  qed
qed

text \<open>The weighted sum, in thousandths.\<close>

definition luma :: "u8 \<Rightarrow> u8 \<Rightarrow> u8 \<Rightarrow> int" where
  "luma r g b = 299 * uint r + 587 * uint g + 114 * uint b"

definition gray_of :: "u8 \<Rightarrow> u8 \<Rightarrow> u8 \<Rightarrow> double" where
  "gray_of r g b = px_r (gray_pixel (pixel_of_bytes r g b))"

lemma gray_near: "near 11 (of_int (luma r g b) / 255000) (gray_of r g b)"
proof -
  let ?v = "\<lambda>b :: u8. of_int (uint b) / (255 :: rat)"
  have v: "0 \<le> ?v b" "?v b \<le> 1" for b
  proof -
    have "0 \<le> uint b" "uint b \<le> 255" using uint_lt2p [of b] by simp_all
    then have "(0::rat) \<le> of_int (uint b)" "(of_int (uint b) :: rat) \<le> of_int 255" by (simp_all only: of_int_le_iff of_int_0_le_iff)
    then show "0 \<le> ?v b" "?v b \<le> 1" by simp_all
  qed
  let ?sum = "dadd (dadd (dmul (byte_intensity r) RGray) (dmul (byte_intensity g) GGray)) (dmul (byte_intensity b) BGray)"
  let ?x = "?v r * (299 / 1000) + ?v g * (587 / 1000) + ?v b * (114 / 1000)"
  have terms: "near 3 (?v r * (299 / 1000)) (dmul (byte_intensity r) RGray)"
    "near 3 (?v g * (587 / 1000)) (dmul (byte_intensity g) GGray)"
    "near 3 (?v b * (114 / 1000)) (dmul (byte_intensity b) BGray)"
    by (rule near_dmul [OF byte_near weights_near(1) v], simp, simp)
      (rule near_dmul [OF byte_near weights_near(2) v], simp, simp,
       rule near_dmul [OF byte_near weights_near(3) v], simp, simp)
  have pos: "0 \<le> ?v r * (299 / 1000)" "0 \<le> ?v g * (587 / 1000)" "0 \<le> ?v b * (114 / 1000)"
    using v by (intro mult_nonneg_nonneg; simp)+
  have x: "0 \<le> ?x" "?x \<le> 1" using v [of r] v [of g] v [of b] pos by linarith+
  have "near (3 + 3 + 1) (?v r * (299 / 1000) + ?v g * (587 / 1000))
      (dadd (dmul (byte_intensity r) RGray) (dmul (byte_intensity g) GGray))"
    using terms pos x by (intro near_dadd) simp_all
  then have "near (7 + 3 + 1) ?x ?sum"
    using terms(3) pos x by (intro near_dadd) simp_all
  then have sum: "is_fin ?sum" "\<bar>fval ?sum - ?x\<bar> \<le> 11 * eps" by (simp_all add: near_def)
  have luma: "of_int (luma r g b) / 255000 = ?x" by (simp add: luma_def add_divide_distrib)
  have gray: "gray_of r g b = std_max d0 (std_min d1 ?sum)"
    by (simp add: gray_of_def gray_pixel_def pixel_of_bytes_def Let_def)
  note clamp = clamp_error [OF sum(1) x]
  show ?thesis
    unfolding near_def luma gray
    using conjunct1 [OF clamp] order_trans [OF conjunct2 [OF clamp] sum(2)] by (rule conjI)
qed

text \<open>What \<open>GetByte\<close> makes of it.\<close>

lemma gray_unit: "in_unit (gray_of r g b)"
  by (simp add: gray_of_def gray_pixel_def Let_def)

lemma gray_byte:
  "uint (byte_of (gray_of r g b)) = luma r g b div 1000 \<or>
    1000 dvd luma r g b \<and> uint (byte_of (gray_of r g b)) = luma r g b div 1000 - 1"
proof -
  let ?c = "gray_of r g b" and ?s = "luma r g b"
  let ?z = "dmul ?c (dint 255)"
  have c: "is_fin ?c" "\<bar>fval ?c - of_int ?s / 255000\<bar> \<le> 11 * eps" "0 \<le> fval ?c" "fval ?c \<le> 1"
    using gray_near [of r g b] gray_unit [of r g b] by (simp_all add: near_def in_unit_between between_fin)
  have "\<bar>fval ?c * fval (dint 255)\<bar> < 2 powi 8" using c(3,4) by (simp add: dint_255 abs_mult)
  from dmul_error [OF c(1) dint_255(1) this]
  have z: "is_fin ?z" "\<bar>fval ?z - fval ?c * 255\<bar> \<le> 128 * eps" by (simp_all add: dint_255 powi_46)
  have "\<bar>fval ?z - of_int ?s / 1000\<bar> \<le> 255 * (11 * eps) + 128 * eps" using c(2) z(2) by linarith
  then have near: "\<bar>fval ?z - of_int ?s / 1000\<bar> < 1 / 1000" unfolding eps_eq by linarith
  have "between 255 255 (dint 255)" by (rule between_dint) simp
  then have "between 0 (1 * 255) ?z"
    using gray_unit [of r g b] unfolding in_unit_between
    by (intro between_dmul(2)) (auto elim: between_mono)
  then have zb: "between 0 255 ?z" by simp
  then have "dtrunc ?z = Some \<lfloor>fval ?z\<rfloor>" by (intro dtrunc_floor) (simp_all add: between_fin)
  moreover from zb have "0 \<le> \<lfloor>fval ?z\<rfloor>" "\<lfloor>fval ?z\<rfloor> < 256"
    by (simp_all add: between_fin floor_less_iff)
  ultimately have "GetByte ?c = Inr (word_of_int \<lfloor>fval ?z\<rfloor>)" and "uint (word_of_int \<lfloor>fval ?z\<rfloor> :: u8) = \<lfloor>fval ?z\<rfloor>"
    by (simp_all add: GetByte_def to_u8_def uint_word_of_int)
  then have "uint (byte_of ?c) = \<lfloor>fval ?z\<rfloor>" by (simp add: byte_of_def)
  with floor_near [OF near] show ?thesis by simp
qed

subsection \<open>The file\<close>

definition gray_byte_of :: "u8 \<Rightarrow> u8 \<Rightarrow> u8 \<Rightarrow> u8" where
  "gray_byte_of r g b = byte_of (gray_of r g b)"

lemma pixel_bytes_gray:
  "pixel_bytes (gray_pixel (buf_pixel b c)) =
    replicate 3 (gray_byte_of (b ! (3 * c + 2)) (b ! (3 * c + 1)) (b ! (3 * c)))"
  by (simp add: pixel_bytes_def gray_byte_of_def gray_of_def buf_pixel_def gray_pixel_def Let_def numeral_3_eq_3)

lemma grayscale_run:
  assumes "good_file os fs input f i bs" and "writable os fs output"
  shows "main lm os fs [prog, input, output, ''-gs''] =
    Finished (fs(output \<mapsto> Regular (header_bytes f i @
      concat (map (\<lambda>j. concat (map (\<lambda>c. let row = file_row i bs j in
          replicate 3 (gray_byte_of (row ! (3 * c + 2)) (row ! (3 * c + 1)) (row ! (3 * c)))) [0..<unat (width i)]) @
        replicate (pad_len (unat (width i))) 0) [0..<unat (height i)])))) [] []"
proof -
  let ?img = "loaded f i bs" and ?h = "unat (height i)" and ?w = "unat (width i)"
  let ?img' = "?img\<lparr>pixels := map (map gray_pixel) (pixels ?img)\<rparr>"
  have ok: "wf_img ?img'" "unit_img ?img'"
    using grayscale_ok [OF loaded_wf [OF assms(1)]] by (simp_all add: grayscale_apply_def)
  have len: "length (pixels ?img') = ?h" using dims_height [OF read_grid_dims [of i "open_in bs"]] by simp
  have rows: "padded_row (pixels ?img' ! r) =
      concat (map (\<lambda>c. let row = file_row i bs (?h - 1 - r) in
        replicate 3 (gray_byte_of (row ! (3 * c + 2)) (row ! (3 * c + 1)) (row ! (3 * c)))) [0..<?w]) @
      replicate (pad_len ?w) 0" if r: "r < ?h" for r
    using dims_height [OF read_grid_dims [of i "open_in bs"]] r
    by (simp add: loaded_row [OF assms(1) r, simplified] padded_row_def comp_def pixel_bytes_gray Let_def)
  have parse: "parse fs [prog, input, output, ''-gs''] = Inr (Parsed input output [Grayscale])"
    using assms(1) by (simp add: parse_def PathCheck_def good_file_def parse_loop.simps parse_step_def GrayScaleFabric_Make_def)
  show ?thesis
    using main_writes [OF parse assms _ ok] written_rows [OF len le_refl rows]
    by (simp add: apply_filters_def grayscale_apply_def bmp_bytes_def)
qed

subsection \<open>Properties\<close>

text \<open>
  C9: a run with \<open>-gs\<close> writes the same headers and, for every pixel, three times the same byte: the mean of
  the pixel's bytes with the weights 0.299, 0.587 and 0.114, rounded down, or, when that mean is a whole
  number, possibly one less, because the sum of the roundings can end below it. White is written as 254.
\<close>

theorem grayscale_file:
  assumes "good_file os fs input f i bs" and "writable os fs output"
  shows "\<exists>gray. (\<forall>r g b. uint (gray r g b) = luma r g b div 1000 \<or>
        1000 dvd luma r g b \<and> uint (gray r g b) = luma r g b div 1000 - 1) \<and>
      gray 255 255 255 = (254 :: u8) \<and>
      main lm os fs [prog, input, output, ''-gs''] =
        Finished (fs(output \<mapsto> Regular (header_bytes f i @
          concat (map (\<lambda>j. concat (map (\<lambda>c. let row = file_row i bs j in
              replicate 3 (gray (row ! (3 * c + 2)) (row ! (3 * c + 1)) (row ! (3 * c)))) [0..<unat (width i)]) @
            replicate (pad_len (unat (width i))) 0) [0..<unat (height i)])))) [] []"
proof (intro exI [of _ gray_byte_of] conjI allI)
  show "gray_byte_of 255 255 255 = 254" by code_simp
  show "uint (gray_byte_of r g b) = luma r g b div 1000 \<or>
      1000 dvd luma r g b \<and> uint (gray_byte_of r g b) = luma r g b div 1000 - 1" for r g b
    unfolding gray_byte_of_def by (rule gray_byte)
qed (rule grayscale_run [OF assms])

text \<open>The pixel with blue 10, green 20 and red 30 has the mean 21.85.\<close>

theorem grayscale_file_witness:
  "main flat_libm free_access tiny_fs [''app'', ''a.bmp'', ''b.bmp'', ''-gs''] =
    Finished (tiny_fs(''b.bmp'' \<mapsto> Regular (header_bytes (fst (sample_headers 1 1)) (snd (sample_headers 1 1)) @
      [21, 21, 21, 0]))) [] []"
proof -
  obtain gray :: "u8 \<Rightarrow> u8 \<Rightarrow> u8 \<Rightarrow> u8" where gray: "\<forall>r g b. uint (gray r g b) = luma r g b div 1000 \<or>
        1000 dvd luma r g b \<and> uint (gray r g b) = luma r g b div 1000 - 1"
    and run: "main flat_libm free_access tiny_fs [''app'', ''a.bmp'', ''b.bmp'', ''-gs''] =
        Finished (tiny_fs(''b.bmp'' \<mapsto> Regular (header_bytes (fst (sample_headers 1 1)) (snd (sample_headers 1 1)) @
          concat (map (\<lambda>j. concat (map (\<lambda>c. let row = file_row (snd (sample_headers 1 1)) [10, 20, 30, 0] j in
              replicate 3 (gray (row ! (3 * c + 2)) (row ! (3 * c + 1)) (row ! (3 * c))))
              [0..<unat (width (snd (sample_headers 1 1)))]) @
            replicate (pad_len (unat (width (snd (sample_headers 1 1))))) 0)
            [0..<unat (height (snd (sample_headers 1 1)))])))) [] []"
    using grayscale_file [OF tiny_good tiny_writable, of flat_libm "''app''"] by blast
  have "luma 30 20 10 = 21850" by (simp add: luma_def)
  then have "\<not> 1000 dvd luma 30 20 10" "luma 30 20 10 div 1000 = uint (21 :: u8)" by simp_all
  with gray have "uint (gray 30 20 10) = uint (21 :: u8)" by metis
  then have "gray 30 20 10 = 21" by (rule word_uint_eqI)
  note v = this
  have h: "unat (width (snd (sample_headers 1 1))) = 1" "unat (height (snd (sample_headers 1 1))) = 1"
    by (simp_all add: sample_headers_def)
  have row: "file_row (snd (sample_headers 1 1)) [10, 20, 30, 0] 0 = [10, 20, 30, 0]"
    by (simp add: sample_headers_def file_row_def row_len_def pad_len_def)
  have "replicate (pad_len 1) (0 :: u8) = [0]" by (simp add: pad_len_def)
  then show ?thesis
    using run v unfolding h Let_def by (simp add: row [simplified] numeral_2_eq_2 numeral_3_eq_3)
qed

end
