(* ===== verification/Image_Effects.thy ===== *)
theory Image_Effects
  imports Image_Requests
begin

text \<open>
  Whole runs of the image processor with \<open>-blur\<close> and with \<open>-tunnel\<close>, from the bytes of the input file to those of
  the output file, whatever parameters the factories let through.
\<close>

subsection \<open>Blurs\<close>

lemma blurred_headers [simp]:
  "fh (blurred lm sigma n img) = fh img" "ih (blurred lm sigma n img) = ih img"
  by (simp_all add: blurred_def convolve_def)

lemma failing_run:
  assumes "parse fs argv = Inr (Parsed input output filters)" and "good_file os fs input f i bs"
    and "apply_filters lm filters (loaded f i bs) = Inl e"
  shows "main lm os fs argv = report fs e"
proof -
  have "ReadFile input (contents os fs input) = Inr (loaded f i bs)"
    using assms(2) ReadFile_accepted [of f i input bs] by (simp add: good_file_def contents_def loaded_def)
  then show ?thesis using assms(1,3) by (simp add: main_def process_file_def)
qed

lemma blur_run:
  assumes given: "good_file os fs input f i bs" "writable os fs output" and make: "BlurFabric_Make v = Inr blur"
    and sz: "blur_size (atof v) = Inr (int n)" "odd n"
  shows "main lm os fs [prog, input, output, ''-blur'', v] =
    (if deq (atof v) d0 then Finished fs [] (''Sigma can't be zero'' @ newline)
     else if 92681 < n then Undefined_run
     else Finished (fs(output \<mapsto> Regular (header_bytes f i @
       concat (map padded_row (rev (pixels (blurred lm (atof v) n (loaded f i bs)))))))) [] [])"
proof -
  have parse: "parse fs [prog, input, output, ''-blur'', v] = Inr (Parsed input output [blur])"
    using given(1) make by (simp add: parse_def PathCheck_def good_file_def parse_loop.simps parse_step_def)
  have f: "blur = GaussianBlur (atof v)" using make by (auto simp: BlurFabric_Make_def bnd_Inr_iff)
  note wf = loaded_wf [OF given(1)]
  note total = blur_total [OF wf sz, of lm]
  show ?thesis
  proof (cases "deq (atof v) d0 \<or> 92681 < n")
    case True
    with failing_run [OF parse given(1), of lm] total show ?thesis
      by (auto simp: apply_filters_def f report_def)
  next
    case False
    with main_writes [OF parse given _ blurred_ok(1) [OF wf] blurred_ok(2), of lm lm "atof v" n] total show ?thesis
      by (simp add: apply_filters_def f bmp_bytes_def)
  qed
qed

lemma blur_run_overflow:
  assumes given: "good_file os fs input f i bs" and make: "BlurFabric_Make v = Inr blur"
    and sz: "blur_size (atof v) = Inl Undefined"
  shows "main lm os fs [prog, input, output, ''-blur'', v] = Undefined_run"
proof -
  have parse: "parse fs [prog, input, output, ''-blur'', v] = Inr (Parsed input output [blur])"
    using given(1) make by (simp add: parse_def PathCheck_def good_file_def parse_loop.simps parse_step_def)
  have f: "blur = GaussianBlur (atof v)" using make by (auto simp: BlurFabric_Make_def bnd_Inr_iff)
  with failing_run [OF parse given, of lm Undefined] sz show ?thesis
    by (simp add: apply_filters_def blur_apply_def report_def)
qed

subsection \<open>Tunnels\<close>

text \<open>The three bytes the input file has for a pixel, and the pixel the tunnel shows at a cell.\<close>

definition bytes_at :: "info_header \<Rightarrow> u8 list \<Rightarrow> nat \<times> nat \<Rightarrow> u8 list" where
  "bytes_at i bs cell = take 3 (drop (3 * snd cell) (file_row i bs (unat (height i) - 1 - fst cell)))"

definition tunnel_shows :: "libm \<Rightarrow> filter \<Rightarrow> info_header \<Rightarrow> nat \<Rightarrow> nat \<Rightarrow> nat \<times> nat" where
  "tunnel_shows lm t i row col =
    (case t of
       Tunnel ch cw s r \<Rightarrow> swirl lm s r (tunnel_center ch (unat (height i))) (tunnel_center cw (unat (width i)))
         (unat (height i)) (unat (width i)) row col
     | _ \<Rightarrow> (row, col))"

lemma bytes_at_loaded:
  assumes given: "good_file os fs input f i bs" and "fst cell < unat (height i)" and "snd cell < unat (width i)"
  shows "pixel_bytes (pixels (loaded f i bs) ! fst cell ! snd cell) = bytes_at i bs cell"
proof -
  let ?b = "file_row i bs (unat (height i) - 1 - fst cell)" and ?c = "snd cell"
  have "length ?b = row_len i" using length_file_row [OF given] assms(2) by simp
  then have "3 * ?c + 2 < length ?b" using assms(3) by (simp add: row_len_def)
  then have "take 3 (drop (3 * ?c) ?b) = [?b ! (3 * ?c), ?b ! (3 * ?c + 1), ?b ! (3 * ?c + 2)]"
    by (simp add: numeral_3_eq_3 numeral_2_eq_2 flip: Cons_nth_drop_Suc)
  then show ?thesis
    using loaded_row [OF given assms(2)] assms(3) by (simp add: bytes_at_def pixel_bytes_buf)
qed

lemma tunnel_run:
  assumes lm: "libm_ok lm" and given: "good_file os fs input f i bs" "writable os fs output"
    and make: "TunnelFabric_Make a b s r = Inr tunnel"
  defines "ch \<equiv> tunnel_center (atoi a) (unat (height i))" and "cw \<equiv> tunnel_center (atoi b) (unat (width i))"
  shows "main lm os fs [prog, input, output, ''-tunnel'', a, b, s, r] =
    (if int (unat (height i)) \<le> ch then Finished fs [] (error_what (tunnel_error ch) @ newline)
     else if int (unat (width i)) \<le> cw then Finished fs [] (error_what (tunnel_error cw) @ newline)
     else Finished (fs(output \<mapsto> Regular (header_bytes f i @
       concat (map (\<lambda>j. concat (map (\<lambda>col. bytes_at i bs (tunnel_shows lm tunnel i (unat (height i) - 1 - j) col))
           [0..<unat (width i)]) @ replicate (pad_len (unat (width i))) 0) [0..<unat (height i)])))) [] [])"
proof -
  let ?img = "loaded f i bs" and ?h = "unat (height i)" and ?w = "unat (width i)"
  have parse: "parse fs [prog, input, output, ''-tunnel'', a, b, s, r] = Inr (Parsed input output [tunnel])"
    using given(1) make by (simp add: parse_def PathCheck_def good_file_def parse_loop.simps parse_step_def)
  have t: "tunnel = Tunnel (atoi a) (atoi b) (atof s) (atof r)" and ok: "filter_ok tunnel"
    using make Tunnel_Make_Inr by (auto simp: TunnelFabric_Make_def bnd_Inr_iff)
  note wf = loaded_wf [OF given(1)]
  have run: "apply_filters lm [tunnel] ?img =
      (if int ?h \<le> ch then Inl (tunnel_error ch) else if int ?w \<le> cw then Inl (tunnel_error cw)
       else Inr (swirled lm (atof s) (atof r) ch cw ?img))"
    using tunnel_apply_eq [OF wf lm, of "atof s" "atof r" "atoi a" "atoi b"] ok
    by (simp add: t apply_filters_def filter_ok_def ch_def cw_def Let_def)
  show ?thesis
  proof (cases "int ?h \<le> ch \<or> int ?w \<le> cw")
    case True
    with failing_run [OF parse given(1), of lm] run show ?thesis
      by (auto simp: report_def tunnel_error_def)
  next
    case False
    let ?img' = "swirled lm (atof s) (atof r) ch cw ?img"
    have keeps: "wf_img ?img'" "unit_img ?img'"
      using chain.chain_keeps [of "[tunnel]" lm ?img ?img'] lm ok wf run False by (simp_all add: apply_filters_def)
    have len: "length (pixels ?img') = ?h" by (simp add: swirled_def tabulate_def)
    have rows: "padded_row (pixels ?img' ! row) =
        concat (map (\<lambda>col. bytes_at i bs (tunnel_shows lm tunnel i (?h - 1 - (?h - 1 - row)) col)) [0..<?w]) @
        replicate (pad_len ?w) 0" if row: "row < ?h" for row
    proof -
      let ?src = "tunnel_shows lm tunnel i row"
      have same: "?h - 1 - (?h - 1 - row) = row" using row by simp
      have "pixel_bytes (pixels ?img ! fst (?src col) ! snd (?src col)) = bytes_at i bs (?src col)"
        if "col < ?w" for col
        using swirl_in_range [OF row that] by (intro bytes_at_loaded [OF given(1)]) (simp_all add: tunnel_shows_def t)
      then have bytes: "map (\<lambda>col. pixel_bytes (pixels ?img ! fst (?src col) ! snd (?src col))) [0..<?w] =
          map (\<lambda>col. bytes_at i bs (?src col)) [0..<?w]" by (intro map_cong) auto
      have px: "pixels ?img' ! row = map (\<lambda>col. pixels ?img ! fst (?src col) ! snd (?src col)) [0..<?w]"
        using row by (simp add: swirled_def tabulate_def tunnel_shows_def t ch_def cw_def Let_def)
      show ?thesis unfolding px same padded_row_def map_map comp_def bytes by simp
    qed
    have headers: "fh ?img' = f" "ih ?img' = i" by (simp_all add: swirled_def)
    let ?g = "\<lambda>j. concat (map (\<lambda>col. bytes_at i bs (tunnel_shows lm tunnel i (?h - 1 - j) col)) [0..<?w]) @
      replicate (pad_len ?w) 0"
    have "concat (map padded_row (rev (pixels ?img'))) = concat (map ?g [?h - ?h..<?h])"
      by (rule written_rows [OF len le_refl]) (rule rows)
    then have written: "concat (map padded_row (rev (pixels ?img'))) = concat (map ?g [0..<?h])"
      by (simp only: diff_self_eq_0)
    from run False have "apply_filters lm [tunnel] ?img = Inr ?img'" by simp
    from main_writes [OF parse given this keeps] show ?thesis
      using False unfolding bmp_bytes_def headers written by simp
  qed
qed

lemma tunnel_shows_cell:
  assumes "TunnelFabric_Make a b s r = Inr tunnel" and "row < unat (height i)" and "col < unat (width i)"
  defines "ch \<equiv> tunnel_center (atoi a) (unat (height i))" and "cw \<equiv> tunnel_center (atoi b) (unat (width i))"
  shows "let d_row = dint (int row - ch); d_col = dint (int col - cw);
      distance = l_sqrt lm (dadd (dmul d_row d_row) (dmul d_col d_col)); src = tunnel_shows lm tunnel i row col
    in fst src < unat (height i) \<and> snd src < unat (width i) \<and>
      (dlt distance (atof r) \<and> dlt d0 distance \<or> src = (row, col))"
proof -
  have "tunnel = Tunnel (atoi a) (atoi b) (atof s) (atof r)"
    using assms(1) by (auto simp: TunnelFabric_Make_def bnd_Inr_iff)
  with swirl_in_range [OF assms(2,3)] swirl_outside show ?thesis
    unfolding Let_def ch_def cw_def by (simp add: tunnel_shows_def)
qed

subsection \<open>Properties\<close>

text \<open>
  C11: a run with \<open>-blur\<close>, whatever number the parser accepts. The size of the kernel is four times sigma,
  made odd, or undefined when that is no \<open>int\<close>. A sigma of zero ends with a message; a size above 92681 is
  undefined because the square of a distance is no \<open>int\<close>; and otherwise the same headers are written with
  the rows of the picture convolved with the row of normalised Gaussian weights and then with the same
  weights as a column, the separable convolution that a blur is meant to be. The weights read the same from
  both sides, and no index is out of range.
\<close>

theorem blur_file:
  assumes "good_file os fs input f i bs" and "writable os fs output" and "BlurFabric_Make v = Inr blur"
  shows "(blur_size (atof v) = Inl Undefined \<and> main lm os fs [prog, input, output, ''-blur'', v] = Undefined_run) \<or>
    (\<exists>n. blur_size (atof v) = Inr (int n) \<and> odd n \<and>
      (let k = gauss_row lm (atof v) n; img = loaded f i bs;
           blurred = convolve (map (\<lambda>x. [x]) k) (convolve [k] img) in
       rev k = k \<and> length k = n \<and> main lm os fs [prog, input, output, ''-blur'', v] =
         (if deq (atof v) d0 then Finished fs [] (''Sigma can't be zero'' @ newline)
          else if 92681 < n then Undefined_run
          else Finished (fs(output \<mapsto> Regular (header_bytes f i @
            concat (map padded_row (rev (pixels blurred)))))) [] [])))"
proof -
  have "between 0 999999999 (atof v)" using assms(3) by (auto simp: BlurFabric_Make_def bnd_Inr_iff intro: atof_bounds)
  from blur_size_odd [OF this] show ?thesis
    using blur_run [OF assms] blur_run_overflow [OF assms(1,3)] gauss_row_rev
    unfolding Let_def blurred_def by auto
qed

text \<open>With a sigma of 30000 the run is undefined, and with one of zero it ends with a message.\<close>

theorem blur_file_witness:
  "main flat_libm free_access tiny_fs [''app'', ''a.bmp'', ''b.bmp'', ''-blur'', ''30000''] = Undefined_run \<and>
   main flat_libm free_access tiny_fs [''app'', ''a.bmp'', ''b.bmp'', ''-blur'', ''0''] =
     Finished tiny_fs [] (''Sigma can't be zero'' @ newline)"
proof -
  have float: "IsFloat ''30000'' = Inr ()" "IsFloat ''0'' = Inr ()" by code_simp+
  have make: "BlurFabric_Make ''30000'' = Inr (GaussianBlur (atof ''30000''))"
    "BlurFabric_Make ''0'' = Inr (GaussianBlur (atof ''0''))" by (simp_all add: BlurFabric_Make_def float)
  have num: "atof ''30000'' = dlit 30000 1" "atof ''0'' = dlit 0 1"
    by (simp_all add: atof_def dec_val_def digit_val_def is_digit_def)
  have sz: "blur_size (dlit 30000 1) = Inr 120001" "\<not> deq (dlit 30000 1) d0" "blur_size (dlit 0 1) = Inr 1"
    "deq (dlit 0 1) d0" by code_simp+
  show ?thesis
    using blur_file [OF tiny_good tiny_writable make(1), of flat_libm "''app''"]
      blur_file [OF tiny_good tiny_writable make(2), of flat_libm "''app''"]
    unfolding num sz Let_def by (auto simp: sz)
qed

text \<open>A picture of one row and two columns, so that rows and columns are told apart.\<close>

definition wide_fs :: filesystem where
  "wide_fs = [''a.bmp'' \<mapsto> Regular (header_bytes (fst (sample_headers 1 2)) (snd (sample_headers 1 2)) @
     [10, 20, 30, 40, 50, 60, 0, 0])]"

lemma wide_good:
  "good_file free_access wide_fs ''a.bmp'' (fst (sample_headers 1 2)) (snd (sample_headers 1 2)) [10, 20, 30, 40, 50, 60, 0, 0]"
  by (simp add: good_file_def wide_fs_def free_access_def sample_headers_def accepted_def row_bytes_fit_def
      row_len_def pad_len_def)

lemma wide_writable: "writable free_access wide_fs ''b.bmp''"
  by (simp add: writable_def free_access_def wide_fs_def)

text \<open>
  C12: a run with \<open>-tunnel\<close>, whatever parameters the parser accepts. Its first number is the row of the centre,
  from the top, and the second the column, although \<open>HELP_INFO\<close> of \<open>parser.h\<close> calls the first \<open>x\<close> and the second \<open>y\<close>;
  a number that is zero stands for the middle of its own axis, whatever the other one is. A centre outside of
  the picture ends the run with a message, the row first. Otherwise the same headers are written, and for every
  pixel the three bytes the input file has for the pixel that \<open>tunnel_shows\<close> names, a pixel of the picture: the
  tunnel moves pixels and changes none. A pixel that is the centre or not inside the radius stays in its place.
\<close>

theorem tunnel_file:
  assumes "libm_ok lm" and "good_file os fs input f i bs" and "writable os fs output"
    and "TunnelFabric_Make a b s r = Inr tunnel"
    and "ch = tunnel_center (atoi a) (unat (height i))" and "cw = tunnel_center (atoi b) (unat (width i))"
  shows "main lm os fs [prog, input, output, ''-tunnel'', a, b, s, r] =
      (if int (unat (height i)) \<le> ch then Finished fs [] (error_what (tunnel_error ch) @ newline)
       else if int (unat (width i)) \<le> cw then Finished fs [] (error_what (tunnel_error cw) @ newline)
       else Finished (fs(output \<mapsto> Regular (header_bytes f i @
         concat (map (\<lambda>j. concat (map (\<lambda>col. bytes_at i bs (tunnel_shows lm tunnel i (unat (height i) - 1 - j) col))
             [0..<unat (width i)]) @ replicate (pad_len (unat (width i))) 0) [0..<unat (height i)])))) [] []) \<and>
    (\<forall>row < unat (height i). \<forall>col < unat (width i).
      let d_row = dint (int row - ch); d_col = dint (int col - cw);
        distance = l_sqrt lm (dadd (dmul d_row d_row) (dmul d_col d_col)); src = tunnel_shows lm tunnel i row col
      in fst src < unat (height i) \<and> snd src < unat (width i) \<and>
        (dlt distance (atof r) \<and> dlt d0 distance \<or> src = (row, col)))"
  using tunnel_run [OF assms(1-4)] tunnel_shows_cell [OF assms(4)] assms(5,6) by simp

text \<open>The centre \<open>0 1\<close> is a pixel of the wide picture, and \<open>1 0\<close> is not.\<close>

theorem tunnel_file_witness:
  "main flat_libm free_access wide_fs [''app'', ''a.bmp'', ''b.bmp'', ''-tunnel'', ''0'', ''1'', ''3'', ''0''] =
     Finished (wide_fs(''b.bmp'' \<mapsto> Regular (header_bytes (fst (sample_headers 1 2)) (snd (sample_headers 1 2)) @
       [10, 20, 30, 40, 50, 60, 0, 0]))) [] [] \<and>
   main flat_libm free_access wide_fs [''app'', ''a.bmp'', ''b.bmp'', ''-tunnel'', ''1'', ''0'', ''3'', ''0''] =
     Finished wide_fs [] (error_what (tunnel_error 1) @ newline)"
proof -
  have ok: "IsInteger ''0'' = Inr ()" "IsInteger ''1'' = Inr ()" "IsFloat ''3'' = Inr ()" "IsFloat ''0'' = Inr ()"
    by code_simp+
  have num: "atoi ''0'' = 0" "atoi ''1'' = 1" by (simp_all add: atoi_def dec_val_def digit_val_def is_digit_def)
  have none: "\<not> (dlt x (atof ''0'') \<and> dlt d0 x)" for x
  proof -
    have "dlit 0 1 = d0" by code_simp
    then have "atof ''0'' = d0" by (simp add: atof_def dec_val_def digit_val_def is_digit_def)
    then show ?thesis using dlt_asym by metis
  qed
  have make: "TunnelFabric_Make ''0'' ''1'' ''3'' ''0'' = Inr (Tunnel 0 1 (atof ''3'') (atof ''0''))"
    "TunnelFabric_Make ''1'' ''0'' ''3'' ''0'' = Inr (Tunnel 1 0 (atof ''3'') (atof ''0''))"
    by (simp_all add: TunnelFabric_Make_def ok num)
  let ?i = "snd (sample_headers 1 2)"
  have h: "unat (height ?i) = 1" "unat (width ?i) = 2" by (simp_all add: sample_headers_def)
  have "replicate (pad_len 2) (0 :: u8) = [0, 0]" by (simp add: pad_len_def numeral_2_eq_2)
  moreover have "bytes_at ?i [10, 20, 30, 40, 50, 60, 0, 0] (0, 0) = [10, 20, 30]"
    "bytes_at ?i [10, 20, 30, 40, 50, 60, 0, 0] (0, Suc 0) = [40, 50, 60]"
    by (simp_all add: bytes_at_def file_row_def row_len_def pad_len_def sample_headers_def)
  moreover note run = tunnel_file [OF flat_libm_ok wide_good wide_writable make(1) refl refl, of "''app''"]
  moreover have "tunnel_shows flat_libm (Tunnel 0 1 (atof ''3'') (atof ''0'')) ?i 0 0 = (0, 0)"
    "tunnel_shows flat_libm (Tunnel 0 1 (atof ''3'') (atof ''0'')) ?i 0 (Suc 0) = (0, Suc 0)"
    using run [THEN conjunct2, rule_format, of 0 0] run [THEN conjunct2, rule_format, of 0 "Suc 0"] none
    unfolding h by (simp_all add: Let_def)
  moreover note tunnel_file [OF flat_libm_ok wide_good wide_writable make(2) refl refl, of "''app''"]
  ultimately show ?thesis unfolding h by (simp add: num tunnel_center_def numeral_2_eq_2)
qed

end
