(* ===== verification/Sharded_Cache.thy ===== *)
theory Sharded_Cache
  imports Prelude
begin

text \<open>
  \<open>cache/cache.h\<close>: a cache of shards. A shard is a map and a queue of tasks which its own thread runs;
  \<open>set_async\<close>, \<open>remove_async\<close> and \<open>get_async\<close> push a task on the shard the key hashes to. A task is the
  closure the code pushes, as a value; \<open>worker_step\<close> is the thread of one shard running the task at
  the head of its queue. The hash function is the parameter \<open>hash\<close>.
\<close>

subsection \<open>Shards\<close>

datatype ('k, 'v) task = Get_Task 'k nat | Set_Task 'k 'v | Remove_Task 'k

record ('k, 'v) shard =
  storage :: "'k \<Rightarrow> 'v option"
  tasks :: "('k, 'v) task list"

definition new_shard :: "('k, 'v) shard" where
  "new_shard = \<lparr>storage = Map.empty, tasks = []\<rparr>"

definition shard_get :: "('k, 'v) shard \<Rightarrow> 'k \<Rightarrow> 'v option" where
  "shard_get s key = storage s key"

definition shard_set :: "'k \<Rightarrow> 'v \<Rightarrow> ('k, 'v) shard \<Rightarrow> ('k, 'v) shard" where
  "shard_set key v s = s\<lparr>storage := (storage s)(key \<mapsto> v)\<rparr>"

definition shard_remove :: "'k \<Rightarrow> ('k, 'v) shard \<Rightarrow> ('k, 'v) shard" where
  "shard_remove key s = s\<lparr>storage := (storage s)(key := None)\<rparr>"

definition push_task :: "('k, 'v) task \<Rightarrow> ('k, 'v) shard \<Rightarrow> ('k, 'v) shard" where
  "push_task t s = s\<lparr>tasks := tasks s @ [t]\<rparr>"

subsection \<open>The cache\<close>

text \<open>A promise has no value until its task has run.\<close>

record ('k, 'v) cache =
  shards :: "('k, 'v) shard list"
  promises :: "'v option option list"

text \<open>A negative number of shards makes \<open>reserve\<close> throw.\<close>

definition Cache_new :: "int \<Rightarrow> ('k, 'v) cache option" where
  "Cache_new shard_count =
    (if shard_count < 0 then None
     else Some \<lparr>shards = replicate (nat shard_count) new_shard, promises = []\<rparr>)"

definition getId :: "('k \<Rightarrow> nat) \<Rightarrow> ('k, 'v) cache \<Rightarrow> 'k \<Rightarrow> nat res" where
  "getId hash c key =
    (if shards c = [] then Inl Undefined else Inr (hash key mod length (shards c)))"

definition get_sync :: "('k \<Rightarrow> nat) \<Rightarrow> ('k, 'v) cache \<Rightarrow> 'k \<Rightarrow> 'v option res" where
  "get_sync hash c key =
    bnd (getId hash c key) (\<lambda>i. bnd (vec_at (shards c) (int i)) (\<lambda>s. Inr (shard_get s key)))"

definition push_on :: "nat \<Rightarrow> ('k, 'v) task \<Rightarrow> ('k, 'v) cache \<Rightarrow> ('k, 'v) cache res" where
  "push_on i t c =
    bnd (vec_at (shards c) (int i)) (\<lambda>s.
    bnd (vec_put (shards c) (int i) (push_task t s)) (\<lambda>ss. Inr (c\<lparr>shards := ss\<rparr>)))"

text \<open>\<open>get_async\<close> also returns the promise its future reads.\<close>

definition get_async :: "('k \<Rightarrow> nat) \<Rightarrow> 'k \<Rightarrow> ('k, 'v) cache \<Rightarrow> (nat \<times> ('k, 'v) cache) res" where
  "get_async hash key c =
    (let promise = length (promises c); c = c\<lparr>promises := promises c @ [None]\<rparr> in
     bnd (getId hash c key) (\<lambda>i. bnd (push_on i (Get_Task key promise) c) (\<lambda>c. Inr (promise, c))))"

definition set_async :: "('k \<Rightarrow> nat) \<Rightarrow> 'k \<Rightarrow> 'v \<Rightarrow> ('k, 'v) cache \<Rightarrow> ('k, 'v) cache res" where
  "set_async hash key v c = bnd (getId hash c key) (\<lambda>i. push_on i (Set_Task key v) c)"

definition remove_async :: "('k \<Rightarrow> nat) \<Rightarrow> 'k \<Rightarrow> ('k, 'v) cache \<Rightarrow> ('k, 'v) cache res" where
  "remove_async hash key c = bnd (getId hash c key) (\<lambda>i. push_on i (Remove_Task key) c)"

text \<open>A task run by the thread of shard \<open>i\<close>, and one turn of \<open>worker_loop\<close> on a nonempty queue.\<close>

fun run_task :: "nat \<Rightarrow> ('k, 'v) task \<Rightarrow> ('k, 'v) cache \<Rightarrow> ('k, 'v) cache" where
  "run_task i (Get_Task key p) c = c\<lparr>promises := (promises c)[p := Some (shard_get (shards c ! i) key)]\<rparr>"
| "run_task i (Set_Task key v) c = c\<lparr>shards := (shards c)[i := shard_set key v (shards c ! i)]\<rparr>"
| "run_task i (Remove_Task key) c = c\<lparr>shards := (shards c)[i := shard_remove key (shards c ! i)]\<rparr>"

definition worker_step :: "nat \<Rightarrow> ('k, 'v) cache \<Rightarrow> ('k, 'v) cache" where
  "worker_step i c =
    (if i < length (shards c) then
       case tasks (shards c ! i) of
         [] \<Rightarrow> c
       | t # ts \<Rightarrow> run_task i t (c\<lparr>shards := (shards c)[i := (shards c ! i)\<lparr>tasks := ts\<rparr>]\<rparr>)
     else c)"

text \<open>An execution: calls of the clients and turns of the workers, in any order.\<close>

datatype ('k, 'v) event = Call_Get 'k | Call_Set 'k 'v | Call_Remove 'k | Worker nat

fun perform :: "('k \<Rightarrow> nat) \<Rightarrow> ('k, 'v) event \<Rightarrow> ('k, 'v) cache \<Rightarrow> ('k, 'v) cache res" where
  "perform hash (Call_Get key) c = bnd (get_async hash key c) (\<lambda>(_, c). Inr c)"
| "perform hash (Call_Set key v) c = set_async hash key v c"
| "perform hash (Call_Remove key) c = remove_async hash key c"
| "perform hash (Worker i) c = Inr (worker_step i c)"

definition execute :: "('k \<Rightarrow> nat) \<Rightarrow> ('k, 'v) event list \<Rightarrow> ('k, 'v) cache \<Rightarrow> ('k, 'v) cache res" where
  "execute hash es c = for_each (perform hash) es c"

subsection \<open>A store, as its clients see it\<close>

text \<open>
  The contract of a key-value store. Its operations may fail on a state outside \<open>inv\<close>; \<open>view\<close> is what
  a lookup returns.
\<close>

locale kv_store =
  fixes inv :: "'s \<Rightarrow> bool" and view :: "'s \<Rightarrow> 'k \<Rightarrow> 'v option"
    and put :: "'k \<Rightarrow> 'v \<Rightarrow> 's \<Rightarrow> 's res" and del :: "'k \<Rightarrow> 's \<Rightarrow> 's res"
  assumes put_law: "inv s \<Longrightarrow> \<exists>s'. put key v s = Inr s' \<and> inv s' \<and> view s' = (view s)(key \<mapsto> v)"
    and del_law: "inv s \<Longrightarrow> \<exists>s'. del key s = Inr s' \<and> inv s' \<and> view s' = (view s)(key := None)"
begin

text \<open>A log of writes: what it does to the store, and to the map.\<close>

fun store_op :: "'k \<times> 'v option \<Rightarrow> 's \<Rightarrow> 's res" where
  "store_op (key, Some v) s = put key v s"
| "store_op (key, None) s = del key s"

lemma store_op_law: "inv s \<Longrightarrow> \<exists>s'. store_op w s = Inr s' \<and> inv s' \<and> view s' = (view s)(fst w := snd w)"
  by (cases w; cases "snd w") (use put_law del_law in auto)

lemma log_law:
  "inv s \<Longrightarrow> \<exists>s'. for_each store_op ws s = Inr s' \<and> inv s' \<and>
    view s' = fold (\<lambda>(key, v) m. m(key := v)) ws (view s)"
proof (induction ws arbitrary: s)
  case (Cons w ws)
  from store_op_law [OF Cons.prems] obtain s' where
    s': "store_op w s = Inr s'" "inv s'" "view s' = (view s)(fst w := snd w)" by blast
  from Cons.IH [OF s'(2)] show ?case by (simp add: s' case_prod_beta)
qed simp

text \<open>The last write to a key wins.\<close>

lemma last_write:
  assumes "inv s" and "key \<notin> fst ` set ws2"
  shows "\<exists>s'. for_each store_op (ws1 @ (key, v) # ws2) s = Inr s' \<and> inv s' \<and> view s' key = v"
proof -
  have other: "fold (\<lambda>(key, v) m. m(key := v)) ws2 m key = m key" for m
    using assms(2) by (induction ws2 arbitrary: m) auto
  from log_law [OF assms(1), of "ws1 @ (key, v) # ws2"] show ?thesis by (auto simp: other)
qed

end

interpretation shard: kv_store "\<lambda>_. True" shard_get "\<lambda>key v s. Inr (shard_set key v s)"
  "\<lambda>key s. Inr (shard_remove key s)"
  by unfold_locales (auto simp: shard_get_def shard_set_def shard_remove_def fun_eq_iff)


subsection \<open>The cache as one map\<close>

text \<open>
  What a shard's map becomes once the tasks pushed so far have run, and the map of the whole cache:
  every key as its own shard will have it.
\<close>

fun task_effect :: "('k, 'v) task \<Rightarrow> ('k \<Rightarrow> 'v option) \<Rightarrow> 'k \<Rightarrow> 'v option" where
  "task_effect (Get_Task key p) m = m"
| "task_effect (Set_Task key v) m = m(key \<mapsto> v)"
| "task_effect (Remove_Task key) m = m(key := None)"

definition outcome :: "('k, 'v) shard \<Rightarrow> 'k \<Rightarrow> 'v option" where
  "outcome s = fold task_effect (tasks s) (storage s)"

definition settled :: "('k \<Rightarrow> nat) \<Rightarrow> ('k, 'v) cache \<Rightarrow> 'k \<Rightarrow> 'v option" where
  "settled hash c key = outcome (shards c ! (hash key mod length (shards c))) key"

lemma outcome_push: "outcome (push_task t s) = task_effect t (outcome s)"
  by (simp add: outcome_def push_task_def)

lemma push_on_eq:
  "i < length (shards c) \<Longrightarrow>
    push_on i t c = Inr (c\<lparr>shards := (shards c)[i := push_task t (shards c ! i)]\<rparr>)"
  by (simp add: push_on_def)

lemma getId_eq: "shards c \<noteq> [] \<Longrightarrow> getId hash c key = Inr (hash key mod length (shards c))"
  by (simp add: getId_def)

lemma slot_in_range: "shards c \<noteq> [] \<Longrightarrow> hash key mod length (shards c) < length (shards c)"
  by simp

lemma set_async_eq: "shards c \<noteq> [] \<Longrightarrow> set_async hash key v c =
    Inr (c\<lparr>shards := (shards c)[hash key mod length (shards c) :=
      push_task (Set_Task key v) (shards c ! (hash key mod length (shards c)))]\<rparr>)"
  by (simp add: set_async_def getId_eq push_on_eq)

lemma remove_async_eq: "shards c \<noteq> [] \<Longrightarrow> remove_async hash key c =
    Inr (c\<lparr>shards := (shards c)[hash key mod length (shards c) :=
      push_task (Remove_Task key) (shards c ! (hash key mod length (shards c)))]\<rparr>)"
  by (simp add: remove_async_def getId_eq push_on_eq)

lemma get_async_eq: "shards c \<noteq> [] \<Longrightarrow> get_async hash key c =
    Inr (length (promises c), c\<lparr>promises := promises c @ [None],
      shards := (shards c)[hash key mod length (shards c) :=
        push_task (Get_Task key (length (promises c))) (shards c ! (hash key mod length (shards c)))]\<rparr>)"
  by (simp add: get_async_def getId_def push_on_eq Let_def)

text \<open>Pushing a task on a key's shard changes the map at that key and nowhere else.\<close>

fun task_key :: "('k, 'v) task \<Rightarrow> 'k" where
  "task_key (Get_Task key p) = key"
| "task_key (Set_Task key v) = key"
| "task_key (Remove_Task key) = key"

lemma task_effect_other: "key \<noteq> task_key t \<Longrightarrow> task_effect t m key = m key"
  by (cases t) simp_all

lemma task_effect_same: "task_effect t m (task_key t) = (case t of Get_Task key p \<Rightarrow> m key
    | Set_Task key v \<Rightarrow> Some v | Remove_Task key \<Rightarrow> None)"
  by (cases t) simp_all

lemma settled_promises [simp]: "settled hash (c\<lparr>promises := ps\<rparr>) = settled hash c"
  by (simp add: settled_def fun_eq_iff)

lemma settled_push:
  assumes "shards c \<noteq> []"
  shows "settled hash (c\<lparr>shards := (shards c)[hash (task_key t) mod length (shards c) :=
      push_task t (shards c ! (hash (task_key t) mod length (shards c)))]\<rparr>) = task_effect t (settled hash c)"
proof
  fix key
  let ?i = "hash (task_key t) mod length (shards c)"
  have i: "?i < length (shards c)" using assms by simp
  show "settled hash (c\<lparr>shards := (shards c)[?i := push_task t (shards c ! ?i)]\<rparr>) key =
      task_effect t (settled hash c) key"
  proof (cases "key = task_key t")
    case True
    then show ?thesis using i
      by (cases t) (simp_all add: settled_def outcome_push)
  next
    case False
    then show ?thesis using i
      by (cases "hash key mod length (shards c) = ?i")
        (simp_all add: settled_def outcome_push task_effect_other)
  qed
qed

interpretation eventual: kv_store "\<lambda>c. shards c \<noteq> []" "settled hash" "set_async hash" "remove_async hash"
  for hash :: "'k \<Rightarrow> nat"
proof
  fix c :: "('k, 'v) cache" and key :: 'k and v :: 'v
  assume c: "shards c \<noteq> []"
  show "\<exists>c'. set_async hash key v c = Inr c' \<and> shards c' \<noteq> [] \<and> settled hash c' = (settled hash c)(key \<mapsto> v)"
    using settled_push [OF c, of hash "Set_Task key v"] c by (simp add: set_async_eq)
  show "\<exists>c'. remove_async hash key c = Inr c' \<and> shards c' \<noteq> [] \<and>
      settled hash c' = (settled hash c)(key := None)"
    using settled_push [OF c, of hash "Remove_Task key"] c by (simp add: remove_async_eq)
qed

text \<open>A turn of a worker leaves the map as it is.\<close>

definition task_shard :: "('k, 'v) task \<Rightarrow> ('k, 'v) shard \<Rightarrow> ('k, 'v) shard" where
  "task_shard t s = s\<lparr>storage := task_effect t (storage s)\<rparr>"

definition task_promises :: "('k, 'v) task \<Rightarrow> ('k, 'v) shard \<Rightarrow> 'v option option list \<Rightarrow> 'v option option list" where
  "task_promises t s ps = (case t of Get_Task key p \<Rightarrow> ps[p := Some (storage s key)] | _ \<Rightarrow> ps)"

lemma worker_step_eq:
  assumes "i < length (shards c)" and "tasks (shards c ! i) = t # ts"
  shows "worker_step i c = c\<lparr>promises := task_promises t (shards c ! i) (promises c),
    shards := (shards c)[i := task_shard t ((shards c ! i)\<lparr>tasks := ts\<rparr>)]\<rparr>"
  using assms
  by (cases t) (simp_all add: worker_step_def task_promises_def task_shard_def shard_get_def shard_set_def
      shard_remove_def)


lemma outcome_task_shard: "tasks s = t # ts \<Longrightarrow> outcome (task_shard t (s\<lparr>tasks := ts\<rparr>)) = outcome s"
  by (simp add: outcome_def task_shard_def)

lemma settled_worker: "settled hash (worker_step i c) = settled hash c"
proof (cases "i < length (shards c) \<and> tasks (shards c ! i) \<noteq> []")
  case True
  then obtain t ts where i: "i < length (shards c)" and ts: "tasks (shards c ! i) = t # ts"
    by (auto simp: neq_Nil_conv)
  show ?thesis
  proof
    fix key
    show "settled hash (worker_step i c) key = settled hash c key"
      using i outcome_task_shard [OF ts]
      by (cases "hash key mod length (shards c) = i")
        (simp_all add: worker_step_eq [OF i ts] settled_def)
  qed
next
  case False
  then show ?thesis by (auto simp: worker_step_def split: list.splits)
qed

subsection \<open>Refinement: one map, and futures that read it at the time of the call\<close>

text \<open>
  The abstract cache: calls take effect at once; \<open>answers\<close> are the values the futures are to deliver,
  in the order of the \<open>get_async\<close> calls.
\<close>

record ('k, 'v) atomic =
  content :: "'k \<Rightarrow> 'v option"
  answers :: "'v option list"

fun atomic_step :: "('k, 'v) event \<Rightarrow> ('k, 'v) atomic \<Rightarrow> ('k, 'v) atomic" where
  "atomic_step (Call_Get key) a = a\<lparr>answers := answers a @ [content a key]\<rparr>"
| "atomic_step (Call_Set key v) a = a\<lparr>content := (content a)(key \<mapsto> v)\<rparr>"
| "atomic_step (Call_Remove key) a = a\<lparr>content := (content a)(key := None)\<rparr>"
| "atomic_step (Worker i) a = a"

definition atomic_run :: "('k, 'v) event list \<Rightarrow> ('k, 'v) atomic" where
  "atomic_run es = fold atomic_step es \<lparr>content = Map.empty, answers = []\<rparr>"

text \<open>The pending lookups of a queue will find the answers they are to deliver.\<close>

fun on_course :: "'v option list \<Rightarrow> ('k \<Rightarrow> 'v option) \<Rightarrow> ('k, 'v) task list \<Rightarrow> bool" where
  "on_course as m [] \<longleftrightarrow> True"
| "on_course as m (t # ts) \<longleftrightarrow>
    (case t of Get_Task key p \<Rightarrow> p < length as \<and> as ! p = m key | _ \<Rightarrow> True) \<and>
    on_course as (task_effect t m) ts"

lemma on_course_append:
  "on_course as m (ts @ us) \<longleftrightarrow> on_course as m ts \<and> on_course as (fold task_effect ts m) us"
  by (induction ts arbitrary: m) simp_all

lemma on_course_more: "on_course as m ts \<Longrightarrow> on_course (as @ bs) m ts"
  by (induction ts arbitrary: m) (auto simp: nth_append split: task.splits)

definition pending :: "('k, 'v) cache \<Rightarrow> nat \<Rightarrow> bool" where
  "pending c p \<longleftrightarrow> (\<exists>i < length (shards c). \<exists>key. Get_Task key p \<in> set (tasks (shards c ! i)))"

definition refines :: "('k \<Rightarrow> nat) \<Rightarrow> ('k, 'v) cache \<Rightarrow> ('k, 'v) atomic \<Rightarrow> bool" where
  "refines hash c a \<longleftrightarrow> shards c \<noteq> [] \<and> settled hash c = content a \<and>
     length (promises c) = length (answers a) \<and>
     (\<forall>i < length (shards c). on_course (answers a) (storage (shards c ! i)) (tasks (shards c ! i))) \<and>
     (\<forall>p < length (promises c). case promises c ! p of None \<Rightarrow> pending c p | Some r \<Rightarrow> r = answers a ! p)"

lemma pending_push:
  assumes "pending c p"
  shows "pending (c\<lparr>shards := (shards c)[i := push_task t (shards c ! i)]\<rparr>) p"
proof -
  obtain j key' where "j < length (shards c)" "Get_Task key' p \<in> set (tasks (shards c ! j))"
    using assms by (auto simp: pending_def)
  then show ?thesis unfolding pending_def
    by (intro exI [of _ j] conjI exI [of _ key']; cases "j = i") (simp_all add: push_task_def)
qed

lemma pending_promises [simp]: "pending (c\<lparr>promises := ps\<rparr>) p = pending c p"
  by (simp add: pending_def)

lemma refines_set:
  assumes "refines hash c a" and "t = Set_Task key v \<or> t = Remove_Task key"
  shows "refines hash (c\<lparr>shards := (shards c)[hash key mod length (shards c) :=
      push_task t (shards c ! (hash key mod length (shards c)))]\<rparr>) (a\<lparr>content := task_effect t (content a)\<rparr>)"
proof -
  let ?i = "hash key mod length (shards c)"
  let ?c = "c\<lparr>shards := (shards c)[?i := push_task t (shards c ! ?i)]\<rparr>"
  have c: "shards c \<noteq> []" and i: "?i < length (shards c)" using assms(1) by (simp_all add: refines_def)
  have key: "task_key t = key" using assms(2) by auto
  have "settled hash ?c = task_effect t (content a)"
    using settled_push [OF c, of hash t] assms(1) by (simp add: key refines_def)
  moreover have "on_course (answers a) (storage (shards ?c ! j)) (tasks (shards ?c ! j))"
    if "j < length (shards c)" for j
    using that assms i
    by (cases "j = ?i") (auto simp: refines_def push_task_def on_course_append)
  moreover have "pending ?c p" if "pending c p" for p
    using that by (rule pending_push)
  ultimately show ?thesis
    using assms(1) by (auto simp: refines_def split: option.splits)
qed


lemma refines_get:
  assumes "refines hash c a"
  shows "refines hash (c\<lparr>promises := promises c @ [None],
      shards := (shards c)[hash key mod length (shards c) :=
        push_task (Get_Task key (length (promises c))) (shards c ! (hash key mod length (shards c)))]\<rparr>)
    (a\<lparr>answers := answers a @ [content a key]\<rparr>)"
proof -
  let ?i = "hash key mod length (shards c)" and ?p = "length (promises c)"
  let ?c = "c\<lparr>promises := promises c @ [None], shards := (shards c)[?i := push_task (Get_Task key ?p) (shards c ! ?i)]\<rparr>"
  have c: "shards c \<noteq> []" and i: "?i < length (shards c)" and len: "length (promises c) = length (answers a)"
    using assms by (simp_all add: refines_def)
  have "settled hash ?c = content a"
    using settled_push [of "c\<lparr>promises := promises c @ [None]\<rparr>" hash "Get_Task key ?p"] c assms
    by (simp add: refines_def)
  moreover have "on_course (answers a @ [content a key]) (storage (shards ?c ! j)) (tasks (shards ?c ! j))"
    if "j < length (shards c)" for j
  proof (cases "j = ?i")
    case True
    have "fold task_effect (tasks (shards c ! ?i)) (storage (shards c ! ?i)) key = content a key"
      using assms by (auto simp: refines_def settled_def outcome_def fun_eq_iff)
    with True i assms len show ?thesis
      by (auto simp: refines_def push_task_def on_course_append intro: on_course_more)
  next
    case False
    with that assms show ?thesis by (auto simp: refines_def intro: on_course_more)
  qed
  moreover have "pending ?c p" if "p < ?p" "pending c p" for p
    using that pending_push [of "c\<lparr>promises := promises c @ [None]\<rparr>" p ?i "Get_Task key ?p"] by simp
  moreover have "pending ?c ?p"
    unfolding pending_def using i by (intro exI [of _ ?i] conjI exI [of _ key]) (simp_all add: push_task_def)
  ultimately show ?thesis
    using assms len by (auto simp: refines_def nth_append less_Suc_eq split: option.splits)
qed

lemma refines_worker:
  assumes "refines hash c a"
  shows "refines hash (worker_step i c) a"
proof (cases "i < length (shards c) \<and> tasks (shards c ! i) \<noteq> []")
  case False
  then have "worker_step i c = c" by (auto simp: worker_step_def split: list.splits)
  with assms show ?thesis by simp
next
  case True
  then obtain t ts where i: "i < length (shards c)" and ts: "tasks (shards c ! i) = t # ts"
    by (auto simp: neq_Nil_conv)
  have course: "on_course (answers a) (storage (shards c ! i)) (t # ts)"
    using assms i ts unfolding refines_def by metis
  let ?c = "worker_step i c"
  have c': "?c = c\<lparr>promises := task_promises t (shards c ! i) (promises c),
      shards := (shards c)[i := task_shard t ((shards c ! i)\<lparr>tasks := ts\<rparr>)]\<rparr>"
    by (rule worker_step_eq [OF i ts])
  have "on_course (answers a) (storage (shards ?c ! j)) (tasks (shards ?c ! j))" if "j < length (shards c)" for j
    using that assms i course by (cases "j = i") (simp_all add: c' refines_def task_shard_def)
  moreover have "case promises ?c ! p of None \<Rightarrow> pending ?c p | Some r \<Rightarrow> r = answers a ! p"
    if p: "p < length (promises c)" for p
  proof (cases "\<exists>key. t = Get_Task key p")
    case True
    with p course show ?thesis by (auto simp: c' task_promises_def)
  next
    case False
    then have same: "promises ?c ! p = promises c ! p"
      using p by (cases t) (simp_all add: c' task_promises_def nth_list_update)
    have "pending ?c p" if "pending c p"
    proof -
      obtain j key where j: "j < length (shards c)" "Get_Task key p \<in> set (tasks (shards c ! j))"
        using \<open>pending c p\<close> by (auto simp: pending_def)
      with False ts show ?thesis unfolding pending_def
        by (intro exI [of _ j] conjI exI [of _ key]; cases "j = i") (auto simp: c' task_shard_def)
    qed
    with assms p same show ?thesis by (auto simp: refines_def split: option.splits)
  qed
  moreover have "length (promises ?c) = length (promises c)"
    by (cases t) (simp_all add: c' task_promises_def)
  moreover have "length (shards ?c) = length (shards c)" "shards ?c \<noteq> [] \<longleftrightarrow> shards c \<noteq> []"
    by (simp_all add: c')
  ultimately show ?thesis
    using assms settled_worker [of hash i c] by (simp add: refines_def)
qed

lemma refines_step:
  assumes "refines hash c a"
  shows "\<exists>c'. perform hash e c = Inr c' \<and> refines hash c' (atomic_step e a)"
proof -
  have c: "shards c \<noteq> []" using assms by (simp add: refines_def)
  show ?thesis
    using refines_get [OF assms] refines_worker [OF assms] c
      refines_set [OF assms, of "Set_Task key v" key v for key v]
      refines_set [OF assms, of "Remove_Task key" key for key]
    by (cases e) (simp_all add: get_async_eq set_async_eq remove_async_eq)
qed

lemma refines_execute:
  "refines hash c a \<Longrightarrow> \<exists>c'. execute hash es c = Inr c' \<and> refines hash c' (fold atomic_step es a)"
  unfolding execute_def
proof (induction es arbitrary: c a)
  case (Cons e es)
  from refines_step [OF Cons.prems] obtain c' where
    c': "perform hash e c = Inr c'" "refines hash c' (atomic_step e a)" by blast
  from Cons.IH [OF c'(2)] c'(1) show ?case by simp
qed simp

lemma refines_init:
  assumes "Cache_new n = Some c" and "0 < n"
  shows "refines hash c \<lparr>content = Map.empty, answers = []\<rparr>"
proof -
  have c: "shards c = replicate (nat n) new_shard" "promises c = []"
    using assms by (auto simp: Cache_new_def)
  have "hash key mod nat n < nat n" for key using assms(2) by simp
  then have "settled hash c = Map.empty"
    using assms(2) by (simp add: settled_def c outcome_def new_shard_def fun_eq_iff)
  with assms(2) show ?thesis by (auto simp: refines_def c new_shard_def)
qed


subsection \<open>Draining the queues\<close>

definition queued :: "('k, 'v) cache \<Rightarrow> nat" where
  "queued c = sum_list (map (\<lambda>s. length (tasks s)) (shards c))"

definition quiet :: "('k, 'v) cache \<Rightarrow> bool" where
  "quiet c \<longleftrightarrow> (\<forall>s \<in> set (shards c). tasks s = [])"

lemma quiet_iff: "quiet c \<longleftrightarrow> queued c = 0"
  by (simp add: quiet_def queued_def)

lemma sum_list_update_less:
  "i < length xs \<Longrightarrow> f x < (f (xs ! i) :: nat) \<Longrightarrow> sum_list (map f (xs[i := x])) < sum_list (map f xs)"
proof (induction xs arbitrary: i)
  case (Cons y ys)
  then show ?case by (cases i) auto
qed simp

lemma worker_progress:
  assumes "i < length (shards c)" and "tasks (shards c ! i) \<noteq> []"
  shows "queued (worker_step i c) < queued c"
proof -
  obtain t ts where ts: "tasks (shards c ! i) = t # ts" using assms(2) by (auto simp: neq_Nil_conv)
  have "length (tasks (task_shard t ((shards c ! i)\<lparr>tasks := ts\<rparr>))) < length (tasks (shards c ! i))"
    by (simp add: task_shard_def ts)
  then show ?thesis
    unfolding queued_def worker_step_eq [OF assms(1) ts] using assms(1)
    by (simp add: sum_list_update_less [where f = "\<lambda>s. length (tasks s)"])
qed

lemma drain:
  "\<exists>is. set is \<subseteq> {..< length (shards c)} \<and> (\<exists>c'. execute hash (map Worker is) c = Inr c' \<and> quiet c')"
proof (induction "queued c" arbitrary: c rule: less_induct)
  case less
  show ?case
  proof (cases "quiet c")
    case True
    then show ?thesis by (intro exI [of _ "[]"]) (simp add: execute_def)
  next
    case False
    then obtain i where i: "i < length (shards c)" "tasks (shards c ! i) \<noteq> []"
      by (auto simp: quiet_def in_set_conv_nth)
    then obtain t ts where ts: "tasks (shards c ! i) = t # ts" by (auto simp: neq_Nil_conv)
    from less [OF worker_progress [OF i]] obtain js c' where
      js: "set js \<subseteq> {..< length (shards (worker_step i c))}"
        "execute hash (map Worker js) (worker_step i c) = Inr c'" "quiet c'"
      by blast
    have "length (shards (worker_step i c)) = length (shards c)"
      by (simp add: worker_step_eq [OF i(1) ts])
    with js i show ?thesis
      by (intro exI [of _ "i # js"]) (auto simp: execute_def)
  qed
qed

lemma quiet_answers:
  assumes "refines hash c a" and "quiet c"
  shows "promises c = map Some (answers a)" "get_sync hash c key = Inr (content a key)"
proof -
  have c: "shards c \<noteq> []" using assms(1) by (simp add: refines_def)
  have "\<not> pending c p" for p using assms(2) by (auto simp: pending_def quiet_def)
  with assms(1) show "promises c = map Some (answers a)"
    by (intro nth_equalityI) (auto simp: refines_def split: option.splits)
  let ?i = "hash key mod length (shards c)"
  have "?i < length (shards c)" using c by simp
  moreover from this have "tasks (shards c ! ?i) = []" using assms(2) by (simp add: quiet_def)
  moreover have "settled hash c key = content a key" using assms(1) by (simp add: refines_def)
  ultimately show "get_sync hash c key = Inr (content a key)"
    using c by (simp add: get_sync_def getId_eq shard_get_def settled_def outcome_def)
qed

subsection \<open>Properties\<close>

lemma execute_refines:
  assumes "Cache_new n = Some c" and "0 < n"
  shows "\<exists>c'. execute hash es c = Inr c' \<and> refines hash c' (atomic_run es)"
  using refines_execute [OF refines_init [OF assms]] by (simp add: atomic_run_def)

lemma execute_append: "execute hash (es @ es') c = bnd (execute hash es c) (execute hash es')"
  by (simp add: execute_def [abs_def] for_each_append)

lemma worker_events_keep: "fold atomic_step (map Worker is) a = a"
  by (induction "is" arbitrary: a) simp_all

text \<open>
  C19: the cache with at least one shard behaves like a single map on which the calls take effect one
  after the other. Whatever the order of calls and worker turns, no operation is undefined, and a future
  that has its value holds what the map held for the key when \<open>get_async\<close> was called.
\<close>

theorem cache_linearizable:
  assumes "Cache_new n = Some c" and "0 < n"
  shows "\<exists>c'. execute hash es c = Inr c' \<and> length (promises c') = length (answers (atomic_run es)) \<and>
    (\<forall>p < length (promises c'). \<forall>r. promises c' ! p = Some r \<longrightarrow> r = answers (atomic_run es) ! p)"
  using execute_refines [OF assms, of hash es] by (force simp: refines_def split: option.splits)

theorem cache_linearizable_witness:
  "\<exists>c'. execute (\<lambda>k. k) [Call_Set 5 ''a'', Call_Get 5, Worker 1, Call_Set 5 ''b'', Worker 1]
      \<lparr>shards = [new_shard, new_shard], promises = []\<rparr> = Inr c' \<and>
    length (promises c') = length (answers (atomic_run [Call_Set (5::nat) ''a'', Call_Get 5, Worker 1, Call_Set 5 ''b'', Worker 1])) \<and>
    (\<forall>p < length (promises c'). \<forall>r. promises c' ! p = Some r \<longrightarrow>
      r = answers (atomic_run [Call_Set (5::nat) ''a'', Call_Get 5, Worker 1, Call_Set 5 ''b'', Worker 1]) ! p)"
  by (rule cache_linearizable [of 2]) (simp_all add: Cache_new_def numeral_2_eq_2)

text \<open>The writes of a log, as calls.\<close>

fun write_call :: "'k \<times> 'v option \<Rightarrow> ('k, 'v) event" where
  "write_call (key, Some v) = Call_Set key v"
| "write_call (key, None) = Call_Remove key"

lemma for_each_map: "for_each f (map g xs) s = for_each (\<lambda>x. f (g x)) xs s"
  by (induction xs arbitrary: s) (simp_all add: bnd_def split: sum.split)

lemma execute_writes:
  fixes hash :: "'k \<Rightarrow> nat" and ws :: "('k \<times> 'v option) list"
  shows "execute hash (map write_call ws) c = for_each (eventual.store_op hash) ws c"
proof -
  have "(\<lambda>w :: 'k \<times> 'v option. perform hash (write_call w)) = eventual.store_op hash"
  proof (intro ext)
    fix w :: "'k \<times> 'v option" and c
    show "perform hash (write_call w) c = eventual.store_op hash w c"
      by (cases w; cases "snd w") auto
  qed
  then show ?thesis by (simp add: execute_def for_each_map)
qed

text \<open>In particular a log of writes leaves the last one on a key to be found.\<close>

lemma writes_settle:
  assumes "shards c \<noteq> []" and "key \<notin> fst ` set ws2"
  shows "\<exists>c'. execute hash (map write_call (ws1 @ (key, v) # ws2)) c = Inr c' \<and> settled hash c' key = v"
  using eventual.last_write [OF assms, of hash ws1 v] unfolding execute_writes by blast

text \<open>Whether an event is a write on a key, and what it leaves alone.\<close>

fun writes_to :: "'k \<Rightarrow> ('k, 'v) event \<Rightarrow> bool" where
  "writes_to key (Call_Set k v) \<longleftrightarrow> k = key"
| "writes_to key (Call_Remove k) \<longleftrightarrow> k = key"
| "writes_to key e \<longleftrightarrow> False"

lemma content_kept: "\<forall>e \<in> set es. \<not> writes_to key e \<Longrightarrow> content (fold atomic_step es a) key = content a key"
proof (induction es arbitrary: a)
  case (Cons e es)
  then show ?case by (cases e) auto
qed simp

lemma content_written: "content (atomic_step (write_call (key, v)) a) key = v"
  by (cases v) simp_all

lemma storage_kept:
  assumes "perform hash e c = Inr c'" and "e \<noteq> Worker i"
  shows "length (shards c') = length (shards c)" "i < length (shards c) \<Longrightarrow> storage (shards c' ! i) = storage (shards c ! i)"
proof -
  have put: "length (shards c'') = length (shards c) \<and>
      (i < length (shards c) \<longrightarrow> storage (shards c'' ! i) = storage (shards c ! i))"
    if "push_on j t c0 = Inr c''" "shards c0 = shards c" for j t c0 and c'' :: "('a, 'b) cache"
    using that by (auto simp: push_on_def bnd_Inr_iff vec_at_def vec_put_def push_task_def nth_list_update
        split: if_splits)
  have "length (shards c') = length (shards c) \<and>
      (i < length (shards c) \<longrightarrow> storage (shards c' ! i) = storage (shards c ! i))"
  proof (cases e)
    case (Worker j)
    then have j: "c' = worker_step j c" "j \<noteq> i" using assms by auto
    show ?thesis
    proof (cases "j < length (shards c) \<and> tasks (shards c ! j) \<noteq> []")
      case True
      then obtain t ts where "j < length (shards c)" "tasks (shards c ! j) = t # ts" by (auto simp: neq_Nil_conv)
      from worker_step_eq [OF this] j show ?thesis by simp
    next
      case False
      then show ?thesis using j by (auto simp: worker_step_def split: list.splits)
    qed
  next
    case (Call_Get key)
    with assms(1) show ?thesis by (auto simp: get_async_def Let_def bnd_Inr_iff dest!: put)
  next
    case (Call_Set key v)
    with assms(1) show ?thesis by (auto simp: set_async_def bnd_Inr_iff dest!: put)
  next
    case (Call_Remove key)
    with assms(1) show ?thesis by (auto simp: remove_async_def bnd_Inr_iff dest!: put)
  qed
  then show "length (shards c') = length (shards c)"
    "i < length (shards c) \<Longrightarrow> storage (shards c' ! i) = storage (shards c ! i)" by blast+
qed

lemma reads_kept:
  assumes "execute hash es c = Inr c'" and "Worker (hash key mod length (shards c)) \<notin> set es"
  shows "get_sync hash c' key = get_sync hash c key"
  using assms unfolding execute_def
proof (induction es arbitrary: c)
  case (Cons e es)
  from Cons.prems(1) obtain d where d: "perform hash e c = Inr d" "for_each (perform hash) es d = Inr c'"
    by (auto simp: bnd_Inr_iff)
  let ?i = "hash key mod length (shards c)"
  have "e \<noteq> Worker ?i" using Cons.prems(2) by auto
  note kept = storage_kept [OF d(1) this]
  have "get_sync hash d key = get_sync hash c key"
  proof (cases "shards c = []")
    case True
    with kept(1) show ?thesis by (simp add: get_sync_def getId_def)
  next
    case False
    then have "?i < length (shards c)" "shards d \<noteq> []" using kept(1) by auto
    with kept False show ?thesis by (simp add: get_sync_def getId_def vec_at_def shard_get_def)
  qed
  with Cons.IH [OF d(2)] Cons.prems(2) kept(1) show ?case by simp
qed simp

text \<open>
  C21: the last write wins. When the queues of the cache have been emptied, \<open>get_sync\<close> returns for a key
  what the last \<open>set_async\<close> or \<open>remove_async\<close> on it made of it, whatever other calls, lookups and turns of
  the workers came before, between and after.
\<close>

theorem last_write_wins:
  assumes "Cache_new n = Some c" and "0 < n" and "\<forall>e \<in> set es2. \<not> writes_to key e"
    and "execute hash (es1 @ write_call (key, v) # es2) c = Inr c'" and "quiet c'"
  shows "get_sync hash c' key = Inr v"
proof -
  let ?es = "es1 @ write_call (key, v) # es2"
  have "refines hash c' (atomic_run ?es)"
    using execute_refines [OF assms(1,2), of hash ?es] assms(4) by auto
  moreover have "content (atomic_run ?es) key = v"
    by (simp add: atomic_run_def content_kept [OF assms(3)] content_written)
  ultimately show ?thesis using quiet_answers(2) [OF _ assms(5)] by metis
qed

theorem last_write_wins_witness:
  "\<exists>c'. execute (\<lambda>k. k) ([Call_Set 1 ''x'', Worker 1] @ write_call (1::nat, None) # [Call_Set 2 ''y'', Worker 1, Worker 2])
      \<lparr>shards = [new_shard, new_shard, new_shard], promises = []\<rparr> = Inr c' \<and> get_sync (\<lambda>k. k) c' 1 = Inr None"
proof -
  let ?c = "\<lparr>shards = [new_shard, new_shard, new_shard], promises = []\<rparr> :: (nat, string) cache"
  have c: "Cache_new 3 = Some ?c" by (simp add: Cache_new_def numeral_3_eq_3)
  obtain c' where c': "execute (\<lambda>k. k) ([Call_Set 1 ''x'', Worker 1] @ write_call (1, None) #
      [Call_Set 2 ''y'', Worker 1, Worker 2]) ?c = Inr c'" "quiet c'"
    by (simp add: execute_def set_async_def remove_async_def getId_def push_on_def push_task_def worker_step_def
        new_shard_def shard_set_def shard_remove_def quiet_def vec_at_def vec_put_def numeral_2_eq_2)
  from last_write_wins [OF c _ _ c'] c' show ?thesis by auto
qed

text \<open>
  C22: a synchronous read does not see calls that came before it. Whatever calls are made and whichever
  other workers run, \<open>get_sync\<close> returns for a key what it returned before, until the worker of the key's own
  shard has run.
\<close>

theorem no_read_your_write:
  assumes "execute hash es c = Inr c'" and "Worker (hash key mod length (shards c)) \<notin> set es"
  shows "get_sync hash c' key = get_sync hash c key"
  by (rule reads_kept [OF assms])

theorem no_read_your_write_witness:
  "\<exists>c'. set_async (\<lambda>k. k) (1::nat) (100::int) \<lparr>shards = replicate 4 new_shard, promises = []\<rparr> = Inr c' \<and>
    get_sync (\<lambda>k. k) c' 1 = Inr None"
proof -
  let ?c = "\<lparr>shards = replicate 4 new_shard, promises = []\<rparr> :: (nat, int) cache"
  obtain c' where c': "execute (\<lambda>k. k) [Call_Set 1 100] ?c = Inr c'"
    by (simp add: execute_def set_async_eq)
  moreover have "get_sync (\<lambda>k. k) ?c 1 = Inr None"
    by (simp add: get_sync_def getId_def vec_at_def shard_get_def new_shard_def)
  ultimately show ?thesis using no_read_your_write [OF c', of 1] by (auto simp: execute_def bnd_Inr_iff)
qed

end
