(* ===== verification/Shard_Worker.thy ===== *)
theory Shard_Worker
  imports Prelude
begin

text \<open>
  The thread of a shard of \<open>cache/cache.h\<close>: \<open>worker_loop\<close>, \<open>push_task\<close> and the destructor \<open>~Shard\<close>, as a
  step relation between the points at which another thread may run. The destructor stores the atomic
  \<open>stop\<close> without taking \<open>tasks_mutex\<close>, so it may do so at any point of the worker. A thread asleep wakes when
  it is notified, or spuriously.
\<close>

text \<open>
  The worker at the test of \<open>while (!stop)\<close>, before the lock, holding it before the predicate of \<open>wait\<close>,
  holding it with the predicate found false, asleep, running a task, returned.
\<close>

datatype 't place = At_Loop | At_Lock | At_Test | Falling | Sleeping | Working 't | Done

datatype phase = Living | Stop_Set | All_Notified | Destroyed

record 't shard_thread =
  place :: "'t place"
  queue :: "'t list"
  locked :: bool
  stopping :: bool
  wakeups :: nat
  phase :: phase
  pushed :: "'t list"
  ran :: "'t list"

definition Shard_new :: "'t shard_thread" where
  "Shard_new = \<lparr>place = At_Loop, queue = [], locked = False, stopping = False, wakeups = 0,
     phase = Living, pushed = [], ran = []\<rparr>"

definition wake :: "'t place \<Rightarrow> 't place" where
  "wake w = (if w = Sleeping then At_Lock else w)"

text \<open>The worker leaves the critical section with the task at the head of the queue, or for good.\<close>

definition pop_task :: "'t shard_thread \<Rightarrow> 't shard_thread" where
  "pop_task s =
    (case queue s of
       [] \<Rightarrow> s\<lparr>place := Done, locked := False\<rparr>
     | t # ts \<Rightarrow> s\<lparr>place := Working t, locked := False, queue := ts\<rparr>)"

inductive shard_step :: "'t shard_thread \<Rightarrow> 't shard_thread \<Rightarrow> bool" where
  loop: "place s = At_Loop \<Longrightarrow> \<not> stopping s \<Longrightarrow> shard_step s (s\<lparr>place := At_Lock\<rparr>)"
| leave: "place s = At_Loop \<Longrightarrow> stopping s \<Longrightarrow> shard_step s (s\<lparr>place := Done\<rparr>)"
| lock: "place s = At_Lock \<Longrightarrow> \<not> locked s \<Longrightarrow> shard_step s (s\<lparr>place := At_Test, locked := True\<rparr>)"
| test_true: "place s = At_Test \<Longrightarrow> queue s \<noteq> [] \<or> stopping s \<Longrightarrow> shard_step s (pop_task s)"
| test_false: "place s = At_Test \<Longrightarrow> queue s = [] \<Longrightarrow> \<not> stopping s \<Longrightarrow> shard_step s (s\<lparr>place := Falling\<rparr>)"
| sleep: "place s = Falling \<Longrightarrow> shard_step s (s\<lparr>place := Sleeping, locked := False\<rparr>)"
| work: "place s = Working t \<Longrightarrow> shard_step s (s\<lparr>place := At_Loop, ran := ran s @ [t]\<rparr>)"
| push: "phase s = Living \<Longrightarrow> \<not> locked s \<Longrightarrow>
    shard_step s (s\<lparr>queue := queue s @ [t], pushed := pushed s @ [t], wakeups := Suc (wakeups s)\<rparr>)"
| notify_one: "0 < wakeups s \<Longrightarrow> shard_step s (s\<lparr>place := wake (place s), wakeups := wakeups s - 1\<rparr>)"
| spurious: "place s = Sleeping \<Longrightarrow> shard_step s (s\<lparr>place := At_Lock\<rparr>)"
| stop: "phase s = Living \<Longrightarrow> shard_step s (s\<lparr>stopping := True, phase := Stop_Set\<rparr>)"
| notify_all: "phase s = Stop_Set \<Longrightarrow> shard_step s (s\<lparr>place := wake (place s), phase := All_Notified\<rparr>)"
| join: "phase s = All_Notified \<Longrightarrow> place s = Done \<Longrightarrow> shard_step s (s\<lparr>phase := Destroyed\<rparr>)"

inductive_cases shard_stepE: "shard_step s s'"

inductive shard_reach :: "'t shard_thread \<Rightarrow> bool" where
  start: "shard_reach Shard_new"
| step: "shard_reach s \<Longrightarrow> shard_step s s' \<Longrightarrow> shard_reach s'"

definition in_progress :: "'t shard_thread \<Rightarrow> 't list" where
  "in_progress s = (case place s of Working t \<Rightarrow> [t] | _ \<Rightarrow> [])"

definition shard_inv :: "'t shard_thread \<Rightarrow> bool" where
  "shard_inv s \<longleftrightarrow> (locked s \<longleftrightarrow> place s = At_Test \<or> place s = Falling) \<and>
     (stopping s \<longleftrightarrow> phase s \<noteq> Living) \<and>
     (place s = Falling \<longrightarrow> queue s = []) \<and>
     (place s = Sleeping \<and> queue s \<noteq> [] \<longrightarrow> 0 < wakeups s) \<and>
     (place s = Done \<longrightarrow> stopping s) \<and>
     (phase s = Destroyed \<longrightarrow> place s = Done) \<and>
     pushed s = ran s @ in_progress s @ queue s"

lemma shard_inv_step: "shard_inv s \<Longrightarrow> shard_step s s' \<Longrightarrow> shard_inv s'"
  by (erule shard_stepE)
    (auto simp: shard_inv_def pop_task_def wake_def in_progress_def split: list.splits place.splits)

lemma shard_reach_inv: "shard_reach s \<Longrightarrow> shard_inv s"
  by (induction rule: shard_reach.induct)
    (simp add: shard_inv_def Shard_new_def in_progress_def, blast intro: shard_inv_step)

text \<open>
  A schedule in which \<open>stop\<close> is set between the worker's test of the predicate and its falling asleep:
  the notification finds nobody asleep, and no thread can move any more.
\<close>

definition stuck_shard :: "'t shard_thread" where
  "stuck_shard = Shard_new\<lparr>place := Sleeping, stopping := True, phase := All_Notified\<rparr>"

lemma falling_shard_reached: "shard_reach (Shard_new\<lparr>place := Falling, locked := True\<rparr>)"
proof -
  let ?s0 = "Shard_new :: 't shard_thread"
  have 1: "shard_reach (?s0\<lparr>place := At_Lock\<rparr>)"
    by (rule shard_reach.step [OF shard_reach.start shard_step.loop]) (simp_all add: Shard_new_def)
  have 2: "shard_reach (?s0\<lparr>place := At_Test, locked := True\<rparr>)"
    using shard_reach.step [OF 1 shard_step.lock] by (simp add: Shard_new_def)
  show "shard_reach (?s0\<lparr>place := Falling, locked := True\<rparr>)"
    using shard_reach.step [OF 2 shard_step.test_false] by (simp add: Shard_new_def)
qed

lemma stuck_shard_reached: "shard_reach (stuck_shard :: 't shard_thread)"
proof -
  let ?s0 = "Shard_new :: 't shard_thread"
  have 4: "shard_reach (?s0\<lparr>place := Falling, locked := True, stopping := True, phase := Stop_Set\<rparr>)"
    using shard_reach.step [OF falling_shard_reached shard_step.stop] by (simp add: Shard_new_def)
  have 5: "shard_reach (?s0\<lparr>place := Falling, locked := True, stopping := True, phase := All_Notified\<rparr>)"
    using shard_reach.step [OF 4 shard_step.notify_all] by (simp add: Shard_new_def wake_def)
  show ?thesis
    using shard_reach.step [OF 5 shard_step.sleep] by (simp add: Shard_new_def stuck_shard_def)
qed

text \<open>A task pushed while the worker sleeps.\<close>

definition sleeping_shard :: "string shard_thread" where
  "sleeping_shard = Shard_new\<lparr>place := Sleeping, queue := [''t''], wakeups := 1, pushed := [''t'']\<rparr>"

lemma sleeping_shard_reached: "shard_reach sleeping_shard"
proof -
  have 1: "shard_reach (Shard_new\<lparr>place := Sleeping\<rparr> :: string shard_thread)"
    using shard_reach.step [OF falling_shard_reached shard_step.sleep] by (simp add: Shard_new_def)
  show ?thesis
    using shard_reach.step [OF 1 shard_step.push [of _ "''t''"]] by (simp add: Shard_new_def sleeping_shard_def)
qed

text \<open>Nothing but a spurious wake-up moves a thread that is stuck.\<close>

definition stuck :: "'t shard_thread \<Rightarrow> bool" where
  "stuck s \<longleftrightarrow> (\<forall>s'. shard_step s s' \<longrightarrow> place s = Sleeping \<and> s' = s\<lparr>place := At_Lock\<rparr>)"

lemma stuck_shard_stuck: "stuck stuck_shard"
  unfolding stuck_def by (auto simp: stuck_shard_def Shard_new_def elim: shard_stepE)

text \<open>The destructor of a shard with a full queue, run before the worker's first test.\<close>

definition dropped_shard :: "'t list \<Rightarrow> 't shard_thread" where
  "dropped_shard ts = Shard_new\<lparr>place := Done, queue := ts, stopping := True, wakeups := length ts,
     phase := Destroyed, pushed := ts\<rparr>"

lemma pushes_reached:
  "shard_reach (Shard_new\<lparr>queue := ts, wakeups := length ts, pushed := ts\<rparr>)"
proof (induction ts rule: rev_induct)
  case Nil
  show ?case using shard_reach.start by (simp add: Shard_new_def)
next
  case (snoc t ts)
  from shard_reach.step [OF snoc shard_step.push [of _ t]] show ?case by (simp add: Shard_new_def)
qed

lemma dropped_shard_reached: "shard_reach (dropped_shard ts)"
proof -
  let ?s0 = "Shard_new\<lparr>queue := ts, wakeups := length ts, pushed := ts\<rparr>"
  have 1: "shard_reach (?s0\<lparr>stopping := True, phase := Stop_Set\<rparr>)"
    using shard_reach.step [OF pushes_reached shard_step.stop] by (simp add: Shard_new_def)
  have 2: "shard_reach (?s0\<lparr>stopping := True, phase := All_Notified\<rparr>)"
    using shard_reach.step [OF 1 shard_step.notify_all] by (simp add: Shard_new_def wake_def)
  have 3: "shard_reach (?s0\<lparr>place := Done, stopping := True, phase := All_Notified\<rparr>)"
    using shard_reach.step [OF 2 shard_step.leave] by (simp add: Shard_new_def)
  show ?thesis
    using shard_reach.step [OF 3 shard_step.join] by (simp add: Shard_new_def dropped_shard_def)
qed


text \<open>That is the only way to get stuck: the worker asleep after the last notification.\<close>

lemma stuck_only_asleep:
  assumes inv: "shard_inv s" and "stopping s" and "phase s \<noteq> Destroyed" and "stuck s"
  shows "place s = Sleeping \<and> phase s = All_Notified \<and> wakeups s = 0"
proof -
  have no_step: "place s = Sleeping \<and> s' = s\<lparr>place := At_Lock\<rparr>" if "shard_step s s'" for s'
    using assms(4) that by (simp add: stuck_def)
  have "phase s \<noteq> Stop_Set"
  proof
    assume "phase s = Stop_Set"
    from no_step [OF shard_step.notify_all [OF this]] this show False
      by (auto dest: arg_cong [of _ _ phase])
  qed
  then have "phase s = All_Notified"
    using assms by (cases "phase s") (auto simp: shard_inv_def)
  moreover have "wakeups s = 0"
  proof (rule ccontr)
    assume "wakeups s \<noteq> 0"
    then have "shard_step s (s\<lparr>place := wake (place s), wakeups := wakeups s - 1\<rparr>)"
      by (intro shard_step.notify_one) simp
    with no_step [OF this] \<open>wakeups s \<noteq> 0\<close> show False by (auto dest: arg_cong [of _ _ wakeups])
  qed
  moreover have "place s = Sleeping"
  proof (cases "place s")
    case At_Lock
    with inv have "\<not> locked s" by (simp add: shard_inv_def)
    with At_Lock shard_step.lock no_step show ?thesis by blast
  next
    case Done
    with \<open>phase s = All_Notified\<close> shard_step.join no_step show ?thesis by blast
  qed (use assms(2) no_step in \<open>auto dest: shard_step.intros\<close>)
  ultimately show ?thesis by blast
qed

subsection \<open>Properties\<close>

text \<open>
  C23: in every reachable state of a shard's thread the tasks pushed so far are those that ran, the one in
  progress and those still queued, in this order: tasks run one at a time and first in, first out. A
  worker asleep over a nonempty queue has a notification on its way.
\<close>

theorem shard_fifo:
  assumes "shard_reach s"
  shows "pushed s = ran s @ in_progress s @ queue s \<and>
    (place s = Sleeping \<and> queue s \<noteq> [] \<longrightarrow> 0 < wakeups s)"
  using shard_reach_inv [OF assms] by (simp add: shard_inv_def)

theorem shard_fifo_witness:
  "pushed sleeping_shard = ran sleeping_shard @ in_progress sleeping_shard @ queue sleeping_shard \<and>
    place sleeping_shard = Sleeping \<and> queue sleeping_shard = [''t''] \<and> 0 < wakeups sleeping_shard"
  using shard_fifo [OF sleeping_shard_reached] by (simp add: sleeping_shard_def)

text \<open>
  C24: the destructor of a shard may never return. Because \<open>stop\<close> is set without the mutex, it can be set
  between the worker's test of the predicate and its falling asleep; the notification is then lost, and a
  state is reached in which the worker sleeps, the destructor waits in \<open>join\<close> and nothing but a spurious
  wake-up can happen. A stopped shard gets stuck in no other way than asleep after the last notification. And a destructor
  that does return may leave tasks behind: for every list of tasks there is an execution that pushes them
  all and ends, destroyed, with none of them run; their futures never get a value.
\<close>

theorem shard_destructor_stuck:
  "(\<exists>s :: 't shard_thread. shard_reach s \<and> phase s = All_Notified \<and> place s = Sleeping \<and> stuck s) \<and>
   (\<forall>s :: 't shard_thread. shard_reach s \<and> stopping s \<and> phase s \<noteq> Destroyed \<and> stuck s \<longrightarrow>
      place s = Sleeping \<and> phase s = All_Notified \<and> wakeups s = 0) \<and>
   (\<exists>s. shard_reach s \<and> phase s = Destroyed \<and> pushed s = ts \<and> queue s = ts \<and> ran s = [])"
proof (intro conjI)
  show "\<exists>s :: 't shard_thread. shard_reach s \<and> phase s = All_Notified \<and> place s = Sleeping \<and> stuck s"
    using stuck_shard_reached stuck_shard_stuck by (intro exI [of _ stuck_shard]) (auto simp: stuck_shard_def)
  show "\<forall>s :: 't shard_thread. shard_reach s \<and> stopping s \<and> phase s \<noteq> Destroyed \<and> stuck s \<longrightarrow>
      place s = Sleeping \<and> phase s = All_Notified \<and> wakeups s = 0"
    using shard_reach_inv stuck_only_asleep by blast
  show "\<exists>s. shard_reach s \<and> phase s = Destroyed \<and> pushed s = ts \<and> queue s = ts \<and> ran s = []"
    using dropped_shard_reached [of ts]
    by (intro exI [of _ "dropped_shard ts"]) (simp add: dropped_shard_def Shard_new_def)
qed

theorem shard_destructor_stuck_witness:
  "shard_reach (stuck_shard :: nat shard_thread) \<and>
   place (stuck_shard :: nat shard_thread) = Sleeping \<and> phase (stuck_shard :: nat shard_thread) = All_Notified \<and>
   wakeups (stuck_shard :: nat shard_thread) = 0"
proof -
  have "stopping (stuck_shard :: nat shard_thread)" "phase (stuck_shard :: nat shard_thread) \<noteq> Destroyed"
    by (simp_all add: stuck_shard_def)
  with shard_destructor_stuck [where 't = nat] stuck_shard_reached stuck_shard_stuck show ?thesis by blast
qed

end
