(* ===== verification/Step_Systems.thy ===== *)
theory Step_Systems
  imports Main
begin

text \<open>
  What the concurrent parts of the programs have in common: state machines whose steps keep an invariant,
  and those in which every step makes a weight smaller. Each machine of the development interprets one of
  these locales and takes the facts about its runs from there.
\<close>

subsection \<open>Machines driven by events\<close>

locale event_system =
  fixes step :: "'e \<Rightarrow> 's \<Rightarrow> 's" and inv :: "'s \<Rightarrow> bool"
  assumes keeps: "inv s \<Longrightarrow> inv (step e s)"
begin

lemma run_inv: "inv s \<Longrightarrow> inv (fold step es s)"
  by (induction es arbitrary: s) (simp_all add: keeps)

end

subsection \<open>Machines that choose their steps\<close>

locale step_system =
  fixes step :: "'s \<Rightarrow> 's \<Rightarrow> bool" and inv :: "'s \<Rightarrow> bool"
  assumes keeps: "inv s \<Longrightarrow> step s s' \<Longrightarrow> inv s'"
begin

lemma run_inv: "(step ^^ k) s s' \<Longrightarrow> inv s \<Longrightarrow> inv s'"
  by (induction k arbitrary: s') (auto intro: keeps)

lemma reach_inv: "step\<^sup>*\<^sup>* s s' \<Longrightarrow> inv s \<Longrightarrow> inv s'"
  by (induction rule: rtranclp_induct) (auto intro: keeps)

end

text \<open>An event-driven machine is one of these: it chooses the event.\<close>

sublocale event_system \<subseteq> any_event: step_system "\<lambda>s s'. \<exists>e. s' = step e s" inv
  by unfold_locales (auto intro: keeps)

text \<open>With a weight that every step makes smaller, a run is no longer than the weight it starts with, and ends.\<close>

locale weighted_system = step_system +
  fixes weight :: "'s \<Rightarrow> nat"
  assumes decreases: "inv s \<Longrightarrow> step s s' \<Longrightarrow> weight s' < weight s"
begin

lemma run_bounded: "(step ^^ k) s s' \<Longrightarrow> inv s \<Longrightarrow> weight s' + k \<le> weight s"
proof (induction k arbitrary: s')
  case (Suc k)
  then obtain t where t: "(step ^^ k) s t" "step t s'" by auto
  with Suc have "weight t + k \<le> weight s" by blast
  with decreases [OF run_inv [OF t(1) Suc.prems(2)] t(2)] show ?case by simp
qed simp

lemma run_ends: "inv s \<Longrightarrow> \<exists>k s'. (step ^^ k) s s' \<and> (\<forall>t. \<not> step s' t)"
proof (induction "weight s" arbitrary: s rule: less_induct)
  case less
  show ?case
  proof (cases "\<exists>t. step s t")
    case True
    then obtain t where t: "step s t" by blast
    from less.hyps [OF decreases [OF less.prems t] keeps [OF less.prems t]]
    obtain k s' where "(step ^^ k) t s'" "\<forall>u. \<not> step s' u" by blast
    with t show ?thesis by (blast intro: relpowp_Suc_I2)
  next
    case False
    then show ?thesis by (intro exI [of _ 0] exI [of _ s]) simp
  qed
qed

end

end
