(* ===== verification/Cache_System.thy ===== *)
theory Cache_System
  imports Sharded_Cache Shard_Worker Step_Systems
begin

text \<open>
  The cache of \<open>cache/cache.h\<close> with its threads: every shard has the thread of \<open>Shard_Worker\<close>, whose tasks are
  those of \<open>Sharded_Cache\<close>. Callers, the workers and the destructors interleave at every point at which
  another thread may run; taking a task off the queue and running it are different steps. The lemmas show
  that these threads implement the model of \<open>Sharded_Cache\<close>, in which a worker takes whole turns.
\<close>

subsection \<open>State and steps\<close>

text \<open>\<open>calls\<close> records the calls so far, in the order in which they pushed their tasks.\<close>

record ('k, 'v) live_cache =
  threads :: "('k, 'v) task shard_thread list"
  stores :: "('k \<Rightarrow> 'v option) list"
  futures :: "'v option option list"
  calls :: "('k, 'v) event list"

definition live_new :: "nat \<Rightarrow> ('k, 'v) live_cache" where
  "live_new n = \<lparr>threads = replicate n Shard_new, stores = replicate n Map.empty, futures = [], calls = []\<rparr>"

text \<open>\<open>push_task\<close> needs the mutex of a living shard.\<close>

definition accepts :: "('k, 'v) live_cache \<Rightarrow> nat \<Rightarrow> bool" where
  "accepts c i \<longleftrightarrow> i < length (threads c) \<and> phase (threads c ! i) = Living \<and> \<not> locked (threads c ! i)"

definition push_thread :: "('k, 'v) task \<Rightarrow> nat \<Rightarrow> ('k, 'v) live_cache \<Rightarrow> ('k, 'v) live_cache" where
  "push_thread t i c =
    (let th = threads c ! i in
     c\<lparr>threads := (threads c)[i := th\<lparr>queue := queue th @ [t], pushed := pushed th @ [t], wakeups := Suc (wakeups th)\<rparr>]\<rparr>)"

text \<open>What a task does when it is run by the thread of shard \<open>i\<close>; the map is guarded by its own mutex.\<close>

fun run_live :: "nat \<Rightarrow> ('k, 'v) task \<Rightarrow> ('k, 'v) live_cache \<Rightarrow> ('k, 'v) live_cache" where
  "run_live i (Get_Task key p) c = c\<lparr>futures := (futures c)[p := Some ((stores c ! i) key)]\<rparr>"
| "run_live i (Set_Task key v) c = c\<lparr>stores := (stores c)[i := (stores c ! i)(key \<mapsto> v)]\<rparr>"
| "run_live i (Remove_Task key) c = c\<lparr>stores := (stores c)[i := (stores c ! i)(key := None)]\<rparr>"

text \<open>
  The steps: the three calls, a thread or the destructor of a shard moving on without a task, and a
  thread running the task it has taken.
\<close>

inductive live_step :: "('k \<Rightarrow> nat) \<Rightarrow> ('k, 'v) live_cache \<Rightarrow> ('k, 'v) live_cache \<Rightarrow> bool" for hash where
  get: "i = hash key mod length (threads c) \<Longrightarrow> accepts c i \<Longrightarrow>
    live_step hash c ((push_thread (Get_Task key (length (futures c))) i c)
      \<lparr>futures := futures c @ [None], calls := calls c @ [Call_Get key]\<rparr>)"
| set: "i = hash key mod length (threads c) \<Longrightarrow> accepts c i \<Longrightarrow>
    live_step hash c ((push_thread (Set_Task key v) i c)\<lparr>calls := calls c @ [Call_Set key v]\<rparr>)"
| remove: "i = hash key mod length (threads c) \<Longrightarrow> accepts c i \<Longrightarrow>
    live_step hash c ((push_thread (Remove_Task key) i c)\<lparr>calls := calls c @ [Call_Remove key]\<rparr>)"
| move: "i < length (threads c) \<Longrightarrow> shard_step (threads c ! i) th \<Longrightarrow> pushed th = pushed (threads c ! i) \<Longrightarrow>
    ran th = ran (threads c ! i) \<Longrightarrow> live_step hash c (c\<lparr>threads := (threads c)[i := th]\<rparr>)"
| work: "i < length (threads c) \<Longrightarrow> place (threads c ! i) = Working t \<Longrightarrow>
    live_step hash c (run_live i t (c\<lparr>threads :=
      (threads c)[i := (threads c ! i)\<lparr>place := At_Loop, ran := ran (threads c ! i) @ [t]\<rparr>]\<rparr>))"

inductive live_reach :: "('k \<Rightarrow> nat) \<Rightarrow> nat \<Rightarrow> ('k, 'v) live_cache \<Rightarrow> bool" for hash n where
  start: "live_reach hash n (live_new n)"
| step: "live_reach hash n c \<Longrightarrow> live_step hash c c' \<Longrightarrow> live_reach hash n c'"

subsection \<open>The threads implement whole turns\<close>

text \<open>The cache as \<open>Sharded_Cache\<close> sees it: a task that is in progress is still at the head of its queue.\<close>

definition as_shard :: "('k, 'v) live_cache \<Rightarrow> nat \<Rightarrow> ('k, 'v) shard" where
  "as_shard c i = \<lparr>storage = stores c ! i, tasks = in_progress (threads c ! i) @ queue (threads c ! i)\<rparr>"

definition as_cache :: "('k, 'v) live_cache \<Rightarrow> ('k, 'v) cache" where
  "as_cache c = \<lparr>shards = map (as_shard c) [0..<length (threads c)], promises = futures c\<rparr>"

definition live_inv :: "nat \<Rightarrow> ('k, 'v) live_cache \<Rightarrow> bool" where
  "live_inv n c \<longleftrightarrow> length (threads c) = n \<and> length (stores c) = n \<and> list_all shard_inv (threads c)"

fun is_call :: "('k, 'v) event \<Rightarrow> bool" where
  "is_call (Worker i) \<longleftrightarrow> False"
| "is_call e \<longleftrightarrow> True"

lemma shards_eqI:
  assumes "length (threads c') = length (threads c)" and "i < length (threads c)" and "as_shard c' i = s"
    and "\<And>j. j < length (threads c) \<Longrightarrow> j \<noteq> i \<Longrightarrow> as_shard c' j = as_shard c j"
  shows "shards (as_cache c') = (shards (as_cache c))[i := s]"
  using assms by (intro nth_equalityI) (auto simp: as_cache_def nth_list_update)

lemma as_cache_simps [simp]:
  "length (shards (as_cache c)) = length (threads c)" "promises (as_cache c) = futures c"
  "i < length (threads c) \<Longrightarrow> shards (as_cache c) ! i = as_shard c i"
  "as_cache (c\<lparr>calls := es\<rparr>) = as_cache c" "as_cache (c\<lparr>futures := fs\<rparr>) = (as_cache c)\<lparr>promises := fs\<rparr>"
  by (simp_all add: as_cache_def as_shard_def [abs_def])

lemma as_cache_push:
  assumes "i < length (threads c)"
  shows "shards (as_cache (push_thread t i c)) = (shards (as_cache c))[i := push_task t (as_shard c i)]"
  using assms
  by (intro shards_eqI) (simp_all add: push_thread_def as_shard_def push_task_def in_progress_def Let_def)

lemma push_thread_simps [simp]:
  "futures (push_thread t i c) = futures c" "stores (push_thread t i c) = stores c"
  "length (threads (push_thread t i c)) = length (threads c)"
  by (simp_all add: push_thread_def Let_def)

text \<open>What a shard still has to do is what was pushed and has not been run.\<close>

lemma move_as_cache:
  assumes "live_inv n c" and "i < length (threads c)" and "shard_step (threads c ! i) th"
    and "pushed th = pushed (threads c ! i)" and "ran th = ran (threads c ! i)"
  shows "as_cache (c\<lparr>threads := (threads c)[i := th]\<rparr>) = as_cache c"
proof -
  have "shard_inv (threads c ! i)" using assms(1,2) by (simp add: live_inv_def list_all_length)
  with shard_inv_step [OF this assms(3)] assms(4,5)
  have "in_progress th @ queue th = in_progress (threads c ! i) @ queue (threads c ! i)"
    unfolding shard_inv_def by (metis same_append_eq)
  then have "as_shard (c\<lparr>threads := (threads c)[i := th]\<rparr>) j = as_shard c j" for j
    using assms(2) by (simp add: as_shard_def nth_list_update)
  then show ?thesis by (simp add: as_cache_def)
qed

lemma work_as_cache:
  assumes "live_inv n c" and "i < length (threads c)" and "place (threads c ! i) = Working t"
  shows "as_cache (run_live i t (c\<lparr>threads :=
      (threads c)[i := (threads c ! i)\<lparr>place := At_Loop, ran := ran (threads c ! i) @ [t]\<rparr>]\<rparr>)) =
    worker_step i (as_cache c)"
proof -
  let ?c = "run_live i t (c\<lparr>threads :=
      (threads c)[i := (threads c ! i)\<lparr>place := At_Loop, ran := ran (threads c ! i) @ [t]\<rparr>]\<rparr>)"
  have i: "i < length (shards (as_cache c))" using assms(2) by simp
  have ts: "tasks (shards (as_cache c) ! i) = t # queue (threads c ! i)"
    using assms(2,3) by (simp add: as_shard_def in_progress_def)
  have st: "i < length (stores c)" using assms(1,2) by (simp add: live_inv_def)
  have "shards (as_cache ?c) =
      (shards (as_cache c))[i := task_shard t ((as_shard c i)\<lparr>tasks := queue (threads c ! i)\<rparr>)]"
    using assms(2) st by (intro shards_eqI; cases t) (auto simp: as_shard_def task_shard_def in_progress_def)
  moreover have "futures ?c = task_promises t (as_shard c i) (futures c)"
    by (cases t) (simp_all add: task_promises_def as_shard_def)
  ultimately show ?thesis
    using assms(2) by (simp add: worker_step_eq [OF i ts] cache.equality)
qed

text \<open>Every step of the threads is a call, a turn of a worker, or nothing, of the cache.\<close>

lemma live_step_simulates:
  assumes "live_step hash c c'" and inv: "live_inv n c"
  shows "\<exists>es. execute hash es (as_cache c) = Inr (as_cache c') \<and> calls c' = calls c @ filter is_call es"
  using assms(1)
proof (cases rule: live_step.cases)
  case (get i key)
  then have i: "i < length (threads c)" "shards (as_cache c) \<noteq> []" by (auto simp: accepts_def as_cache_def)
  have "perform hash (Call_Get key) (as_cache c) = Inr (as_cache c')"
    using i get by (simp add: get_async_eq cache.equality as_cache_push)
  with get show ?thesis by (intro exI [of _ "[Call_Get key]"]) (simp add: execute_def)
next
  case (set i key v)
  then have i: "i < length (threads c)" "shards (as_cache c) \<noteq> []" by (auto simp: accepts_def as_cache_def)
  have "perform hash (Call_Set key v) (as_cache c) = Inr (as_cache c')"
    using i set by (simp add: set_async_eq cache.equality as_cache_push)
  with set show ?thesis by (intro exI [of _ "[Call_Set key v]"]) (simp add: execute_def)
next
  case (remove i key)
  then have i: "i < length (threads c)" "shards (as_cache c) \<noteq> []" by (auto simp: accepts_def as_cache_def)
  have "perform hash (Call_Remove key) (as_cache c) = Inr (as_cache c')"
    using i remove by (simp add: remove_async_eq cache.equality as_cache_push)
  with remove show ?thesis by (intro exI [of _ "[Call_Remove key]"]) (simp add: execute_def)
next
  case (move i th)
  with move_as_cache [OF inv move(2-5)] show ?thesis
    by (intro exI [of _ "[]"]) (simp add: execute_def)
next
  case (work i t)
  have "calls (run_live i t d) = calls d" for d :: "('a, 'b) live_cache" by (cases t) simp_all
  with work work_as_cache [OF inv work(2,3)] show ?thesis
    by (intro exI [of _ "[Worker i]"]) (simp add: execute_def)
qed

lemma live_inv_step:
  assumes "live_inv n c" and "live_step hash c c'"
  shows "live_inv n c'"
proof -
  have threads: "live_inv n c''"
    if "i < length (threads c)" "shard_step (threads c ! i) th" "threads c'' = (threads c)[i := th]"
      "length (stores c'') = length (stores c)" for i th and c'' :: "('a, 'b) live_cache"
  proof -
    have "shard_inv th" using that(1,2) assms(1) by (auto simp: live_inv_def list_all_length intro: shard_inv_step)
    with that assms(1) show ?thesis by (auto simp: live_inv_def list_all_length nth_list_update)
  qed
  have pushes: "live_inv n c''"
    if "accepts c i" "threads c'' = threads (push_thread t i c)" "stores c'' = stores c" for t i and c'' :: "('a, 'b) live_cache"
    using that shard_step.push [of "threads c ! i" t]
    by (intro threads) (auto simp: accepts_def push_thread_def Let_def)
  show ?thesis using assms(2)
  proof (cases rule: live_step.cases)
    case (work i t)
    show ?thesis
      by (rule threads [OF work(2) shard_step.work [OF work(3)]]; cases t) (simp_all add: work)
  qed (auto intro: pushes threads)
qed

interpretation live: step_system "live_step hash" "live_inv n" for hash n
  by unfold_locales (rule live_inv_step)

lemma live_reach_run: "live_reach hash n c \<longleftrightarrow> (live_step hash)\<^sup>*\<^sup>* (live_new n) c"
proof
  show "live_reach hash n c \<Longrightarrow> (live_step hash)\<^sup>*\<^sup>* (live_new n) c"
    by (induction rule: live_reach.induct) auto
  show "(live_step hash)\<^sup>*\<^sup>* (live_new n) c \<Longrightarrow> live_reach hash n c"
    by (induction rule: rtranclp_induct) (auto intro: live_reach.intros)
qed

lemma live_inv_new: "live_inv n (live_new n)"
  by (simp add: live_inv_def live_new_def list_all_length shard_reach_inv [OF shard_reach.start])

lemma live_reach_inv: "live_reach hash n c \<Longrightarrow> live_inv n c"
  using live.reach_inv [OF _ live_inv_new] by (simp add: live_reach_run)

lemma live_new_cache: "Cache_new (int n) = Some (as_cache (live_new n))"
  by (simp add: Cache_new_def as_cache_def as_shard_def live_new_def Shard_new_def in_progress_def new_shard_def
      list_eq_iff_nth_eq)

lemma live_execution:
  "live_reach hash n c \<Longrightarrow>
    \<exists>es. execute hash es (as_cache (live_new n)) = Inr (as_cache c) \<and> calls c = filter is_call es"
proof (induction rule: live_reach.induct)
  case start
  show ?case by (intro exI [of _ "[]"]) (simp add: execute_def live_new_def)
next
  case (step c c')
  then obtain es es' where "execute hash es (as_cache (live_new n)) = Inr (as_cache c)" "calls c = filter is_call es"
    "execute hash es' (as_cache c) = Inr (as_cache c')" "calls c' = calls c @ filter is_call es'"
    using live_step_simulates live_reach_inv by metis
  then show ?case by (intro exI [of _ "es @ es'"]) (simp add: execute_append)
qed

text \<open>Turns of workers do not show in the abstract cache.\<close>

lemma atomic_calls: "atomic_run (filter is_call es) = atomic_run es"
proof -
  have "fold atomic_step (filter is_call es) a = fold atomic_step es a" for a :: "('a, 'b) atomic"
  proof (induction es arbitrary: a)
    case (Cons e es)
    then show ?case by (cases e) simp_all
  qed simp
  then show ?thesis by (simp add: atomic_run_def)
qed

lemma live_refines:
  assumes "live_reach hash n c" and "0 < n"
  shows "refines hash (as_cache c) (atomic_run (calls c))"
proof -
  obtain es where "execute hash es (as_cache (live_new n)) = Inr (as_cache c)" "calls c = filter is_call es"
    using live_execution [OF assms(1)] by blast
  with execute_refines [OF live_new_cache, of n hash es] assms(2) show ?thesis by (simp add: atomic_calls)
qed

subsection \<open>The threads alone come to rest\<close>

text \<open>
  A step of the threads: no call, no destructor and no spurious wake-up. Each takes something of the weight of its shard, and
  a shard at rest sleeps with no notification on its way.
\<close>

definition thread_step :: "('k \<Rightarrow> nat) \<Rightarrow> ('k, 'v) live_cache \<Rightarrow> ('k, 'v) live_cache \<Rightarrow> bool" where
  "thread_step hash c c' \<longleftrightarrow> live_step hash c c' \<and> calls c' = calls c \<and> map phase (threads c') = map phase (threads c) \<and>
     (\<forall>i < length (threads c). place (threads c ! i) = Sleeping \<and> place (threads c' ! i) \<noteq> Sleeping \<longrightarrow>
        wakeups (threads c' ! i) < wakeups (threads c ! i))"

definition all_living :: "('k, 'v) live_cache \<Rightarrow> bool" where
  "all_living c \<longleftrightarrow> (\<forall>i < length (threads c). phase (threads c ! i) = Living)"

fun place_weight :: "'t place \<Rightarrow> nat" where
  "place_weight Sleeping = 0"
| "place_weight Falling = 1"
| "place_weight At_Test = 2"
| "place_weight At_Lock = 3"
| "place_weight At_Loop = 4"
| "place_weight (Working t) = 5"
| "place_weight Done = 0"

definition shard_weight :: "'t shard_thread \<Rightarrow> nat" where
  "shard_weight th = 5 * length (queue th) + 5 * wakeups th + place_weight (place th)"

definition live_weight :: "('k, 'v) live_cache \<Rightarrow> nat" where
  "live_weight c = sum_list (map shard_weight (threads c))"

lemma shard_weight_decreases:
  assumes "shard_step th th'" and "shard_inv th" and "phase th = Living" and "phase th' = Living"
    and "pushed th' = pushed th" and "place th = Sleeping \<and> place th' \<noteq> Sleeping \<longrightarrow> wakeups th' < wakeups th"
  shows "shard_weight th' < shard_weight th"
  using assms(1)
proof (cases rule: shard_step.cases)
  case test_true
  with assms(2,3) obtain t ts where "queue th = t # ts" by (auto simp: shard_inv_def neq_Nil_conv)
  with test_true show ?thesis by (simp add: shard_weight_def pop_task_def)
next
  case leave
  with assms(2,3) show ?thesis by (simp add: shard_inv_def)
qed (use assms(3-6) in \<open>auto simp: shard_weight_def wake_def\<close>)

lemma thread_stepE:
  assumes "thread_step hash c c'"
  obtains i th where "i < length (threads c)" "shard_step (threads c ! i) th" "threads c' = (threads c)[i := th]"
    "pushed th = pushed (threads c ! i)" "phase th = phase (threads c ! i)"
    "place (threads c ! i) = Sleeping \<and> place th \<noteq> Sleeping \<longrightarrow> wakeups th < wakeups (threads c ! i)"
proof -
  have step: "live_step hash c c'" and same: "calls c' = calls c" "map phase (threads c') = map phase (threads c)"
    and woken: "\<And>i. i < length (threads c) \<Longrightarrow> place (threads c ! i) = Sleeping \<Longrightarrow> place (threads c' ! i) \<noteq> Sleeping \<Longrightarrow>
      wakeups (threads c' ! i) < wakeups (threads c ! i)"
    using assms by (simp_all add: thread_step_def)
  from step show ?thesis
  proof (cases rule: live_step.cases)
    case (move i th)
    then have "phase th = map phase (threads c') ! i" by simp
    also have "\<dots> = phase (threads c ! i)" using move(2) by (simp add: same(2))
    finally show ?thesis using that [of i th] move woken [of i] by simp
  next
    case (work i t)
    have "threads (run_live i t d) = threads d" for d :: "('a, 'b) live_cache" by (cases t) simp_all
    with work show ?thesis by (intro that [OF work(2) shard_step.work [OF work(3)]]) simp_all
  qed (use same in simp_all)
qed

lemma thread_step_keeps:
  assumes "live_inv n c \<and> all_living c" and "thread_step hash c c'"
  shows "live_inv n c' \<and> all_living c'"
proof
  show "live_inv n c'" using assms live_inv_step by (auto simp: thread_step_def)
  show "all_living c'"
    by (rule thread_stepE [OF assms(2)]) (use assms(1) in \<open>auto simp: all_living_def nth_list_update\<close>)
qed

lemma live_weight_decreases:
  assumes "live_inv n c \<and> all_living c" and "thread_step hash c c'"
  shows "live_weight c' < live_weight c"
proof (rule thread_stepE [OF assms(2)])
  fix i th
  assume i: "i < length (threads c)" and step: "shard_step (threads c ! i) th"
    and c': "threads c' = (threads c)[i := th]"
    and th: "pushed th = pushed (threads c ! i)" "phase th = phase (threads c ! i)"
    and woken: "place (threads c ! i) = Sleeping \<and> place th \<noteq> Sleeping \<longrightarrow> wakeups th < wakeups (threads c ! i)"
  have "shard_inv (threads c ! i)" "phase (threads c ! i) = Living"
    using assms(1) i by (simp_all add: live_inv_def list_all_length all_living_def)
  then have "shard_weight th < shard_weight (threads c ! i)"
    using shard_weight_decreases [OF step _ _ _ _ woken] th by simp
  then show ?thesis using i by (simp add: live_weight_def c' sum_list_update_less)
qed

interpretation settling: weighted_system "thread_step hash" "\<lambda>c. live_inv n c \<and> all_living c" live_weight for hash n
  by unfold_locales (rule thread_step_keeps live_weight_decreases; assumption)+

interpretation settling_calls: step_system "thread_step hash" "\<lambda>c. calls c = es" for hash es
  by unfold_locales (simp add: thread_step_def)

lemma thread_run_reach: "live_reach hash n c \<Longrightarrow> (thread_step hash ^^ k) c c' \<Longrightarrow> live_reach hash n c'"
proof (induction k arbitrary: c')
  case (Suc k)
  then obtain d where "live_reach hash n d" "thread_step hash d c'" by auto
  then show ?case using live_reach.step unfolding thread_step_def by blast
qed simp

lemma at_rest:
  assumes inv: "live_inv n c" and living: "all_living c" and rest: "\<And>c'. \<not> thread_step hash c c'"
    and i: "i < length (threads c)"
  shows "queue (threads c ! i) = [] \<and> in_progress (threads c ! i) = []"
proof -
  let ?th = "threads c ! i"
  have th: "shard_inv ?th" "phase ?th = Living"
    using inv living i by (simp_all add: live_inv_def list_all_length all_living_def)
  then have go: "\<not> stopping ?th" by (simp add: shard_inv_def)
  have no_move: "\<not> shard_step ?th th" if "pushed th = pushed ?th" "ran th = ran ?th" "phase th = phase ?th"
      "place ?th = Sleeping \<and> place th \<noteq> Sleeping \<longrightarrow> wakeups th < wakeups ?th" for th
  proof
    assume "shard_step ?th th"
    from live_step.move [OF i this that(1,2), of hash]
    have "thread_step hash c (c\<lparr>threads := (threads c)[i := th]\<rparr>)"
      using that(3,4) i by (auto simp: thread_step_def map_update list_update_same_conv nth_list_update)
    with rest show False by blast
  qed
  have "place ?th \<noteq> Working t" for t
  proof
    assume w: "place ?th = Working t"
    have "calls (run_live i t d) = calls d" "threads (run_live i t d) = threads d" for d :: "('a, 'b) live_cache"
      by (cases t; simp)+
    with live_step.work [OF i w, of hash] have "thread_step hash c (run_live i t (c\<lparr>threads :=
        (threads c)[i := (threads c ! i)\<lparr>place := At_Loop, ran := ran (threads c ! i) @ [t]\<rparr>]\<rparr>))"
      using i w by (auto simp: thread_step_def map_update list_update_same_conv nth_list_update)
    with rest show False by blast
  qed
  moreover have "wakeups ?th = 0"
    using no_move [OF _ _ _ _, of "?th\<lparr>place := wake (place ?th), wakeups := wakeups ?th - 1\<rparr>"]
      shard_step.notify_one [of ?th] by auto
  moreover have "place ?th \<noteq> At_Loop" using no_move shard_step.loop [of ?th] go by fastforce
  moreover have "place ?th \<noteq> At_Lock" using no_move shard_step.lock [of ?th] th by (fastforce simp: shard_inv_def)
  moreover have "place ?th \<noteq> At_Test"
  proof
    assume t: "place ?th = At_Test"
    show False
    proof (cases "queue ?th")
      case Nil
      with no_move [of "?th\<lparr>place := Falling\<rparr>"] shard_step.test_false [OF t _ go] t show False by simp
    next
      case (Cons t' ts)
      with no_move [of "pop_task ?th"] shard_step.test_true [OF t] t show False by (simp add: pop_task_def)
    qed
  qed
  moreover have "place ?th \<noteq> Falling" using no_move shard_step.sleep [of ?th] by fastforce
  moreover have "place ?th \<noteq> Done" using th(1) go by (auto simp: shard_inv_def)
  ultimately have "place ?th = Sleeping" "wakeups ?th = 0" by (cases "place ?th"; blast)+
  with th(1) show ?thesis by (auto simp: shard_inv_def in_progress_def)
qed

lemma settled_values:
  assumes "refines hash (as_cache c) (atomic_run es)"
    and "\<And>i. i < length (threads c) \<Longrightarrow> queue (threads c ! i) = [] \<and> in_progress (threads c ! i) = []"
  shows "futures c = map Some (answers (atomic_run es))" "get_sync hash (as_cache c) key = Inr (content (atomic_run es) key)"
proof -
  have "quiet (as_cache c)" using assms(2) by (auto simp: quiet_def in_set_conv_nth as_shard_def)
  from quiet_answers [OF assms(1) this] show "futures c = map Some (answers (atomic_run es))"
    "get_sync hash (as_cache c) key = Inr (content (atomic_run es) key)" by simp_all
qed

subsection \<open>Properties\<close>

text \<open>
  C25: the threads implement the cache of C19. Every state they can reach together with callers and
  destructors, whatever the interleaving, is one that the same calls in the same order reach when the
  workers take whole turns, a task in progress being still in its queue there. So a future that has its
  value holds what the map held when its \<open>get_async\<close> pushed the task, and a shard whose queue is empty and
  whose thread runs no task holds what the calls so far have made of its keys.
\<close>

theorem threads_refine:
  assumes "live_reach hash n c" and "0 < n"
  shows "\<exists>es. execute hash es (as_cache (live_new n)) = Inr (as_cache c) \<and> calls c = filter is_call es \<and>
    length (futures c) = length (answers (atomic_run (calls c))) \<and>
    (\<forall>p < length (futures c). futures c ! p \<in> {None, Some (answers (atomic_run (calls c)) ! p)}) \<and>
    (\<forall>key. let i = hash key mod n in
       queue (threads c ! i) = [] \<and> in_progress (threads c ! i) = [] \<longrightarrow>
       (stores c ! i) key = content (atomic_run (calls c)) key)"
proof -
  note refined = live_refines [OF assms]
  have n: "length (threads c) = n" using live_reach_inv [OF assms(1)] by (simp add: live_inv_def)
  have "futures c ! p \<in> {None, Some (answers (atomic_run (calls c)) ! p)}" if "p < length (futures c)" for p
    using refined that by (cases "futures c ! p") (auto simp: refines_def)
  moreover have "(stores c ! (hash key mod n)) key = content (atomic_run (calls c)) key"
    if "queue (threads c ! (hash key mod n)) = []" "in_progress (threads c ! (hash key mod n)) = []" for key
  proof -
    have "settled hash (as_cache c) key = content (atomic_run (calls c)) key"
      using refined by (simp add: refines_def)
    with that n assms(2) show ?thesis by (simp add: settled_def outcome_def as_shard_def)
  qed
  moreover have "length (futures c) = length (answers (atomic_run (calls c)))"
    using refined by (simp add: refines_def)
  ultimately show ?thesis using live_execution [OF assms(1)] by (auto simp: Let_def)
qed

text \<open>
  C20: the threads come to rest by themselves. When callers and destructors are quiet, every run of the
  threads from a reachable state, spurious wake-ups apart, ends within \<open>live_weight\<close> steps; and when none of
  them can move, every future has its value and \<open>get_sync\<close> returns, for every key, what the calls have made
  of it.
\<close>

theorem threads_settle:
  assumes "live_reach hash n c" and "0 < n" and "all_living c" and "(thread_step hash ^^ k) c c'"
  shows "k \<le> live_weight c \<and>
    ((\<forall>d. \<not> thread_step hash c' d) \<longrightarrow>
      futures c' = map Some (answers (atomic_run (calls c))) \<and>
      (\<forall>key. get_sync hash (as_cache c') key = Inr (content (atomic_run (calls c)) key)))"
proof -
  have inv: "live_inv n c \<and> all_living c" using live_reach_inv assms(1,3) by blast
  have inv': "live_inv n c' \<and> all_living c'" by (rule settling.run_inv [OF assms(4) inv])
  have same: "calls c' = calls c" by (rule settling_calls.run_inv [OF assms(4) refl])
  have "live_reach hash n c'" using assms(1,4) by (rule thread_run_reach)
  then have "refines hash (as_cache c') (atomic_run (calls c))" using live_refines assms(2) same by metis
  note finals = settled_values [OF this]
  have "futures c' = map Some (answers (atomic_run (calls c))) \<and>
      (\<forall>key. get_sync hash (as_cache c') key = Inr (content (atomic_run (calls c)) key))"
    if "\<forall>d. \<not> thread_step hash c' d"
    using finals at_rest [of n c' hash] inv' that by blast
  with settling.run_bounded [OF assms(4) inv] show ?thesis by auto
qed

text \<open>A run of one shard: a value is set, and the thread takes the task and runs it.\<close>

definition one_set :: "(nat \<Rightarrow> string option) \<Rightarrow> (nat, string) task place \<Rightarrow> bool \<Rightarrow> (nat, string) task list \<Rightarrow>
    (nat, string) task list \<Rightarrow> (nat, string) live_cache" where
  "one_set m p lk q r =
    \<lparr>threads = [\<lparr>place = p, queue = q, locked = lk, stopping = False, wakeups = 1, phase = Living,
       pushed = [Set_Task 5 ''a''], ran = r\<rparr>],
     stores = [m], futures = [], calls = [Call_Set 5 ''a'']\<rparr>"

lemma one_set_called: "live_reach (\<lambda>k. k) 1 (one_set Map.empty At_Loop False [Set_Task 5 ''a''] [])"
  using live_reach.step [OF live_reach.start live_step.set [of 0 "\<lambda>k. k" 5 "live_new 1" "''a''"]]
  by (simp add: live_new_def one_set_def Shard_new_def accepts_def push_thread_def)

lemma one_set_reached: "live_reach (\<lambda>k. k) 1 (one_set [5 \<mapsto> ''a''] At_Loop False [] [Set_Task 5 ''a''])"
proof -
  let ?t = "Set_Task 5 ''a'' :: (nat, string) task"
  have 2: "live_reach (\<lambda>k. k) 1 (one_set Map.empty At_Lock False [?t] [])"
    using live_reach.step [OF one_set_called live_step.move [OF _ shard_step.loop]] by (simp add: one_set_def)
  have 3: "live_reach (\<lambda>k. k) 1 (one_set Map.empty At_Test True [?t] [])"
    using live_reach.step [OF 2 live_step.move [OF _ shard_step.lock]] by (simp add: one_set_def)
  have 4: "live_reach (\<lambda>k. k) 1 (one_set Map.empty (Working ?t) False [] [])"
    using live_reach.step [OF 3 live_step.move [OF _ shard_step.test_true]] by (simp add: one_set_def pop_task_def)
  show ?thesis
    using live_reach.step [OF 4 live_step.work [of 0 _ ?t]] by (simp add: one_set_def)
qed

theorem threads_refine_witness:
  "\<exists>c. live_reach (\<lambda>k. k) 1 c \<and> calls c = [Call_Set (5::nat) ''a''] \<and>
    (stores c ! 0) 5 = Some ''a'' \<and> (stores c ! 0) 5 = content (atomic_run (calls c)) 5"
proof -
  let ?c = "one_set [5 \<mapsto> ''a''] At_Loop False [] [Set_Task 5 ''a'']"
  have idle: "queue (threads ?c ! 0) = [] \<and> in_progress (threads ?c ! 0) = []"
    by (simp add: one_set_def in_progress_def)
  have "\<forall>key. let i = key mod 1 in queue (threads ?c ! i) = [] \<and> in_progress (threads ?c ! i) = [] \<longrightarrow>
      (stores ?c ! i) key = content (atomic_run (calls ?c)) key"
    using threads_refine [OF one_set_reached] by simp blast
  with idle have "(stores ?c ! 0) 5 = content (atomic_run (calls ?c)) 5" by (simp add: Let_def)
  then show ?thesis using one_set_reached by (intro exI [of _ ?c]) (simp add: one_set_def)
qed

theorem threads_settle_witness:
  "\<exists>k c'. (thread_step (\<lambda>k. k) ^^ k) (one_set Map.empty At_Loop False [Set_Task 5 ''a''] []) c' \<and>
    k \<le> live_weight (one_set Map.empty At_Loop False [Set_Task 5 ''a''] []) \<and>
    get_sync (\<lambda>k. k) (as_cache c') 5 = Inr (Some ''a'')"
proof -
  let ?c = "one_set Map.empty At_Loop False [Set_Task 5 ''a''] []"
  have living: "all_living ?c" by (simp add: all_living_def one_set_def)
  obtain k c' where run: "(thread_step (\<lambda>k. k) ^^ k) ?c c'" "\<forall>d. \<not> thread_step (\<lambda>k. k) c' d"
    using settling.run_ends [of 1 ?c] live_reach_inv [OF one_set_called] living by blast
  have "content (atomic_run (calls ?c)) 5 = Some ''a''" by (simp add: one_set_def atomic_run_def)
  moreover have "k \<le> live_weight ?c \<and> get_sync (\<lambda>k. k) (as_cache c') 5 = Inr (content (atomic_run (calls ?c)) 5)"
    using threads_settle [OF one_set_called _ living run(1)] run(2) by simp
  ultimately show ?thesis using run(1) by metis
qed

end
