(* ===== verification/Ttl_Cache.thy ===== *)
theory Ttl_Cache
  imports Prelude "HOL-Library.AList"
begin

text \<open>
  \<open>HTTP-server-cpp/include/cache.h\<close> and \<open>src/cache.cpp\<close>: the response cache of the HTTP server. The
  hash map is the association list of its entries in the order of iteration; every operation holds the
  class's mutex from its first to its last statement, so it is one step on the map. A point in time is
  the number of nanoseconds of \<open>steady_clock\<close>, an argument of the operations that read the clock.
\<close>

type_synonym time = int

record entry =
  entry_value :: string
  expires_at :: time

type_synonym entries = "(string \<times> entry) list"

definition cache_put :: "time \<Rightarrow> string \<Rightarrow> string \<Rightarrow> int \<Rightarrow> entries \<Rightarrow> entries" where
  "cache_put now key v ttl_seconds data =
    AList.update key \<lparr>entry_value = v, expires_at = now + ttl_seconds * 1000000000\<rparr> data"

definition not_found :: string where
  "not_found = ''Not Founded''"

definition cache_get :: "time \<Rightarrow> string \<Rightarrow> entries \<Rightarrow> string \<times> entries" where
  "cache_get now key data =
    (case map_of data key of
       Some e \<Rightarrow> if now < expires_at e then (entry_value e, data) else (not_found, AList.delete key data)
     | None \<Rightarrow> (not_found, data))"

text \<open>The loop of \<open>cleanup\<close> over the entries.\<close>

fun cache_cleanup :: "time \<Rightarrow> entries \<Rightarrow> entries" where
  "cache_cleanup now [] = []"
| "cache_cleanup now ((key, e) # data) =
    (if expires_at e \<le> now then cache_cleanup now data else (key, e) # cache_cleanup now data)"

subsection \<open>The cache as a map of the values that are still valid\<close>

definition valid_at :: "time \<Rightarrow> entries \<Rightarrow> string \<Rightarrow> string option" where
  "valid_at now data key =
    (case map_of data key of
       Some e \<Rightarrow> if now < expires_at e then Some (entry_value e) else None
     | None \<Rightarrow> None)"

definition distinct_keys :: "entries \<Rightarrow> bool" where
  "distinct_keys data \<longleftrightarrow> distinct (map fst data)"

lemma cache_cleanup_filter: "cache_cleanup now data = filter (\<lambda>(key, e). now < expires_at e) data"
  by (induction now data rule: cache_cleanup.induct) auto

lemma distinct_keys_ops [simp]:
  "distinct_keys data \<Longrightarrow> distinct_keys (cache_put now key v ttl data)"
  "distinct_keys data \<Longrightarrow> distinct_keys (snd (cache_get now key data))"
  "distinct_keys data \<Longrightarrow> distinct_keys (cache_cleanup now data)"
  by (auto simp: distinct_keys_def cache_put_def cache_get_def cache_cleanup_filter distinct_update
      distinct_delete distinct_map_filter split: option.splits)

lemma map_of_cleanup:
  assumes "distinct_keys data"
  shows "map_of (cache_cleanup now data) key =
    (case map_of data key of Some e \<Rightarrow> if now < expires_at e then Some e else None | None \<Rightarrow> None)"
  using assms
proof (induction data)
  case (Cons a data)
  obtain k e where a: "a = (k, e)" by fastforce
  with Cons.prems have fresh: "map_of data k = None" and d: "distinct_keys data"
    by (auto simp: distinct_keys_def map_of_eq_None_iff)
  then show ?case using Cons.IH [OF d] by (auto simp: a)
qed simp

lemma cache_get_valid:
  "cache_get now key data = (case valid_at now data key of Some v \<Rightarrow> (v, data) | None \<Rightarrow>
     (not_found, if map_of data key = None then data else AList.delete key data))"
  by (simp add: cache_get_def valid_at_def split: option.splits)

lemma valid_put: "valid_at t (cache_put now key v ttl data) =
    (\<lambda>k. if k = key then (if t < now + ttl * 1000000000 then Some v else None) else valid_at t data k)"
  by (auto simp: valid_at_def cache_put_def update_conv' fun_eq_iff)

text \<open>Lookups and cleanups change nothing that could still be read.\<close>

lemma valid_get:
  assumes "now \<le> t"
  shows "valid_at t (snd (cache_get now key data)) = valid_at t data"
proof
  fix k
  show "valid_at t (snd (cache_get now key data)) k = valid_at t data k"
    using assms by (auto simp: valid_at_def cache_get_def delete_conv' split: option.splits)
qed

lemma valid_cleanup:
  assumes "distinct_keys data" and "now \<le> t"
  shows "valid_at t (cache_cleanup now data) = valid_at t data"
  using assms by (auto simp: fun_eq_iff valid_at_def map_of_cleanup split: option.splits)

lemma cleanup_expired: "(key, e) \<in> set (cache_cleanup now data) \<Longrightarrow> now < expires_at e"
  by (auto simp: cache_cleanup_filter)

subsection \<open>What a client of the cache relies on\<close>

text \<open>
  A cache of responses: \<open>all_satisfy P c\<close> says that everything stored satisfies \<open>P\<close>; a lookup returns
  something stored under the key or \<open>absent\<close>, and no operation but \<open>put\<close> stores anything.
\<close>

locale response_cache =
  fixes lookup :: "time \<Rightarrow> string \<Rightarrow> 'c \<Rightarrow> string \<times> 'c"
    and store :: "time \<Rightarrow> string \<Rightarrow> string \<Rightarrow> 'c \<Rightarrow> 'c"
    and tidy :: "time \<Rightarrow> 'c \<Rightarrow> 'c"
    and absent :: string
    and all_satisfy :: "(string \<Rightarrow> string \<Rightarrow> bool) \<Rightarrow> 'c \<Rightarrow> bool"
  assumes lookup_law: "all_satisfy P c \<Longrightarrow>
      (fst (lookup now key c) = absent \<or> P key (fst (lookup now key c))) \<and> all_satisfy P (snd (lookup now key c))"
    and store_law: "all_satisfy P c \<Longrightarrow> P key v \<Longrightarrow> all_satisfy P (store now key v c)"
    and tidy_law: "all_satisfy P c \<Longrightarrow> all_satisfy P (tidy now c)"
begin

text \<open>
  Answering through the cache: with a function \<open>f\<close> that never returns \<open>absent\<close>, a cache that holds only
  values of \<open>f\<close> is invisible.
\<close>

definition through :: "(string \<Rightarrow> string) \<Rightarrow> time \<Rightarrow> time \<Rightarrow> string \<Rightarrow> 'c \<Rightarrow> string \<times> 'c" where
  "through f now now' key c =
    (case lookup now key c of (cached, c) \<Rightarrow>
       if cached \<noteq> absent then (cached, c) else (f key, store now' key (f key) c))"

lemma through_transparent:
  assumes "all_satisfy (\<lambda>k v. v = f k) c"
  shows "fst (through f now now' key c) = f key"
    and "all_satisfy (\<lambda>k v. v = f k) (snd (through f now now' key c))"
  using lookup_law [OF assms, of now key] store_law [of "\<lambda>k v. v = f k" "snd (lookup now key c)" key "f key" now']
  by (cases "lookup now key c"; auto simp: through_def)+

end

definition entries_satisfy :: "(string \<Rightarrow> string \<Rightarrow> bool) \<Rightarrow> entries \<Rightarrow> bool" where
  "entries_satisfy P data \<longleftrightarrow> distinct_keys data \<and> (\<forall>(key, e) \<in> set data. P key (entry_value e))"

lemma set_delete_subset: "set (AList.delete k xs) \<subseteq> set xs"
  by (auto simp: AList.delete_eq)

lemma set_update_subset: "set (AList.update k v xs) \<subseteq> insert (k, v) (set xs)"
  by (induction xs) auto

interpretation responses: response_cache cache_get "\<lambda>now key v. cache_put now key v 60" cache_cleanup
  not_found entries_satisfy
proof
  fix P :: "string \<Rightarrow> string \<Rightarrow> bool" and c :: entries and now key
  assume c: "entries_satisfy P c"
  then show "(fst (cache_get now key c) = not_found \<or> P key (fst (cache_get now key c))) \<and>
      entries_satisfy P (snd (cache_get now key c))"
    using set_delete_subset [of key c]
    by (auto simp: entries_satisfy_def distinct_keys_def cache_get_def distinct_delete
        dest!: map_of_SomeD split: option.splits)
  show "entries_satisfy P (cache_cleanup now c)"
    using c by (auto simp: entries_satisfy_def) (auto simp: cache_cleanup_filter)
next
  fix P :: "string \<Rightarrow> string \<Rightarrow> bool" and c :: entries and key v now
  assume "entries_satisfy P c" "P key v"
  then show "entries_satisfy P (cache_put now key v 60 c)"
    using set_update_subset [of key "\<lparr>entry_value = v, expires_at = now + 60 * 1000000000\<rparr>" c]
    by (auto simp: entries_satisfy_def) (auto simp: cache_put_def)
qed

subsection \<open>Histories of calls\<close>

text \<open>
  The calls in the order in which they take the mutex, each with the time it reads; only lookups have an
  answer.
\<close>

datatype cache_call = PutCall string string int | GetCall string | CleanupCall

type_synonym history = "(time \<times> cache_call) list"

fun cache_step :: "time \<times> cache_call \<Rightarrow> entries \<Rightarrow> string option \<times> entries" where
  "cache_step (now, PutCall key v ttl) data = (None, cache_put now key v ttl data)"
| "cache_step (now, GetCall key) data = (case cache_get now key data of (v, data) \<Rightarrow> (Some v, data))"
| "cache_step (now, CleanupCall) data = (None, cache_cleanup now data)"

fun run_cache :: "history \<Rightarrow> entries \<Rightarrow> string option list \<times> entries" where
  "run_cache [] data = ([], data)"
| "run_cache (x # xs) data =
    (case cache_step x data of (a, data) \<Rightarrow> case run_cache xs data of (as, data) \<Rightarrow> (a # as, data))"

text \<open>
  What a lookup should find, from the calls before it alone: the value of the last \<open>put\<close> on the key,
  for as long as its time to live has not passed.
\<close>

fun last_put :: "string \<Rightarrow> history \<Rightarrow> (string \<times> time) option" where
  "last_put key [] = None"
| "last_put key ((now, PutCall k v ttl) # h) =
    (case last_put key h of
       None \<Rightarrow> if k = key then Some (v, now + ttl * 1000000000) else None
     | Some p \<Rightarrow> Some p)"
| "last_put key (x # h) = last_put key h"

definition fresh_value :: "history \<Rightarrow> time \<Rightarrow> string \<Rightarrow> string option" where
  "fresh_value h t key =
    (case last_put key h of Some (v, expiry) \<Rightarrow> if t < expiry then Some v else None | None \<Rightarrow> None)"

fun expected_answer :: "history \<Rightarrow> time \<times> cache_call \<Rightarrow> string option" where
  "expected_answer h (t, GetCall key) = Some (case fresh_value h t key of Some v \<Rightarrow> v | None \<Rightarrow> not_found)"
| "expected_answer h (t, c) = None"

lemma run_cache_snoc:
  "run_cache (xs @ [x]) data =
    (case run_cache xs data of (as, data) \<Rightarrow> case cache_step x data of (a, data) \<Rightarrow> (as @ [a], data))"
  by (induction xs arbitrary: data) (simp_all split: prod.split)

lemma last_put_snoc:
  "last_put key (h @ [(now, PutCall k v ttl)]) =
    (if k = key then Some (v, now + ttl * 1000000000) else last_put key h)"
  "last_put key (h @ [(now, GetCall k)]) = last_put key h"
  "last_put key (h @ [(now, CleanupCall)]) = last_put key h"
  by (induction key h rule: last_put.induct) (simp_all split: option.split)

text \<open>The map of the values that are still valid is the abstraction; every call keeps to it.\<close>

lemma run_cache_refines:
  assumes "sorted (map fst h)"
  shows "distinct_keys (snd (run_cache h [])) \<and>
    (\<forall>t. (\<forall>x \<in> set h. fst x \<le> t) \<longrightarrow> valid_at t (snd (run_cache h [])) = fresh_value h t)"
  using assms
proof (induction h rule: rev_induct)
  case Nil
  show ?case by (simp add: distinct_keys_def fun_eq_iff valid_at_def fresh_value_def)
next
  case (snoc x h)
  obtain now c where x: "x = (now, c)" by fastforce
  let ?d = "snd (run_cache h [])"
  from snoc have d: "distinct_keys ?d" and before: "\<forall>y \<in> set h. fst y \<le> now"
    and v: "\<And>t. \<forall>y \<in> set h. fst y \<le> t \<Longrightarrow> valid_at t ?d = fresh_value h t"
    by (auto simp: sorted_append x)
  have next_d: "snd (run_cache (h @ [x]) []) = snd (cache_step x ?d)"
    by (simp add: run_cache_snoc split: prod.split)
  have "distinct_keys (snd (cache_step x ?d))"
    using d by (cases c) (simp_all add: x case_prod_beta)
  moreover have "valid_at t (snd (cache_step x ?d)) = fresh_value (h @ [x]) t"
    if t: "\<forall>y \<in> set (h @ [x]). fst y \<le> t" for t
  proof -
    have now: "now \<le> t" and old: "valid_at t ?d = fresh_value h t" using t v by (simp_all add: x)
    show ?thesis
      using old valid_get [OF now, of _ ?d] valid_cleanup [OF d now]
      by (cases c) (simp_all add: x fun_eq_iff fresh_value_def valid_put last_put_snoc case_prod_beta)
  qed
  ultimately show ?case unfolding next_d by blast
qed

lemma run_cache_answers:
  "sorted (map fst h) \<Longrightarrow>
    fst (run_cache h []) = map (\<lambda>i. expected_answer (take i h) (h ! i)) [0..<length h]"
proof (induction h rule: rev_induct)
  case (snoc x h)
  obtain now c where x: "x = (now, c)" by fastforce
  from snoc.prems have h: "sorted (map fst h)" and before: "\<forall>y \<in> set h. fst y \<le> now"
    by (auto simp: sorted_append x)
  with run_cache_refines [OF h] have "valid_at now (snd (run_cache h [])) = fresh_value h now" by blast
  then have "fst (cache_step x (snd (run_cache h []))) = expected_answer h x"
    by (cases c) (simp_all add: x cache_get_valid split: option.split)
  with snoc.IH [OF h] show ?case by (simp add: run_cache_snoc nth_append case_prod_beta)
qed simp

subsection \<open>Properties\<close>

text \<open>
  C29: over every history of calls the cache answers as if it kept all that was ever put: a lookup
  returns the value of the last \<open>put\<close> on its key as long as the time to live has not passed, and
  \<open>Not Founded\<close> otherwise, although lookups and clean-ups delete entries. After a clean-up every entry
  that is left is still valid, and no key has two.
\<close>

theorem ttl_cache_behaves:
  assumes "sorted (map fst h)"
  shows "fst (run_cache h []) = map (\<lambda>i. expected_answer (take i h) (h ! i)) [0..<length h] \<and>
    distinct_keys (snd (run_cache h [])) \<and>
    ((key, e) \<in> set (snd (run_cache (h @ [(now, CleanupCall)]) [])) \<longrightarrow> now < expires_at e)"
  using run_cache_answers [OF assms] run_cache_refines [OF assms] cleanup_expired [of key e now]
  by (auto simp: run_cache_snoc case_prod_beta)

theorem ttl_cache_behaves_witness:
  "fst (run_cache [(0, PutCall ''/'' ''hi'' 60), (59000000000, GetCall ''/''), (60000000000, GetCall ''/''), (60000000000, GetCall ''/x'')] []) =
    [None, Some ''hi'', Some ''Not Founded'', Some ''Not Founded'']"
proof -
  let ?h = "[(0 :: time, PutCall ''/'' ''hi'' 60), (59000000000, GetCall ''/''), (60000000000, GetCall ''/''), (60000000000, GetCall ''/x'')]"
  have "sorted (map fst ?h)" by simp
  from conjunct1 [OF ttl_cache_behaves [OF this]] show ?thesis
    by (simp add: fresh_value_def not_found_def eval_nat_numeral upt_conv_Cons)
qed

end
