(* ===== verification/Http_Parser.thy ===== *)
theory Http_Parser
  imports Ttl_Cache
begin

text \<open>
  \<open>HTTP-server-cpp/src/http_parser.cpp\<close>: \<open>HttpParser::handle_request\<close>. The JSON library is the parameter
  \<open>json_items\<close>: for a body, the keys and dumped values the loop visits, or \<open>None\<close> when parsing, \<open>key()\<close> or
  \<open>dump()\<close> throws, since all three throw into the same handler.
\<close>

subsection \<open>Text\<close>

abbreviation cr :: char where "cr \<equiv> CHR 13"
abbreviation lf :: char where "lf \<equiv> CHR 10"

definition crlf :: string where
  "crlf = [cr, lf]"

text \<open>\<open>std::isspace\<close> in the "C" locale, and \<open>stream >> word\<close>.\<close>

definition is_space :: "char \<Rightarrow> bool" where
  "is_space c \<longleftrightarrow> c = CHR 32 \<or> 9 \<le> (of_char c :: nat) \<and> (of_char c :: nat) \<le> 13"

definition next_word :: "string \<Rightarrow> string \<times> string" where
  "next_word s = (let t = dropWhile is_space s in
     (takeWhile (\<lambda>c. \<not> is_space c) t, dropWhile (\<lambda>c. \<not> is_space c) t))"

text \<open>\<open>s.find(pat)\<close>: the first position, if there is one.\<close>

fun prefix_of :: "string \<Rightarrow> string \<Rightarrow> bool" where
  "prefix_of [] s = True"
| "prefix_of (p # ps) [] = False"
| "prefix_of (p # ps) (c # s) = (p = c \<and> prefix_of ps s)"

fun find_sub :: "string \<Rightarrow> string \<Rightarrow> nat option" where
  "find_sub pat [] = (if pat = [] then Some 0 else None)"
| "find_sub pat (c # s) = (if prefix_of pat (c # s) then Some 0 else map_option Suc (find_sub pat s))"

subsection \<open>Responses\<close>

definition ok_response :: "string \<Rightarrow> string" where
  "ok_response body = ''HTTP/1.1 200 OK'' @ crlf @ ''Content-Length: '' @ to_string (length body) @ crlf @
     ''Content-Type: text/plain'' @ crlf @ ''Connection: close'' @ crlf @ crlf @ body"

definition bad_request :: string where
  "bad_request = ''HTTP/1.1 400 Bad Request'' @ crlf @ ''Content-Length: 0'' @ crlf @
     ''Connection: close'' @ crlf @ crlf"

definition invalid_json :: string where
  "invalid_json = (let err = ''Invalid JSON'' in
     ''HTTP/1.1 400 Bad Request'' @ crlf @ ''Content-Length: '' @ to_string (length err) @ crlf @
     ''Content-Type: text/plain'' @ crlf @ ''Connection: close'' @ crlf @ crlf @ err)"

definition not_implemented :: string where
  "not_implemented = ''HTTP/1.1 501 Not Implemented'' @ crlf @ ''Content-Length: 0'' @
     ''Connection: close'' @ crlf @ crlf"

text \<open>The loop over the pairs of the JSON value, with a separator unless the next one is the end.\<close>

fun pairs_text :: "(string \<times> string) list \<Rightarrow> string" where
  "pairs_text [] = []"
| "pairs_text ((key, v) # ps) = key @ '': '' @ v @ (if ps \<noteq> [] then '', '' else []) @ pairs_text ps"

definition get_response :: "string \<Rightarrow> string" where
  "get_response path = ok_response (''Hello from GET '' @ path)"

definition post_response :: "(string \<Rightarrow> (string \<times> string) list option) \<Rightarrow> string \<Rightarrow> string" where
  "post_response json_items raw =
    (case find_sub (crlf @ crlf) raw of
       None \<Rightarrow> bad_request
     | Some pos \<Rightarrow>
        (case json_items (drop (pos + 4) raw) of
           Some ps \<Rightarrow> ok_response (''Received JSON with pairs: '' @ pairs_text ps)
         | None \<Rightarrow> invalid_json))"

text \<open>
  \<open>handle_request\<close>: the clock is read at \<open>now\<close> by the lookup and at \<open>now'\<close> by the insertion.
\<close>

definition handle_request ::
  "(string \<Rightarrow> (string \<times> string) list option) \<Rightarrow> time \<Rightarrow> time \<Rightarrow> string \<Rightarrow> entries \<Rightarrow> string \<times> entries" where
  "handle_request json_items now now' raw data =
    (let (method, stream) = next_word raw;
         (path, stream) = next_word stream;
         (version, stream) = next_word stream
     in if method = ''GET'' then
          (let (cached, data) = cache_get now path data in
           if cached \<noteq> ''Not Founded'' then (cached, data)
           else let response = get_response path in (response, cache_put now' path response 60 data))
        else if method = ''POST'' then (post_response json_items raw, data)
        else (not_implemented, data))"

subsection \<open>The response to a request\<close>

text \<open>What the answer is, whatever the cache and the clock.\<close>

definition respond :: "(string \<Rightarrow> (string \<times> string) list option) \<Rightarrow> string \<Rightarrow> string" where
  "respond json_items raw =
    (let (method, stream) = next_word raw in
     if method = ''GET'' then get_response (fst (next_word stream))
     else if method = ''POST'' then post_response json_items raw
     else not_implemented)"

lemma get_response_not_absent: "get_response path \<noteq> not_found"
  by (simp add: get_response_def ok_response_def not_found_def)

definition cache_sound :: "entries \<Rightarrow> bool" where
  "cache_sound = entries_satisfy (\<lambda>path v. v = get_response path)"

lemma handle_request_respond:
  assumes "cache_sound data"
  shows "fst (handle_request json_items now now' raw data) = respond json_items raw"
    and "cache_sound (snd (handle_request json_items now now' raw data))"
proof -
  note through = responses.through_transparent [OF assms [unfolded cache_sound_def]]
  have eq: "handle_request json_items now now' raw data =
      (let (method, stream) = next_word raw in
       if method = ''GET'' then responses.through get_response now now' (fst (next_word stream)) data
       else if method = ''POST'' then (post_response json_items raw, data) else (not_implemented, data))"
    by (simp add: handle_request_def responses.through_def Let_def flip: not_found_def split: prod.splits)
  show "fst (handle_request json_items now now' raw data) = respond json_items raw"
    unfolding eq respond_def by (simp add: Let_def through split: prod.splits)
  show "cache_sound (snd (handle_request json_items now now' raw data))"
    using assms unfolding eq by (auto simp: Let_def cache_sound_def through split: prod.splits)
qed

subsection \<open>Framing\<close>

text \<open>
  A client's view of a response: the lines of the head up to the empty one, and the rest. A response
  is framed when its head has a \<open>Content-Length\<close> that is the number of bytes that follow.
\<close>

fun split_line :: "string \<Rightarrow> (string \<times> string) option" where
  "split_line [] = None"
| "split_line [c] = None"
| "split_line (c # d # s) =
    (if c = cr \<and> d = lf then Some ([], s) else map_option (\<lambda>(l, r). (c # l, r)) (split_line (d # s)))"

lemma split_line_shorter: "split_line s = Some (l, r) \<Longrightarrow> length r < length s"
  by (induction s arbitrary: l rule: split_line.induct) (auto split: if_splits)

function read_head :: "string \<Rightarrow> (string list \<times> string) option" where
  "read_head s =
    (case split_line s of
       None \<Rightarrow> None
     | Some (l, r) \<Rightarrow> if l = [] then Some ([], r) else map_option (\<lambda>(ls, b). (l # ls, b)) (read_head r))"
  by pat_completeness auto
termination
  by (relation "measure length") (auto dest: split_line_shorter)

declare read_head.simps [simp del]

definition length_field :: "string \<Rightarrow> nat option" where
  "length_field l =
    (let name = ''Content-Length: ''; v = drop (length name) l in
     if prefix_of name l \<and> v \<noteq> [] \<and> list_all is_digit v then Some (dec_val v) else None)"

definition content_length :: "string list \<Rightarrow> nat option" where
  "content_length ls = (case List.map_filter length_field ls of [] \<Rightarrow> None | n # ns \<Rightarrow> Some n)"

definition framed :: "string \<Rightarrow> bool" where
  "framed response = (case read_head response of
     None \<Rightarrow> False
   | Some (ls, body) \<Rightarrow> content_length ls = Some (length body))"

lemma split_line_append: "cr \<notin> set l \<Longrightarrow> split_line (l @ crlf @ r) = Some (l, r)"
proof (induction l)
  case Nil
  show ?case by (simp add: crlf_def)
next
  case (Cons c l)
  then show ?case by (cases "l @ crlf @ r") (auto simp: crlf_def)
qed

lemma read_head_line: "cr \<notin> set l \<Longrightarrow> l \<noteq> [] \<Longrightarrow>
    read_head (l @ crlf @ r) = map_option (\<lambda>(ls, b). (l # ls, b)) (read_head r)"
  by (subst read_head.simps) (simp add: split_line_append)

lemma read_head_end: "read_head (crlf @ r) = Some ([], r)"
  using split_line_append [of "[]" r] by (subst read_head.simps) simp

lemma read_head_lines:
  "\<forall>l \<in> set ls. l \<noteq> [] \<and> cr \<notin> set l \<Longrightarrow>
    read_head (concat (map (\<lambda>l. l @ crlf) ls) @ crlf @ body) = Some (ls, body)"
  by (induction ls) (simp_all add: read_head_end read_head_line)

lemma to_string_no_cr: "cr \<notin> set (to_string n)"
  using to_string_digits [of n] by (auto simp: list_all_iff is_digit_def)

lemma length_field_to_string: "length_field (''Content-Length: '' @ to_string n) = Some n"
  by (simp add: length_field_def to_string_digits)

lemma framed_lines:
  assumes "\<forall>l \<in> set ls. l \<noteq> [] \<and> cr \<notin> set l"
  shows "framed (concat (map (\<lambda>l. l @ crlf) ls) @ crlf @ body) \<longleftrightarrow> content_length ls = Some (length body)"
  using read_head_lines [OF assms] by (simp add: framed_def)

lemma content_length_second:
  "length_field a = None \<Longrightarrow> length_field b = Some n \<Longrightarrow> content_length (a # b # ls) = Some n"
  by (simp add: content_length_def map_filter_simps)

lemma framed_ok: "framed (ok_response body)"
proof -
  let ?ls = "[''HTTP/1.1 200 OK'', ''Content-Length: '' @ to_string (length body),
      ''Content-Type: text/plain'', ''Connection: close'']"
  have "ok_response body = concat (map (\<lambda>l. l @ crlf) ?ls) @ crlf @ body"
    by (simp add: ok_response_def)
  moreover have "length_field ''HTTP/1.1 200 OK'' = None" by (simp add: length_field_def)
  ultimately show ?thesis
    using framed_lines [of ?ls body] content_length_second [OF _ length_field_to_string]
    by (simp add: to_string_no_cr)
qed

lemma framed_errors: "framed bad_request" "framed invalid_json" "\<not> framed not_implemented"
  by code_simp+

lemma respond_framed: "framed (respond json_items raw) \<longleftrightarrow> fst (next_word raw) \<in> {''GET'', ''POST''}"
  using framed_ok framed_errors
  by (auto simp: respond_def get_response_def post_response_def Let_def split: prod.splits option.splits)

subsection \<open>What the request's words are\<close>

lemma next_word_spec:
  assumes "\<forall>c \<in> set ws. is_space c" and "\<forall>c \<in> set w. \<not> is_space c" and "w \<noteq> []"
    and "r = [] \<or> is_space (hd r)"
  shows "next_word (ws @ w @ r) = (w, r)"
proof -
  have "dropWhile is_space (ws @ w @ r) = w @ r"
    using assms(1,2,3) by (cases w) (auto simp: dropWhile_append)
  moreover have "takeWhile (\<lambda>c. \<not> is_space c) (w @ r) = w" "dropWhile (\<lambda>c. \<not> is_space c) (w @ r) = r"
    using assms(2,4) by (cases r; auto simp: takeWhile_append dropWhile_append)+
  ultimately show ?thesis by (simp add: next_word_def Let_def)
qed

text \<open>\<open>find\<close> returns the first occurrence.\<close>

lemma prefix_of_iff: "prefix_of pat s \<longleftrightarrow> (\<exists>r. s = pat @ r)"
  by (induction pat s rule: prefix_of.induct) auto

lemma find_sub_Some:
  "find_sub pat s = Some i \<longleftrightarrow> i \<le> length s \<and> prefix_of pat (drop i s) \<and> (\<forall>j < i. \<not> prefix_of pat (drop j s))"
proof (induction pat s arbitrary: i rule: find_sub.induct)
  case (1 pat)
  show ?case by (cases pat) auto
next
  case (2 pat c s)
  show ?case
  proof (cases "prefix_of pat (c # s)")
    case True
    then show ?thesis by (cases i) auto
  next
    case False
    with 2 show ?thesis by (cases i) (auto simp: less_Suc_eq_0_disj)
  qed
qed

subsection \<open>A session\<close>

text \<open>
  The server between two clean-ups and over them: requests with the times at which the cache is
  consulted, and the clean-ups of the event loop.
\<close>

datatype session_event = Request time time string | Cleanup time

fun session_step :: "(string \<Rightarrow> (string \<times> string) list option) \<Rightarrow> session_event \<Rightarrow>
    string list \<times> entries \<Rightarrow> string list \<times> entries" where
  "session_step json_items (Request now now' raw) (sent, data) =
    (case handle_request json_items now now' raw data of (r, data) \<Rightarrow> (sent @ [r], data))"
| "session_step json_items (Cleanup now) (sent, data) = (sent, cache_cleanup now data)"

fun requests :: "session_event list \<Rightarrow> string list" where
  "requests [] = []"
| "requests (Request now now' raw # es) = raw # requests es"
| "requests (Cleanup now # es) = requests es"

lemma session_responses:
  "cache_sound data \<Longrightarrow> fold (session_step json_items) es (sent, data) = (sent', data') \<Longrightarrow>
    sent' = sent @ map (respond json_items) (requests es) \<and> cache_sound data'"
proof (induction es arbitrary: sent data)
  case (Cons e es)
  show ?case
  proof (cases e)
    case (Request now now' raw)
    obtain r d where rd: "handle_request json_items now now' raw data = (r, d)" by fastforce
    with handle_request_respond [OF Cons.prems(1), of json_items now now' raw]
    have "r = respond json_items raw" "cache_sound d" by simp_all
    with Cons Request rd show ?thesis by fastforce
  next
    case (Cleanup now)
    have "cache_sound (cache_cleanup now data)"
      using Cons.prems(1) responses.tidy_law unfolding cache_sound_def by blast
    with Cons Cleanup show ?thesis by simp
  qed
qed simp

subsection \<open>Properties\<close>

text \<open>
  C26: over any session of requests and clean-ups the server answers every request as the stateless
  function \<open>respond\<close> does: the response cache, the clock and the clean-ups are invisible to the clients. A
  response is framed exactly when it answers a GET or a POST request. Then its head is a sequence of
  lines ended by an empty one and its \<open>Content-Length\<close> is the number of bytes of the body, for every path,
  body and JSON library. In the response to any other method the line end after the length is missing, so
  the head has no line that a client can read a length from.
\<close>

theorem cache_transparent:
  assumes "fold (session_step json_items) es ([], []) = (sent, data)"
  shows "sent = map (respond json_items) (requests es) \<and>
    map framed sent = map (\<lambda>raw. fst (next_word raw) \<in> {''GET'', ''POST''}) (requests es)"
  using session_responses [OF _ assms] by (simp add: cache_sound_def entries_satisfy_def distinct_keys_def respond_framed)

definition get_main :: string where
  "get_main = ''GET /main HTTP/1.1'' @ crlf @ crlf"

theorem cache_transparent_witness:
  "fst (fold (session_step (\<lambda>b. None)) [Request 0 1 get_main, Request 2 3 get_main, Cleanup 70000000000] ([], [])) =
    [respond (\<lambda>b. None) get_main, respond (\<lambda>b. None) get_main] \<and>
  framed (respond (\<lambda>b. None) get_main)"
proof -
  obtain sent data where
    "fold (session_step (\<lambda>b. None)) [Request 0 1 get_main, Request 2 3 get_main, Cleanup 70000000000] ([], []) = (sent, data)"
    by fastforce
  moreover have "fst (next_word get_main) = ''GET''" by code_simp
  ultimately show ?thesis using cache_transparent [of "\<lambda>b. None" _ sent data] by fastforce
qed

end
