(* ===== verification/Winsock.thy ===== *)
theory Winsock
  imports Prelude
begin

text \<open>
  The resources of the two Windows servers: what has been started and opened is read off the trace of
  the calls a run makes. A failed call acquires nothing and is not in the trace.
\<close>

datatype wsa_call = Started | Cleaned_Up | Opened int | Closed int

text \<open>How often the library is started, and the sockets open, after a trace.\<close>

fun wsa_step :: "wsa_call \<Rightarrow> nat \<times> int list \<Rightarrow> nat \<times> int list" where
  "wsa_step Started (n, open_fds) = (Suc n, open_fds)"
| "wsa_step Cleaned_Up (n, open_fds) = (n - 1, open_fds)"
| "wsa_step (Opened fd) (n, open_fds) = (n, fd # open_fds)"
| "wsa_step (Closed fd) (n, open_fds) = (n, remove1 fd open_fds)"

definition held_after :: "wsa_call list \<Rightarrow> nat \<times> int list" where
  "held_after calls = fold wsa_step calls (0, [])"

definition all_released :: "wsa_call list \<Rightarrow> bool" where
  "all_released calls \<longleftrightarrow> held_after calls = (0, [])"

text \<open>A section of a run that closes what it opened changes nothing.\<close>

definition neutral :: "wsa_call list \<Rightarrow> bool" where
  "neutral calls \<longleftrightarrow> (\<forall>s. fold wsa_step calls s = s)"

lemma neutral_Nil [simp]: "neutral []"
  by (simp add: neutral_def)

lemma neutral_append: "neutral xs \<Longrightarrow> neutral ys \<Longrightarrow> neutral (xs @ ys)"
  by (simp add: neutral_def)

lemma neutral_open_close [simp]: "neutral [Opened fd, Closed fd]"
  by (auto simp: neutral_def)

subsection \<open>Opening the listening socket\<close>

text \<open>
  What the calls of the start-up return: \<open>WSAStartup\<close>, \<open>socket\<close>, \<open>bind\<close> and \<open>listen\<close>. Both servers make
  them in this order and release what they hold on a failure.
\<close>

record listen_env =
  wsa_starts :: bool
  socket_result :: "int option"
  bind_succeeds :: bool
  listen_succeeds :: bool

datatype listen_failure = Startup_Failed | Socket_Failed | Bind_Failed | Listen_Failed

definition open_listener :: "listen_env \<Rightarrow> (listen_failure + int) \<times> wsa_call list" where
  "open_listener env =
    (if \<not> wsa_starts env then (Inl Startup_Failed, [])
     else case socket_result env of
       None \<Rightarrow> (Inl Socket_Failed, [Started, Cleaned_Up])
     | Some fd \<Rightarrow>
         if \<not> bind_succeeds env then (Inl Bind_Failed, [Started, Opened fd, Closed fd, Cleaned_Up])
         else if \<not> listen_succeeds env then (Inl Listen_Failed, [Started, Opened fd, Closed fd, Cleaned_Up])
         else (Inr fd, [Started, Opened fd]))"

lemma open_listener_holds:
  "case open_listener env of (Inl e, calls) \<Rightarrow> all_released calls | (Inr fd, calls) \<Rightarrow> held_after calls = (1, [fd])"
  by (simp add: open_listener_def all_released_def held_after_def split: option.splits)

end
