(* ===== verification/Http_Server.thy ===== *)
theory Http_Server
  imports Http_Parser Winsock
begin

text \<open>
  \<open>HTTP-server-cpp/src/server.cpp\<close>: the event loop over the sets of \<open>select\<close> and the handling of one
  client. What the system calls return is an argument of the definitions.
\<close>

subsection \<open>Starting up\<close>

text \<open>\<open>init_socket\<close>: a failure is an exception, with its message; otherwise the listening socket.\<close>

definition init_socket :: "listen_env \<Rightarrow> (string + int) \<times> wsa_call list" where
  "init_socket env =
    (case open_listener env of
       (Inl f, cs) \<Rightarrow>
         (Inl (case f of Startup_Failed \<Rightarrow> ''WSAStartup failed'' | Socket_Failed \<Rightarrow> ''Socket creation failed''
           | Bind_Failed \<Rightarrow> ''Bind failed'' | Listen_Failed \<Rightarrow> ''Listen failed''), cs)
     | (Inr fd, cs) \<Rightarrow> (Inr fd, cs))"

lemma init_socket_holds:
  "case init_socket env of (Inl m, cs) \<Rightarrow> all_released cs | (Inr fd, cs) \<Rightarrow> held_after cs = (1, [fd])"
  using open_listener_holds [of env] by (simp add: init_socket_def split: prod.splits sum.splits)

subsection \<open>One client\<close>

text \<open>\<open>recv\<close> takes what has arrived, at most the 4096 bytes of the buffer; nothing is a closed connection.\<close>

definition recv :: "string \<Rightarrow> string option" where
  "recv arrived = (if arrived = [] then None else Some (take 4096 arrived))"

text \<open>
  The loop that sends the response: \<open>outcomes\<close> are the values the successive calls of \<open>send\<close> return, and
  a positive one is the number of bytes that went out. The result is what the client received and
  whether the loop ran to its end; without an outcome the call has not returned.
\<close>

fun send_loop :: "int list \<Rightarrow> string \<Rightarrow> nat \<Rightarrow> (string \<times> bool) option" where
  "send_loop [] data total_sent = (if total_sent < length data then None else Some ([], True))"
| "send_loop (sent # outcomes) data total_sent =
    (if total_sent < length data then
       if sent \<le> 0 then Some ([], False)
       else map_option (\<lambda>(wire, done). (take (nat sent) (drop total_sent data) @ wire, done))
              (send_loop outcomes data (total_sent + nat sent))
     else Some ([], True))"

record client_result =
  wire :: string
  complete :: bool
  closed :: bool

definition handle_client ::
  "(string \<Rightarrow> (string \<times> string) list option) \<Rightarrow> time \<Rightarrow> time \<Rightarrow> string \<Rightarrow> int list \<Rightarrow> entries \<Rightarrow>
    (client_result \<times> entries) option" where
  "handle_client json_items now now' arrived outcomes data =
    (case recv arrived of
       None \<Rightarrow> Some (\<lparr>wire = [], complete = False, closed = True\<rparr>, data)
     | Some request \<Rightarrow>
        (case handle_request json_items now now' request data of (response, data) \<Rightarrow>
           (case send_loop outcomes response 0 of
              None \<Rightarrow> None
            | Some (w, fin) \<Rightarrow> Some (\<lparr>wire = w, complete = fin, closed = True\<rparr>, data))))"

text \<open>\<open>send\<close> as documented: it never sends more than it was given.\<close>

fun sends_ok :: "int list \<Rightarrow> nat \<Rightarrow> bool" where
  "sends_ok [] left = True"
| "sends_ok (sent # outcomes) left \<longleftrightarrow> sent \<le> int left \<and> (0 < sent \<longrightarrow> sends_ok outcomes (left - nat sent))"

lemma send_loop_prefix:
  assumes "sends_ok outcomes (length data - n0)" and "n0 \<le> length data"
    and "send_loop outcomes data n0 = Some (w, fin)"
  shows "(\<exists>n. w = take n (drop n0 data)) \<and> (fin \<longrightarrow> w = drop n0 data)"
  using assms
proof (induction outcomes data n0 arbitrary: w rule: send_loop.induct)
  case (1 data n0)
  then show ?case by (auto split: if_splits)
next
  case (2 sent outcomes data n0)
  show ?case
  proof (cases "n0 < length data \<and> 0 < sent")
    case True
    then obtain w' where w: "w = take (nat sent) (drop n0 data) @ w'"
      and rest: "send_loop outcomes data (n0 + nat sent) = Some (w', fin)"
      using "2.prems"(3) by (auto simp: not_le)
    have "nat sent \<le> length data - n0" using "2.prems"(1) by (simp add: nat_le_iff)
    then have "n0 + nat sent \<le> length data" using True by linarith
    moreover have "sends_ok outcomes (length data - (n0 + nat sent))"
      using "2.prems"(1) True by (simp add: diff_diff_eq)
    ultimately have "(\<exists>n. w' = take n (drop (n0 + nat sent) data)) \<and> (fin \<longrightarrow> w' = drop (n0 + nat sent) data)"
      using "2.IH" [of w'] True rest by simp
    moreover have "take (nat sent) (drop n0 data) @ take n (drop (n0 + nat sent) data) =
        take (nat sent + n) (drop n0 data)" for n
      by (simp add: take_add) (simp add: add.commute)
    moreover have "take (nat sent) (drop n0 data) @ drop (n0 + nat sent) data = drop n0 data"
      using append_take_drop_id [of "nat sent" "drop n0 data"] by (simp add: add.commute)
    ultimately show ?thesis unfolding w by auto
  next
    case False
    with "2.prems" show ?thesis by (auto split: if_splits intro: exI [of _ 0])
  qed
qed

text \<open>Each call sends at least a byte, so a loop of as many calls as there are bytes ends.\<close>

lemma send_loop_ends:
  "\<forall>sent \<in> set outcomes. 0 < sent \<Longrightarrow> length data \<le> n0 + length outcomes \<Longrightarrow>
    \<exists>w. send_loop outcomes data n0 = Some (w, True)"
proof (induction outcomes data n0 rule: send_loop.induct)
  case (2 sent outcomes data n0)
  have "1 \<le> nat sent" using "2.prems"(1) by (simp add: Suc_le_eq)
  then have "length data \<le> n0 + nat sent + length outcomes" using "2.prems"(2) by simp
  with 2 show ?case by fastforce
qed simp

text \<open>What is sent is a prefix of the response, which the cache does not change.\<close>

lemma client_result_prefix:
  assumes "handle_client json_items now now' arrived outcomes data = Some (res, data')"
    and "cache_sound data"
    and "sends_ok outcomes (length (respond json_items (take 4096 arrived)))"
  shows "closed res \<and> cache_sound data' \<and>
    (arrived \<noteq> [] \<longrightarrow> (\<exists>n. wire res = take n (respond json_items (take 4096 arrived))) \<and>
      (complete res \<longrightarrow> wire res = respond json_items (take 4096 arrived)))"
proof (cases "arrived = []")
  case True
  with assms show ?thesis by (auto simp: handle_client_def recv_def)
next
  case False
  let ?request = "take 4096 arrived"
  obtain response d where h: "handle_request json_items now now' ?request data = (response, d)" by fastforce
  with handle_request_respond [OF assms(2), of json_items now now' ?request]
  have r: "response = respond json_items ?request" "cache_sound d" by simp_all
  from assms(1) False h obtain w fin where loop: "send_loop outcomes response 0 = Some (w, fin)"
    and res: "res = \<lparr>wire = w, complete = fin, closed = True\<rparr>" "data' = d"
    by (auto simp: handle_client_def recv_def split: option.splits)
  from send_loop_prefix [OF _ _ loop] assms(3) r res show ?thesis by simp
qed

subsection \<open>The event loop\<close>

text \<open>
  \<open>handed\<close> are the clients given to the thread pool, in order. An \<open>fd_set\<close> of Winsock holds at most
  \<open>FD_SETSIZE\<close> sockets, and \<open>FD_SET\<close> on a full set does nothing.
\<close>

definition FD_SETSIZE :: nat where
  "FD_SETSIZE = 64"

definition FD_SET :: "int \<Rightarrow> int set \<Rightarrow> int set" where
  "FD_SET fd fds = (if card fds < FD_SETSIZE then insert fd fds else fds)"

record loop_state =
  master_set :: "int set"
  max_fd :: int
  handed :: "int list"

definition loop_init :: "int \<Rightarrow> loop_state" where
  "loop_init listen_fd = \<lparr>master_set = FD_SET listen_fd {}, max_fd = listen_fd, handed = []\<rparr>"

text \<open>What the loop does for a descriptor in \<open>read_set\<close>; \<open>accepted\<close> is what \<open>accept\<close> returns.\<close>

definition serve_fd :: "int \<Rightarrow> int \<Rightarrow> int \<Rightarrow> loop_state \<Rightarrow> loop_state" where
  "serve_fd listen_fd accepted i st =
    (if i = listen_fd then
       if accepted \<noteq> -1
       then st\<lparr>master_set := FD_SET accepted (master_set st),
               max_fd := (if accepted > max_fd st then accepted else max_fd st)\<rparr>
       else st
     else st\<lparr>master_set := master_set st - {i}, handed := handed st @ [i]\<rparr>)"

function scan :: "int \<Rightarrow> int \<Rightarrow> int set \<Rightarrow> int \<Rightarrow> loop_state \<Rightarrow> loop_state" where
  "scan listen_fd accepted read_set i st =
    (if i \<le> max_fd st
     then scan listen_fd accepted read_set (i + 1)
            (if i \<in> read_set then serve_fd listen_fd accepted i st else st)
     else st)"
  by pat_completeness auto
termination
  by (relation "measure (\<lambda>(listen_fd, accepted, read_set, i, st). nat (max (max_fd st) accepted + 1 - i))")
    (auto simp: serve_fd_def)

declare scan.simps [simp del]

text \<open>
  One turn of \<open>while (true)\<close>: \<open>ready\<close> is \<open>None\<close> when \<open>select\<close> failed, then the cache is not cleaned up.
\<close>

definition turn :: "int \<Rightarrow> int set option \<Rightarrow> int \<Rightarrow> time \<Rightarrow> loop_state \<times> entries \<Rightarrow> loop_state \<times> entries" where
  "turn listen_fd ready accepted now s =
    (case ready of
       None \<Rightarrow> s
     | Some read_set \<Rightarrow> (scan listen_fd accepted read_set 0 (fst s), cache_cleanup now (snd s)))"

definition loop_inv :: "int \<Rightarrow> loop_state \<Rightarrow> bool" where
  "loop_inv listen_fd st \<longleftrightarrow> 0 \<le> listen_fd \<and> listen_fd \<in> master_set st \<and>
     finite (master_set st) \<and> card (master_set st) \<le> FD_SETSIZE \<and>
     (\<forall>fd \<in> master_set st. 0 \<le> fd \<and> fd \<le> max_fd st)"

lemma loop_inv_init: "0 \<le> listen_fd \<Longrightarrow> loop_inv listen_fd (loop_init listen_fd)"
  by (simp add: loop_inv_def loop_init_def FD_SET_def FD_SETSIZE_def)

text \<open>
  A turn accepts when the listening socket is ready and \<open>accept\<close> succeeds; there is room for the client
  when the set is not full once the ready clients below the listening socket have left it.
\<close>

definition accepts_client :: "int \<Rightarrow> int \<Rightarrow> int set \<Rightarrow> int \<Rightarrow> bool" where
  "accepts_client listen_fd accepted read_set i \<longleftrightarrow> listen_fd \<in> read_set \<and> i \<le> listen_fd \<and> accepted \<noteq> -1"

definition room_for :: "int \<Rightarrow> int set \<Rightarrow> int \<Rightarrow> loop_state \<Rightarrow> bool" where
  "room_for listen_fd read_set i st \<longleftrightarrow>
     card (master_set st - {fd \<in> read_set. i \<le> fd \<and> fd < listen_fd}) < FD_SETSIZE"

text \<open>The clients a scan from \<open>i\<close> on hands over: the ready ones, in ascending order.\<close>

definition ready_from :: "int \<Rightarrow> int set \<Rightarrow> int \<Rightarrow> int \<Rightarrow> int list" where
  "ready_from listen_fd read_set i m = filter (\<lambda>fd. fd \<in> read_set \<and> fd \<noteq> listen_fd) [i..m]"

lemma ready_from_step:
  "i \<le> m \<Longrightarrow> ready_from listen_fd read_set i m =
    (if i \<in> read_set \<and> i \<noteq> listen_fd then [i] else []) @ ready_from listen_fd read_set (i + 1) m"
  by (simp add: ready_from_def upto_rec1)

lemma scan_spec:
  assumes "\<forall>fd \<in> read_set. fd \<le> max_fd st" and "accepted \<notin> read_set" and "max_fd st \<le> m" and "accepted \<le> m"
  shows "scan listen_fd accepted read_set i st =
    st\<lparr>master_set := (master_set st - {fd \<in> read_set. i \<le> fd \<and> fd \<noteq> listen_fd}) \<union>
         (if accepts_client listen_fd accepted read_set i \<and> room_for listen_fd read_set i st
          then {accepted} else {}),
       max_fd := (if accepts_client listen_fd accepted read_set i then max (max_fd st) accepted else max_fd st),
       handed := handed st @ ready_from listen_fd read_set i m\<rparr>"
  using assms
proof (induction listen_fd accepted read_set i st rule: scan.induct)
  case (1 listen_fd accepted read_set i st)
  show ?case
  proof (cases "i \<le> max_fd st")
    case False
    then have gone: "fd < i" if "fd \<in> read_set" for fd
      using "1.prems"(1) that by fastforce
    then have none: "ready_from listen_fd read_set i m = []" "{fd \<in> read_set. i \<le> fd \<and> fd \<noteq> listen_fd} = {}"
      "accepts_client listen_fd accepted read_set i = False"
      by (force simp: ready_from_def filter_empty_conv accepts_client_def)+
    have stays: "scan listen_fd accepted read_set i st = st" using False by (subst scan.simps) simp
    show ?thesis unfolding stays none by simp
  next
    case True
    let ?st = "if i \<in> read_set then serve_fd listen_fd accepted i st else st"
    have "\<forall>fd \<in> read_set. fd \<le> max_fd ?st" "max_fd ?st \<le> m"
      using "1.prems" by (auto simp: serve_fd_def)
    note IH = "1.IH" [OF True this(1) "1.prems"(2) this(2) "1.prems"(4)]
    have split: "{fd \<in> read_set. i \<le> fd \<and> fd \<noteq> listen_fd} =
        {fd \<in> read_set. i + 1 \<le> fd \<and> fd \<noteq> listen_fd} \<union> (if i \<in> read_set \<and> i \<noteq> listen_fd then {i} else {})"
      by (auto simp: add1_zle_eq order_less_le)
    have step: "i \<le> m" using True "1.prems"(3) by simp
    have unfold: "scan listen_fd accepted read_set i st = scan listen_fd accepted read_set (i + 1) ?st"
      using True by (subst scan.simps) simp
    have next_fd: "i + 1 \<le> fd \<longleftrightarrow> i \<le> fd \<and> fd \<noteq> i" for fd by linarith
    consider "i \<notin> read_set" | "i \<in> read_set" "i = listen_fd" "accepted = -1"
      | "i \<in> read_set" "i = listen_fd" "accepted \<noteq> -1" | "i \<in> read_set" "i \<noteq> listen_fd" by blast
    then show ?thesis
    proof cases
      case 1
      then have st: "?st = st" by simp
      have "{fd \<in> read_set. i + 1 \<le> fd \<and> fd < listen_fd} = {fd \<in> read_set. i \<le> fd \<and> fd < listen_fd}"
        using 1 by (auto simp: next_fd)
      then have same: "room_for listen_fd read_set (i + 1) st = room_for listen_fd read_set i st"
        "accepts_client listen_fd accepted read_set (i + 1) = accepts_client listen_fd accepted read_set i"
        using 1 by (auto simp: room_for_def accepts_client_def next_fd)
      show ?thesis unfolding unfold split IH ready_from_step [OF step] unfolding st same using 1 by simp
    next
      case 2
      then show ?thesis unfolding unfold split IH ready_from_step [OF step]
        by (simp add: serve_fd_def accepts_client_def)
    next
      case 3
      have none_below: "{fd \<in> read_set. listen_fd \<le> fd \<and> fd < listen_fd} = {}" by auto
      have acc: "accepts_client listen_fd accepted read_set (i + 1) = False"
        "accepts_client listen_fd accepted read_set i = True"
        "room_for listen_fd read_set i st = (card (master_set st) < FD_SETSIZE)"
        using 3 unfolding accepts_client_def room_for_def 3(2) none_below by simp_all
      have ins: "insert accepted (master_set st) - {fd \<in> read_set. i + 1 \<le> fd \<and> fd \<noteq> listen_fd} =
          insert accepted (master_set st - {fd \<in> read_set. i + 1 \<le> fd \<and> fd \<noteq> listen_fd})"
        using "1.prems"(2) by (simp add: insert_Diff_if)
      from 3 have st: "?st = st\<lparr>master_set := FD_SET accepted (master_set st), max_fd := max (max_fd st) accepted\<rparr>"
        by (simp add: serve_fd_def max_def)
      show ?thesis unfolding unfold split IH ready_from_step [OF step] unfolding st acc
        using 3 ins by (simp add: FD_SET_def)
    next
      case 4
      then have st: "?st = st\<lparr>master_set := master_set st - {i}, handed := handed st @ [i]\<rparr>"
        by (simp add: serve_fd_def)
      have "master_set st - {i} - {fd \<in> read_set. i + 1 \<le> fd \<and> fd < listen_fd} =
          master_set st - {fd \<in> read_set. i \<le> fd \<and> fd < listen_fd}" if "i < listen_fd"
        using 4 that by (auto simp: next_fd)
      then have same: "accepts_client listen_fd accepted read_set (i + 1) \<and> room_for listen_fd read_set (i + 1) ?st \<longleftrightarrow>
          accepts_client listen_fd accepted read_set i \<and> room_for listen_fd read_set i st"
        "accepts_client listen_fd accepted read_set (i + 1) = accepts_client listen_fd accepted read_set i"
        using 4 unfolding st by (auto simp: accepts_client_def room_for_def next_fd)
      have "master_set st - {i} - A = master_set st - (A \<union> {i})" for A by auto
      then show ?thesis
        using 4 unfolding unfold split IH ready_from_step [OF step] same(1) unfolding same(2) st by simp
    qed
  qed
qed

text \<open>
  A scan hands every ready client over once and stops watching it, keeps watching the others and the
  listening socket, and adds the accepted client if there is room.
\<close>

lemma scan_effect:
  assumes inv: "loop_inv listen_fd st" and ready: "ready \<subseteq> master_set st"
    and acc: "accepted = -1 \<or> 0 \<le> accepted \<and> accepted \<notin> master_set st"
  defines "st' \<equiv> scan listen_fd accepted ready 0 st"
  shows "\<exists>hs. handed st' = handed st @ hs \<and> distinct hs \<and> set hs = ready - {listen_fd}"
    and "master_set st' = (master_set st - (ready - {listen_fd})) \<union>
      (if listen_fd \<in> ready \<and> accepted \<noteq> -1 \<and> room_for listen_fd ready 0 st then {accepted} else {})"
    and "loop_inv listen_fd st'"
proof -
  let ?m = "max (max_fd st) accepted"
  let ?left = "master_set st - (ready - {listen_fd})"
  let ?new = "if listen_fd \<in> ready \<and> accepted \<noteq> -1 \<and> room_for listen_fd ready 0 st then {accepted} else {}"
  have bounds: "\<forall>fd \<in> ready. 0 \<le> fd \<and> fd \<le> max_fd st"
    using inv ready by (auto simp: loop_inv_def)
  have fresh: "accepted \<notin> ready" using acc ready bounds by auto
  have hs: "set (ready_from listen_fd ready 0 ?m) = ready - {listen_fd}" "distinct (ready_from listen_fd ready 0 ?m)"
    using bounds by (auto simp: ready_from_def)
  have l: "0 \<le> listen_fd" using inv by (simp add: loop_inv_def)
  then have accepts: "accepts_client listen_fd accepted ready 0 \<longleftrightarrow> listen_fd \<in> ready \<and> accepted \<noteq> -1"
    by (simp add: accepts_client_def)
  have "{fd \<in> ready. 0 \<le> fd \<and> fd \<noteq> listen_fd} = ready - {listen_fd}" using bounds by auto
  then have scan: "st' = st\<lparr>master_set := ?left \<union> ?new,
       max_fd := (if listen_fd \<in> ready \<and> accepted \<noteq> -1 then ?m else max_fd st),
       handed := handed st @ ready_from listen_fd ready 0 ?m\<rparr>"
    using scan_spec [of ready st accepted ?m listen_fd 0] bounds fresh by (simp add: st'_def accepts conj_assoc)
  then show "\<exists>hs. handed st' = handed st @ hs \<and> distinct hs \<and> set hs = ready - {listen_fd}"
    and "master_set st' = ?left \<union> ?new" using hs by auto
  have "card (?left \<union> ?new) \<le> FD_SETSIZE"
  proof (cases "room_for listen_fd ready 0 st")
    case True
    have "?left \<subseteq> master_set st - {fd \<in> ready. 0 \<le> fd \<and> fd < listen_fd}" by auto
    then have "card ?left < FD_SETSIZE"
      using True inv card_mono [of "master_set st - {fd \<in> ready. 0 \<le> fd \<and> fd < listen_fd}" ?left]
      by (simp add: room_for_def loop_inv_def)
    moreover have "card (?left \<union> ?new) \<le> card ?left + 1"
      using card_Un_le [of ?left ?new] by (rule order_trans) simp
    ultimately show ?thesis by simp
  next
    case False
    then show ?thesis using inv card_mono [of "master_set st" ?left] by (simp add: loop_inv_def)
  qed
  with scan inv acc show "loop_inv listen_fd st'" by (auto simp: loop_inv_def)
qed

text \<open>A whole turn.\<close>

lemma turn_spec:
  assumes "loop_inv listen_fd st" and "ready \<subseteq> master_set st"
    and "accepted = -1 \<or> 0 \<le> accepted \<and> accepted \<notin> master_set st"
  shows "\<exists>st'. fst (turn listen_fd (Some ready) accepted now (st, data)) = st' \<and> loop_inv listen_fd st' \<and>
    set (handed st') = set (handed st) \<union> (ready - {listen_fd}) \<and>
    length (handed st') = length (handed st) + card (ready - {listen_fd}) \<and>
    master_set st' = (master_set st - (ready - {listen_fd})) \<union>
      (if listen_fd \<in> ready \<and> accepted \<noteq> -1 \<and> room_for listen_fd ready 0 st then {accepted} else {})"
proof -
  note effect = scan_effect [OF assms]
  obtain hs where hs: "handed (scan listen_fd accepted ready 0 st) = handed st @ hs" "distinct hs"
    "set hs = ready - {listen_fd}" using effect(1) by blast
  then have "card (ready - {listen_fd}) = length hs" by (metis distinct_card)
  with hs effect(2,3) show ?thesis by (simp add: turn_def)
qed

subsection \<open>Properties\<close>

text \<open>
  C30: whatever the calls of \<open>send\<close> return, a client that is handled receives a prefix of the response to
  the first 4096 bytes it sent, and all of it when the loop runs to its end; its socket is closed.
\<close>

theorem client_receives_prefix:
  assumes "handle_client json_items now now' arrived outcomes data = Some (res, data')"
    and "cache_sound data" and "sends_ok outcomes (length (respond json_items (take 4096 arrived)))"
  shows "closed res \<and> cache_sound data' \<and>
    (arrived \<noteq> [] \<longrightarrow> (\<exists>n. wire res = take n (respond json_items (take 4096 arrived))) \<and>
      (complete res \<longrightarrow> wire res = respond json_items (take 4096 arrived)))"
  using client_result_prefix [OF assms] .

theorem client_receives_prefix_witness:
  "\<exists>res data'. handle_client (\<lambda>b. None) 0 0 get_main [40, 0] [] = Some (res, data') \<and> closed res \<and>
     (\<exists>n. wire res = take n (respond (\<lambda>b. None) (take 4096 get_main)))"
proof -
  have "handle_client (\<lambda>b. None) 0 0 get_main [40, 0] [] \<noteq> None" by code_simp
  then obtain res data' where h: "handle_client (\<lambda>b. None) 0 0 get_main [40, 0] [] = Some (res, data')" by auto
  have "sends_ok [40, 0] (length (respond (\<lambda>b. None) (take 4096 get_main)))" by code_simp
  moreover have "cache_sound []" by (simp add: cache_sound_def entries_satisfy_def distinct_keys_def)
  moreover have "get_main \<noteq> []" by (simp add: get_main_def)
  ultimately show ?thesis using client_receives_prefix [OF h] h by blast
qed

text \<open>
  C31: one turn of the event loop hands every ready client to the thread pool exactly once and stops
  watching it, keeps watching the listening socket and every client that was not ready, and starts
  watching the client it accepted if the set has room; a client accepted into a full set is neither
  watched nor handed over. At most 64 descriptors are watched, none beyond the range the loop scans.
\<close>

theorem turn_serves_ready:
  assumes "loop_inv listen_fd st" and "ready \<subseteq> master_set st"
    and "accepted = -1 \<or> 0 \<le> accepted \<and> accepted \<notin> master_set st"
  shows "\<exists>st'. fst (turn listen_fd (Some ready) accepted now (st, data)) = st' \<and> loop_inv listen_fd st' \<and>
    set (handed st') = set (handed st) \<union> (ready - {listen_fd}) \<and>
    length (handed st') = length (handed st) + card (ready - {listen_fd}) \<and>
    master_set st' = (master_set st - (ready - {listen_fd})) \<union>
      (if listen_fd \<in> ready \<and> accepted \<noteq> -1 \<and> room_for listen_fd ready 0 st then {accepted} else {})"
  using turn_spec [OF assms] .

theorem turn_serves_ready_witness:
  "\<exists>st'. fst (turn 3 (Some {3, 5}) 7 0 (\<lparr>master_set = {3, 4, 5}, max_fd = 5, handed = []\<rparr>, [])) = st' \<and>
    loop_inv 3 st' \<and> set (handed st') = {5} \<and> master_set st' = {3, 4, 7}"
proof -
  have "room_for 3 {3, 5} 0 \<lparr>master_set = {3, 4, 5}, max_fd = 5, handed = []\<rparr>"
    unfolding room_for_def FD_SETSIZE_def
    by (rule le_less_trans [OF card_mono [of "{3, 4, 5}"]]) auto
  moreover have "({3, 4, 5} - ({3, 5} - {3})) \<union> {7} = {3, 4, 7 :: int}" "{3, 5} - {3} = {5 :: int}" by auto
  ultimately show ?thesis
    using turn_serves_ready [of 3 "\<lparr>master_set = {3, 4, 5}, max_fd = 5, handed = []\<rparr>" "{3, 5}" 7 0 "[]"]
    by (simp add: loop_inv_def FD_SETSIZE_def card_insert_if)
qed

end
