(* ===== verification/Thread_Pool.thy ===== *)
theory Thread_Pool
  imports Prelude Step_Systems
begin

text \<open>
  \<open>HTTP-server-cpp/include/thread_pool.h\<close> and \<open>src/thread_pool.cpp\<close>: a pool of workers over one queue,
  one mutex and one condition variable, as a step relation. A step is what one thread does between two
  points at which another may run: taking the mutex, the test of the \<open>wait\<close> predicate, going to sleep
  (which releases the mutex), leaving the critical section, running a job. A thread asleep wakes when it
  is notified, or spuriously; a notification finds only threads that sleep already.
\<close>

subsection \<open>State and steps\<close>

text \<open>
  Where a worker stands: before \<open>unique_lock\<close>, holding the mutex before the predicate, holding it with
  the predicate found false, asleep, running a job, returned.
\<close>

datatype 'j worker = Outside | Testing | Falling_Asleep | Asleep | Running 'j | Returned

datatype owner = Free | Held nat

text \<open>The destructor: not called, \<open>stop\<close> set, \<open>notify_all\<close> done, all threads joined.\<close>

datatype dtor = Alive | Stopped | Notified | Joined

text \<open>
  \<open>signals\<close> are the \<open>notify_one\<close> calls that \<open>enqueue\<close> has still to make; \<open>enqueued\<close> and \<open>started\<close> are the
  jobs pushed and popped so far, in order.
\<close>

record 'j pool =
  workers :: "'j worker list"
  jobs :: "'j list"
  mtx :: owner
  stop :: bool
  signals :: nat
  dtor :: dtor
  enqueued :: "'j list"
  started :: "'j list"

definition ThreadPool_new :: "nat \<Rightarrow> 'j pool" where
  "ThreadPool_new n = \<lparr>workers = replicate n Outside, jobs = [], mtx = Free, stop = False, signals = 0,
     dtor = Alive, enqueued = [], started = []\<rparr>"

definition goes :: "nat \<Rightarrow> 'j worker \<Rightarrow> 'j pool \<Rightarrow> 'j pool" where
  "goes i w p = p\<lparr>workers := (workers p)[i := w]\<rparr>"

definition wake_all :: "'j pool \<Rightarrow> 'j pool" where
  "wake_all p = p\<lparr>workers := map (\<lambda>w. case w of Asleep \<Rightarrow> Outside | _ \<Rightarrow> w) (workers p)\<rparr>"

text \<open>The predicate of \<open>cv.wait\<close>, and what a worker does that has found it true.\<close>

definition may_go :: "'j pool \<Rightarrow> bool" where
  "may_go p \<longleftrightarrow> stop p \<or> jobs p \<noteq> []"

definition take_job :: "nat \<Rightarrow> 'j pool \<Rightarrow> 'j pool" where
  "take_job i p =
    (case jobs p of
       [] \<Rightarrow> goes i Returned (p\<lparr>mtx := Free\<rparr>)
     | j # js \<Rightarrow> goes i (Running j) (p\<lparr>mtx := Free, jobs := js, started := started p @ [j]\<rparr>))"

text \<open>The critical section of \<open>enqueue\<close>; its \<open>notify_one\<close> comes after it and is still to be made.\<close>

definition enqueue :: "'j \<Rightarrow> 'j pool \<Rightarrow> 'j pool" where
  [simp]: "enqueue j p = p\<lparr>jobs := jobs p @ [j], enqueued := enqueued p @ [j], signals := Suc (signals p)\<rparr>"

inductive pool_step :: "'j pool \<Rightarrow> 'j pool \<Rightarrow> bool" where
  lock: "i < length (workers p) \<Longrightarrow> workers p ! i = Outside \<Longrightarrow> mtx p = Free \<Longrightarrow>
    pool_step p (goes i Testing (p\<lparr>mtx := Held i\<rparr>))"
| test_true: "i < length (workers p) \<Longrightarrow> workers p ! i = Testing \<Longrightarrow> may_go p \<Longrightarrow> pool_step p (take_job i p)"
| test_false: "i < length (workers p) \<Longrightarrow> workers p ! i = Testing \<Longrightarrow> \<not> may_go p \<Longrightarrow>
    pool_step p (goes i Falling_Asleep p)"
| sleep: "i < length (workers p) \<Longrightarrow> workers p ! i = Falling_Asleep \<Longrightarrow>
    pool_step p (goes i Asleep (p\<lparr>mtx := Free\<rparr>))"
| finish: "i < length (workers p) \<Longrightarrow> workers p ! i = Running j \<Longrightarrow> pool_step p (goes i Outside p)"
| enqueue: "dtor p = Alive \<Longrightarrow> mtx p = Free \<Longrightarrow> pool_step p (enqueue j p)"
| notify_one: "0 < signals p \<Longrightarrow> i < length (workers p) \<Longrightarrow> workers p ! i = Asleep \<Longrightarrow>
    pool_step p (goes i Outside (p\<lparr>signals := signals p - 1\<rparr>))"
| notify_none: "0 < signals p \<Longrightarrow> Asleep \<notin> set (workers p) \<Longrightarrow> pool_step p (p\<lparr>signals := signals p - 1\<rparr>)"
| spurious: "i < length (workers p) \<Longrightarrow> workers p ! i = Asleep \<Longrightarrow> pool_step p (goes i Outside p)"
| stop: "dtor p = Alive \<Longrightarrow> mtx p = Free \<Longrightarrow> pool_step p (p\<lparr>stop := True, dtor := Stopped\<rparr>)"
| notify_all: "dtor p = Stopped \<Longrightarrow> pool_step p (wake_all (p\<lparr>dtor := Notified\<rparr>))"
| join: "dtor p = Notified \<Longrightarrow> \<forall>w \<in> set (workers p). w = Returned \<Longrightarrow> pool_step p (p\<lparr>dtor := Joined\<rparr>)"

inductive_cases pool_stepE: "pool_step p p'"

inductive pool_reach :: "nat \<Rightarrow> 'j pool \<Rightarrow> bool" for n where
  start: "pool_reach n (ThreadPool_new n)"
| step: "pool_reach n p \<Longrightarrow> pool_step p p' \<Longrightarrow> pool_reach n p'"

subsection \<open>The invariant\<close>

text \<open>
  The mutex is held by exactly the worker that stands inside; a worker falls asleep only over an empty
  queue of a pool that is not stopped; a job in the queue has a worker awake or a notification on its
  way; jobs leave the queue in the order they came.
\<close>

definition inside :: "'j worker \<Rightarrow> bool" where
  "inside w \<longleftrightarrow> w = Testing \<or> w = Falling_Asleep"

definition awake :: "'j worker \<Rightarrow> bool" where
  "awake w \<longleftrightarrow> w = Outside \<or> w = Testing \<or> (\<exists>j. w = Running j)"

definition mutex_inv :: "'j pool \<Rightarrow> bool" where
  "mutex_inv p \<longleftrightarrow> (\<forall>i < length (workers p). inside (workers p ! i) \<longleftrightarrow> mtx p = Held i) \<and>
     (\<forall>i. mtx p = Held i \<longrightarrow> i < length (workers p))"

definition sleep_inv :: "'j pool \<Rightarrow> bool" where
  "sleep_inv p \<longleftrightarrow> (\<forall>i < length (workers p). workers p ! i = Falling_Asleep \<longrightarrow> jobs p = [] \<and> \<not> stop p) \<and>
     (jobs p \<noteq> [] \<and> workers p \<noteq> [] \<longrightarrow> 0 < signals p \<or> (\<exists>i < length (workers p). awake (workers p ! i)))"

definition stop_inv :: "'j pool \<Rightarrow> bool" where
  "stop_inv p \<longleftrightarrow> (stop p \<longleftrightarrow> dtor p \<noteq> Alive) \<and>
     (\<forall>i < length (workers p). workers p ! i = Returned \<longrightarrow> stop p \<and> jobs p = []) \<and>
     (dtor p = Notified \<or> dtor p = Joined \<longrightarrow> (\<forall>i < length (workers p). workers p ! i \<noteq> Asleep)) \<and>
     (dtor p = Joined \<longrightarrow> (\<forall>i < length (workers p). workers p ! i = Returned))"

definition pool_inv :: "'j pool \<Rightarrow> bool" where
  "pool_inv p \<longleftrightarrow> mutex_inv p \<and> sleep_inv p \<and> stop_inv p \<and> enqueued p = started p @ jobs p"

lemmas pool_defs = goes_def inside_def awake_def may_go_def take_job_def wake_all_def

lemma pool_inv_new: "pool_inv (ThreadPool_new n)"
  by (auto simp: pool_inv_def mutex_inv_def sleep_inv_def stop_inv_def ThreadPool_new_def inside_def)

lemma mutex_inv_step: "mutex_inv p \<Longrightarrow> pool_step p p' \<Longrightarrow> mutex_inv p'"
  by (erule pool_stepE)
    (auto simp: mutex_inv_def pool_defs nth_list_update split: list.splits if_splits worker.splits,
      (metis owner.inject)+)

lemma inside_alone:
  "mutex_inv p \<Longrightarrow> i < length (workers p) \<Longrightarrow> k < length (workers p) \<Longrightarrow> inside (workers p ! i) \<Longrightarrow>
    inside (workers p ! k) \<Longrightarrow> i = k"
  unfolding mutex_inv_def by (metis owner.inject)

lemma free_inside: "mutex_inv p \<Longrightarrow> mtx p = Free \<Longrightarrow> i < length (workers p) \<Longrightarrow> \<not> inside (workers p ! i)"
  by (simp add: mutex_inv_def)

text \<open>A worker that is awake can serve the queue; one that moves leaves the others where they are.\<close>

definition served :: "'j pool \<Rightarrow> bool" where
  "served p \<longleftrightarrow> 0 < signals p \<or> (\<exists>i < length (workers p). awake (workers p ! i))"

lemma served_goes: "i < length (workers p) \<Longrightarrow> awake w \<Longrightarrow> served (goes i w p)"
  unfolding served_def goes_def by (intro disjI2 exI [of _ i]) simp

lemma sleep_inv_step:
  assumes "mutex_inv p" and "sleep_inv p" and "pool_step p p'" and "stop_inv p"
  shows "sleep_inv p'"
  using assms(3)
proof (cases rule: pool_step.cases)
  case (lock i)
  then have "served p'" by (auto intro!: served_goes simp: awake_def)
  then show ?thesis using lock assms(2)
    by (auto simp: sleep_inv_def served_def goes_def nth_list_update)
next
  case (test_true i)
  show ?thesis
  proof (cases "jobs p")
    case Nil
    with test_true assms(2) show ?thesis
      by (auto simp: sleep_inv_def take_job_def goes_def nth_list_update)
  next
    case (Cons j js)
    with test_true have "served p'" by (auto intro!: served_goes simp: take_job_def awake_def)
    moreover have "workers p ! k \<noteq> Falling_Asleep" if "k < length (workers p)" for k
      using inside_alone [OF assms(1), of i k] test_true(2,3) that by (auto simp: inside_def)
    ultimately show ?thesis using test_true Cons assms(2)
      by (auto simp: sleep_inv_def served_def take_job_def goes_def nth_list_update)
  qed
next
  case (test_false i)
  then show ?thesis using assms(2)
    by (auto simp: sleep_inv_def may_go_def goes_def nth_list_update)
next
  case (sleep i)
  then show ?thesis using assms(2)
    by (auto simp: sleep_inv_def goes_def nth_list_update)
next
  case (finish i j)
  then have "served p'" by (auto intro!: served_goes simp: awake_def)
  then show ?thesis using finish assms(2)
    by (auto simp: sleep_inv_def served_def goes_def nth_list_update)
next
  case (enqueue j)
  then show ?thesis using assms(2) free_inside [OF assms(1)]
    by (auto simp: sleep_inv_def inside_def)
next
  case (notify_one i)
  then have "served p'" by (auto intro!: served_goes simp: awake_def)
  then show ?thesis using notify_one assms(2)
    by (auto simp: sleep_inv_def served_def goes_def nth_list_update)
next
  case (spurious i)
  then have "served p'" by (auto intro!: served_goes simp: awake_def)
  then show ?thesis using spurious assms(2)
    by (auto simp: sleep_inv_def served_def goes_def nth_list_update)
next
  case notify_none
  have "served p'" if "jobs p \<noteq> []" "workers p \<noteq> []"
  proof -
    have w: "0 < length (workers p)" using that by simp
    then have "workers p ! 0 \<noteq> Asleep" using notify_none(3) by (metis nth_mem)
    moreover have "workers p ! 0 \<noteq> Falling_Asleep" using assms(2) that w by (auto simp: sleep_inv_def)
    moreover have "workers p ! 0 \<noteq> Returned" using assms(4) that w by (auto simp: stop_inv_def)
    ultimately have "awake (workers p ! 0)" by (cases "workers p ! 0") (auto simp: awake_def)
    with w notify_none show ?thesis by (auto simp: served_def)
  qed
  then show ?thesis using notify_none assms(2)
    by (auto simp: sleep_inv_def served_def)
next
  case stop
  then show ?thesis using assms(2) free_inside [OF assms(1)]
    by (auto simp: sleep_inv_def inside_def)
next
  case notify_all
  have "awake (workers p ! i) \<Longrightarrow> awake (workers p' ! i)"
    "workers p' ! i = Falling_Asleep \<Longrightarrow> workers p ! i = Falling_Asleep" if "i < length (workers p)" for i
    using notify_all that by (auto simp: wake_all_def awake_def split: worker.splits)
  moreover have "length (workers p') = length (workers p)" "jobs p' = jobs p" "stop p' = stop p"
    "signals p' = signals p"
    using notify_all by (simp_all add: wake_all_def)
  moreover from this have "workers p' = [] \<longleftrightarrow> workers p = []" by auto
  ultimately show ?thesis using assms(2) unfolding sleep_inv_def by metis
next
  case join
  then show ?thesis using assms(2) by (auto simp: sleep_inv_def)
qed

lemma stop_inv_step:
  assumes "mutex_inv p" and "sleep_inv p" and "stop_inv p" and "pool_step p p'"
  shows "stop_inv p'"
  using assms(4)
proof (cases rule: pool_step.cases)
  case (test_true i)
  then show ?thesis using assms(3)
    by (auto simp: stop_inv_def take_job_def goes_def may_go_def nth_list_update split: list.splits)
next
  case (sleep i)
  then show ?thesis using assms(2,3)
    by (auto simp: stop_inv_def sleep_inv_def goes_def nth_list_update)
next
  case notify_all
  then show ?thesis using assms(3) by (auto simp: stop_inv_def wake_all_def split: worker.splits)
next
  case join
  then show ?thesis using assms(3) by (auto simp: stop_inv_def all_set_conv_all_nth)
next
  case (lock i)
  then show ?thesis using assms(3) by (auto simp: stop_inv_def goes_def nth_list_update)
next
  case (test_false i)
  then show ?thesis using assms(3) by (auto simp: stop_inv_def goes_def nth_list_update may_go_def)
next
  case (finish i j)
  then show ?thesis using assms(3) by (auto simp: stop_inv_def goes_def nth_list_update)
next
  case (notify_one i)
  then show ?thesis using assms(3) by (auto simp: stop_inv_def goes_def nth_list_update)
next
  case (spurious i)
  then show ?thesis using assms(3) by (auto simp: stop_inv_def goes_def nth_list_update)
qed (use assms(3) in \<open>auto simp: stop_inv_def\<close>)


lemma fifo_step: "enqueued p = started p @ jobs p \<Longrightarrow> pool_step p p' \<Longrightarrow> enqueued p' = started p' @ jobs p'"
  by (erule pool_stepE) (auto simp: goes_def take_job_def wake_all_def split: list.splits)

lemma pool_inv_step: "pool_inv p \<Longrightarrow> pool_step p p' \<Longrightarrow> pool_inv p'"
  unfolding pool_inv_def using mutex_inv_step sleep_inv_step stop_inv_step fifo_step by blast

lemma pool_reach_inv: "pool_reach n p \<Longrightarrow> pool_inv p \<and> length (workers p) = n"
proof (induction rule: pool_reach.induct)
  case start
  show ?case by (simp add: pool_inv_new) (simp add: ThreadPool_new_def)
next
  case (step p p')
  have "length (workers p') = length (workers p)"
    using step(2) by (rule pool_stepE) (simp_all add: goes_def take_job_def wake_all_def split: list.splits)
  with step pool_inv_step show ?case by auto
qed

subsection \<open>The destructor returns\<close>

text \<open>
  Once \<open>stop\<close> is set, every step brings the pool nearer to its end, and until the threads are joined
  there is a step.
\<close>

fun worker_weight :: "'j worker \<Rightarrow> nat" where
  "worker_weight Falling_Asleep = 6"
| "worker_weight Asleep = 5"
| "worker_weight Outside = 3"
| "worker_weight Testing = 2"
| "worker_weight (Running j) = 4"
| "worker_weight Returned = 0"

fun dtor_weight :: "dtor \<Rightarrow> nat" where
  "dtor_weight Alive = 3" | "dtor_weight Stopped = 2" | "dtor_weight Notified = 1" | "dtor_weight Joined = 0"

definition pool_weight :: "'j pool \<Rightarrow> nat" where
  "pool_weight p = sum_list (map worker_weight (workers p)) + 3 * length (jobs p) + signals p + dtor_weight (dtor p)"

lemma sum_list_move:
  "i < length ws \<Longrightarrow> sum_list (map f (ws[i := w])) + f (ws ! i) = sum_list (map f ws) + (f w :: nat)"
proof (induction ws arbitrary: i)
  case (Cons v ws)
  then show ?case by (cases i) (auto simp: algebra_simps)
qed simp

lemma wake_weight:
  "sum_list (map worker_weight (map (\<lambda>w. case w of Asleep \<Rightarrow> Outside | _ \<Rightarrow> w) ws)) \<le>
    sum_list (map worker_weight ws)"
  by (induction ws) (auto split: worker.splits)

lemma stopped_step_decreases:
  assumes "pool_inv p" and "stop p" and "pool_step p p'"
  shows "pool_weight p' < pool_weight p \<and> stop p'"
proof -
  note move = sum_list_move [where f = worker_weight and ws = "workers p"]
  have alive: "dtor p \<noteq> Alive" using assms(1,2) by (simp add: pool_inv_def stop_inv_def)
  show ?thesis using assms(3)
  proof (cases rule: pool_step.cases)
    case (lock i)
    with move [of i Testing] assms(2) show ?thesis by (simp add: pool_weight_def goes_def)
  next
    case (test_true i)
    show ?thesis
    proof (cases "jobs p")
      case Nil
      with move [of i Returned] test_true assms(2) show ?thesis
        by (simp add: pool_weight_def goes_def take_job_def)
    next
      case (Cons j js)
      with move [of i "Running j"] test_true assms(2) show ?thesis
        by (simp add: pool_weight_def goes_def take_job_def)
    qed
  next
    case (test_false i)
    with assms(2) show ?thesis by (simp add: may_go_def)
  next
    case (sleep i)
    with move [of i Asleep] assms(2) show ?thesis by (simp add: pool_weight_def goes_def)
  next
    case (finish i j)
    with move [of i Outside] assms(2) show ?thesis by (simp add: pool_weight_def goes_def)
  next
    case (notify_one i)
    with move [of i Outside] assms(2) show ?thesis by (simp add: pool_weight_def goes_def)
  next
    case (spurious i)
    with move [of i Outside] assms(2) show ?thesis by (simp add: pool_weight_def goes_def)
  next
    case notify_all
    with wake_weight [of "workers p"] assms(2) show ?thesis by (simp add: pool_weight_def wake_all_def)
  qed (use alive assms(2) in \<open>auto simp: pool_weight_def\<close>)
qed

lemma stopped_progress:
  assumes "pool_inv p" and "stop p" and "dtor p \<noteq> Joined"
  shows "\<exists>p'. pool_step p p'"
proof (cases "dtor p = Stopped")
  case True
  then show ?thesis by (blast intro: pool_step.notify_all)
next
  case False
  then have n: "dtor p = Notified" using assms by (cases "dtor p") (auto simp: pool_inv_def stop_inv_def)
  show ?thesis
  proof (cases "\<forall>w \<in> set (workers p). w = Returned")
    case True
    with n show ?thesis by (blast intro: pool_step.join)
  next
    case False
    then obtain i where i: "i < length (workers p)" "workers p ! i \<noteq> Returned"
      by (auto simp: in_set_conv_nth)
    have no_sleep: "workers p ! k \<noteq> Asleep" "workers p ! k \<noteq> Falling_Asleep" if "k < length (workers p)" for k
      using assms n that by (auto simp: pool_inv_def stop_inv_def sleep_inv_def)
    have go: "may_go p" using assms(2) by (simp add: may_go_def)
    show ?thesis
    proof (cases "workers p ! i")
      case Outside
      show ?thesis
      proof (cases "mtx p")
        case Free
        with i(1) Outside show ?thesis by (blast intro: pool_step.lock)
      next
        case (Held k)
        then have "k < length (workers p)" "inside (workers p ! k)"
          using assms(1) by (auto simp: pool_inv_def mutex_inv_def)
        then have "workers p ! k = Testing" using no_sleep by (auto simp: inside_def)
        with \<open>k < length (workers p)\<close> go show ?thesis by (blast intro: pool_step.test_true)
      qed
    qed (use i no_sleep [OF i(1)] go in \<open>auto intro: pool_step.test_true pool_step.finish\<close>)
  qed
qed

subsection \<open>Properties\<close>

definition waiting_pool :: "'j \<Rightarrow> 'j pool" where
  "waiting_pool j = (ThreadPool_new 1)\<lparr>jobs := [j], enqueued := [j], signals := 1\<rparr>"

lemma waiting_pool_reached: "pool_reach 1 (waiting_pool j)"
  using pool_reach.step [OF pool_reach.start pool_step.enqueue [of "ThreadPool_new 1" j]]
  by (simp add: waiting_pool_def ThreadPool_new_def)

interpretation closing: weighted_system pool_step "\<lambda>p. pool_inv p \<and> stop p" pool_weight
  by unfold_locales (auto dest: pool_inv_step stopped_step_decreases)

lemma joined_drained: "pool_inv p \<Longrightarrow> dtor p = Joined \<Longrightarrow> workers p \<noteq> [] \<Longrightarrow> jobs p = [] \<and> started p = enqueued p"
  by (auto simp: pool_inv_def stop_inv_def)

lemma pool_step_workers: "pool_step p p' \<Longrightarrow> length (workers p') = length (workers p)"
  by (erule pool_stepE) (simp_all add: goes_def take_job_def wake_all_def split: list.splits)

interpretation sized: step_system pool_step "\<lambda>p. length (workers p) = n" for n
  by unfold_locales (simp add: pool_step_workers)

text \<open>The pool with a job, whose destructor has set \<open>stop\<close>, and a run of it to the end.\<close>

definition closing_pool :: "'j \<Rightarrow> 'j pool" where
  "closing_pool j = (waiting_pool j)\<lparr>stop := True, dtor := Stopped\<rparr>"

lemma closing_pool_reached: "pool_reach 1 (closing_pool j)"
  using pool_reach.step [OF waiting_pool_reached pool_step.stop [of "waiting_pool j"]]
  by (simp add: closing_pool_def waiting_pool_def ThreadPool_new_def)

lemma closing_pool_run: "\<exists>k p'. (pool_step ^^ k) (closing_pool j) p' \<and> started p' = [j] \<and> (\<forall>q. \<not> pool_step p' q)"
proof -
  let ?p = "\<lambda>w js m sg d st. \<lparr>workers = [w], jobs = js, mtx = m, stop = True, signals = sg, dtor = d,
    enqueued = [j], started = st\<rparr>"
  have "pool_step (?p Outside [j] Free 1 Stopped []) (?p Outside [j] Free 1 Notified [])"
    using pool_step.notify_all [of "?p Outside [j] Free 1 Stopped []"] by (simp add: wake_all_def)
  then have 1: "(pool_step ^^ 1) (closing_pool j) (?p Outside [j] Free 1 Notified [])"
    by (simp add: closing_pool_def waiting_pool_def ThreadPool_new_def eq_OO)
  have "pool_step (?p Outside [j] Free 1 Notified []) (?p Outside [j] Free 0 Notified [])"
    using pool_step.notify_none [of "?p Outside [j] Free 1 Notified []"] by simp
  note 2 = relpowp_Suc_I [OF 1 this]
  have "pool_step (?p Outside [j] Free 0 Notified []) (?p Testing [j] (Held 0) 0 Notified [])"
    using pool_step.lock [of 0 "?p Outside [j] Free 0 Notified []"] by (simp add: goes_def)
  note 3 = relpowp_Suc_I [OF 2 this]
  have "pool_step (?p Testing [j] (Held 0) 0 Notified []) (?p (Running j) [] Free 0 Notified [j])"
    using pool_step.test_true [of 0 "?p Testing [j] (Held 0) 0 Notified []"]
    by (simp add: goes_def take_job_def may_go_def)
  note 4 = relpowp_Suc_I [OF 3 this]
  have "pool_step (?p (Running j) [] Free 0 Notified [j]) (?p Outside [] Free 0 Notified [j])"
    using pool_step.finish [of 0 "?p (Running j) [] Free 0 Notified [j]"] by (simp add: goes_def)
  note 5 = relpowp_Suc_I [OF 4 this]
  have "pool_step (?p Outside [] Free 0 Notified [j]) (?p Testing [] (Held 0) 0 Notified [j])"
    using pool_step.lock [of 0 "?p Outside [] Free 0 Notified [j]"] by (simp add: goes_def)
  note 6 = relpowp_Suc_I [OF 5 this]
  have "pool_step (?p Testing [] (Held 0) 0 Notified [j]) (?p Returned [] Free 0 Notified [j])"
    using pool_step.test_true [of 0 "?p Testing [] (Held 0) 0 Notified [j]"]
    by (simp add: goes_def take_job_def may_go_def)
  note 7 = relpowp_Suc_I [OF 6 this]
  have "pool_step (?p Returned [] Free 0 Notified [j]) (?p Returned [] Free 0 Joined [j])"
    using pool_step.join [of "?p Returned [] Free 0 Notified [j]"] by simp
  note 8 = relpowp_Suc_I [OF 7 this]
  have "\<not> pool_step (?p Returned [] Free 0 Joined [j]) q" for q
    by (auto elim!: pool_stepE)
  then have "started (?p Returned [] Free 0 Joined [j]) = [j] \<and> (\<forall>q. \<not> pool_step (?p Returned [] Free 0 Joined [j]) q)"
    by simp
  with 8 show ?thesis by blast
qed

text \<open>
  C32: once the destructor has set \<open>stop\<close>, every execution of a pool with a worker ends after at most
  \<open>pool_weight\<close> steps, and it can only end with the threads joined, the queue empty and every job that was
  enqueued started, in order: no job is dropped and the destructor cannot hang.
\<close>

theorem pool_shutdown:
  assumes "pool_reach n p" and "0 < n" and "stop p" and "(pool_step ^^ k) p p'"
  shows "k \<le> pool_weight p \<and>
    ((\<forall>q. \<not> pool_step p' q) \<longrightarrow> dtor p' = Joined \<and> jobs p' = [] \<and> started p' = enqueued p')"
proof -
  have inv: "pool_inv p" and n: "length (workers p) = n" using pool_reach_inv [OF assms(1)] by simp_all
  note run = closing.run_bounded [OF assms(4)] closing.run_inv [OF assms(4)]
  have "workers p' \<noteq> []" using sized.run_inv [OF assms(4) n] assms(2) by auto
  with run inv assms(3) stopped_progress [of p'] joined_drained [of p'] show ?thesis by auto
qed

theorem pool_shutdown_witness:
  "\<exists>k p'. (pool_step ^^ k) (closing_pool (7::nat)) p' \<and> k \<le> pool_weight (closing_pool (7::nat)) \<and>
    dtor p' = Joined \<and> jobs p' = [] \<and> started p' = enqueued p'"
proof -
  obtain k p' where run: "(pool_step ^^ k) (closing_pool (7::nat)) p'" "\<forall>q. \<not> pool_step p' q"
    using closing_pool_run [of "7::nat"] by blast
  have "stop (closing_pool (7::nat))" by (simp add: closing_pool_def)
  with pool_shutdown [OF closing_pool_reached _ this run(1)] run show ?thesis by auto
qed

text \<open>
  C33: no wake-up is lost: whenever a reachable pool with workers has a job in its queue, a worker is awake
  or a notification is on its way; and at most one worker is inside the critical section.
\<close>

theorem pool_no_lost_wakeup:
  assumes "pool_reach n p" and "0 < n"
  shows "(jobs p \<noteq> [] \<longrightarrow> 0 < signals p \<or> (\<exists>i < n. awake (workers p ! i))) \<and>
    (\<forall>i < n. \<forall>k < n. inside (workers p ! i) \<and> inside (workers p ! k) \<longrightarrow> i = k)"
proof -
  have inv: "pool_inv p" and n: "length (workers p) = n" using pool_reach_inv [OF assms(1)] by simp_all
  then have "mutex_inv p" and "sleep_inv p" by (simp_all add: pool_inv_def)
  with inside_alone [of p] n assms(2) show ?thesis by (auto simp: sleep_inv_def)
qed

theorem pool_no_lost_wakeup_witness:
  "jobs (waiting_pool (7::nat)) \<noteq> [] \<and>
    (0 < signals (waiting_pool (7::nat)) \<or> (\<exists>i < 1. awake (workers (waiting_pool (7::nat)) ! i)))"
  using pool_no_lost_wakeup [OF waiting_pool_reached [of "7::nat"]] by (simp add: waiting_pool_def)

end
