(* ===== verification/Http_System.thy ===== *)
theory Http_System
  imports Http_Server Thread_Pool "HOL-Library.Multiset"
begin

text \<open>
  The HTTP server of \<open>HTTP-server-cpp\<close> as a whole: the event loop of \<open>server.cpp\<close> hands clients to the thread
  pool of \<open>thread_pool.cpp\<close>, whose workers run \<open>handle_client\<close> over the one response cache, all at the same
  time. The steps are those of the parts, cut where another thread may run: the loop scans, pushes one
  client at a time and cleans the cache up; a worker that runs a client consults the cache and, when it
  has found nothing, stores the response later.
\<close>

subsection \<open>A request in two steps\<close>

text \<open>
  The two critical sections of \<open>handle_request\<close>: the lookup, which may give the answer, and what is done
  when it does not.
\<close>

definition look_up :: "time \<Rightarrow> string \<Rightarrow> entries \<Rightarrow> string option \<times> entries" where
  "look_up now raw data =
    (let (method, stream) = next_word raw in
     if method = ''GET'' then
       let (cached, data) = cache_get now (fst (next_word stream)) data in
       (if cached \<noteq> not_found then Some cached else None, data)
     else (None, data))"

definition make_answer ::
  "(string \<Rightarrow> (string \<times> string) list option) \<Rightarrow> time \<Rightarrow> string \<Rightarrow> entries \<Rightarrow> string \<times> entries" where
  "make_answer json_items now raw data =
    (let (method, stream) = next_word raw; path = fst (next_word stream) in
     if method = ''GET'' then (get_response path, cache_put now path (get_response path) 60 data)
     else if method = ''POST'' then (post_response json_items raw, data)
     else (not_implemented, data))"

lemma handle_request_split:
  "handle_request json_items now now' raw data =
    (case look_up now raw data of
       (Some r, data) \<Rightarrow> (r, data)
     | (None, data) \<Rightarrow> make_answer json_items now' raw data)"
  by (auto simp: handle_request_def look_up_def make_answer_def Let_def not_found_def split: prod.splits)

lemma look_up_sound:
  assumes "cache_sound data" and "look_up now raw data = (found, data')"
  shows "cache_sound data'" "found = Some r \<Longrightarrow> r = respond json_items raw"
proof -
  obtain verb rest where w: "next_word raw = (verb, rest)" by fastforce
  let ?path = "fst (next_word rest)"
  have law: "(fst (cache_get now ?path data) = not_found \<or> fst (cache_get now ?path data) = get_response ?path) \<and>
      cache_sound (snd (cache_get now ?path data))"
    using responses.lookup_law [of "\<lambda>path v. v = get_response path" data now ?path] assms(1)
    by (simp add: cache_sound_def)
  with assms w show "cache_sound data'" "found = Some r \<Longrightarrow> r = respond json_items raw"
    by (auto simp: look_up_def respond_def Let_def split: prod.splits if_splits)
qed

lemma make_answer_sound:
  assumes "cache_sound data"
  shows "fst (make_answer json_items now raw data) = respond json_items raw"
    "cache_sound (snd (make_answer json_items now raw data))"
  using assms responses.store_law [of "\<lambda>path v. v = get_response path" data]
  by (auto simp: make_answer_def respond_def cache_sound_def Let_def split: prod.splits)

subsection \<open>The server\<close>

text \<open>
  \<open>scanning\<close> tells that the event loop is between its scan and its clean-up; \<open>pending\<close> are the requests whose
  lookup has found nothing, by worker. The last three fields record what has happened: the clients
  \<open>accept\<close> returned, those among them that \<open>FD_SET\<close> did not add to the set, and the clients handled so far
  with their requests and what they received.
\<close>

record server =
  loop :: loop_state
  pool :: "int pool"
  data :: entries
  scanning :: bool
  pending :: "nat \<Rightarrow> string option"
  taken :: "int list"
  unwatched :: "int list"
  answered :: "(int \<times> string \<times> client_result) list"

text \<open>\<open>Server::Server\<close> with its pool of four threads, and the start of \<open>event_loop\<close>.\<close>

definition Server_new :: "int \<Rightarrow> server" where
  "Server_new listen_fd =
    \<lparr>loop = loop_init listen_fd, pool = ThreadPool_new 4, data = [], scanning = False, pending = (\<lambda>i. None),
     taken = [], unwatched = [], answered = []\<rparr>"

text \<open>A worker answers its client: the response is sent, the socket closed, and the worker is free again.\<close>

definition answer :: "nat \<Rightarrow> int \<Rightarrow> string \<Rightarrow> client_result \<Rightarrow> server \<Rightarrow> server" where
  "answer i fd raw res s =
    s\<lparr>pool := goes i Outside (pool s), pending := (pending s)(i := None), answered := answered s @ [(fd, raw, res)]\<rparr>"

definition sent_result :: "string \<Rightarrow> int list \<Rightarrow> client_result option" where
  "sent_result response outcomes =
    map_option (\<lambda>(w, fin). \<lparr>wire = w, complete = fin, closed = True\<rparr>) (send_loop outcomes response 0)"

text \<open>
  \<open>runs\<close>: worker \<open>i\<close> runs the client \<open>fd\<close>. \<open>inner_step\<close>: a step of the pool that ends no job, pushes none and is
  no spurious wake-up.
\<close>

definition runs :: "nat \<Rightarrow> int \<Rightarrow> server \<Rightarrow> bool" where
  "runs i fd s \<longleftrightarrow> i < length (workers (pool s)) \<and> workers (pool s) ! i = Running fd"

definition inner_step :: "int pool \<Rightarrow> int pool \<Rightarrow> bool" where
  "inner_step p p' \<longleftrightarrow> pool_step p p' \<and> enqueued p' = enqueued p \<and> stop p' = stop p \<and>
     (\<forall>i < length (workers p). \<forall>fd. workers p ! i = Running fd \<longrightarrow> workers p' ! i = Running fd) \<and>
     (\<forall>i < length (workers p). workers p ! i = Asleep \<and> workers p' ! i \<noteq> Asleep \<longrightarrow> signals p' < signals p)"

text \<open>The steps of the workers, and those of the event loop.\<close>

inductive worker_step :: "(string \<Rightarrow> (string \<times> string) list option) \<Rightarrow> server \<Rightarrow> server \<Rightarrow> bool" for json_items where
  move: "inner_step (pool s) p' \<Longrightarrow> worker_step json_items s (s\<lparr>pool := p'\<rparr>)"
| hang_up: "runs i fd s \<Longrightarrow> pending s i = None \<Longrightarrow> recv arrived = None \<Longrightarrow>
    worker_step json_items s (answer i fd [] \<lparr>wire = [], complete = False, closed = True\<rparr> s)"
| found: "runs i fd s \<Longrightarrow> pending s i = None \<Longrightarrow> recv arrived = Some raw \<Longrightarrow>
    look_up now raw (data s) = (Some response, data') \<Longrightarrow> sends_ok outcomes (length response) \<Longrightarrow>
    sent_result response outcomes = Some res \<Longrightarrow>
    worker_step json_items s (answer i fd raw res (s\<lparr>data := data'\<rparr>))"
| missed: "runs i fd s \<Longrightarrow> pending s i = None \<Longrightarrow> recv arrived = Some raw \<Longrightarrow>
    look_up now raw (data s) = (None, data') \<Longrightarrow>
    worker_step json_items s (s\<lparr>data := data', pending := (pending s)(i \<mapsto> raw)\<rparr>)"
| made: "runs i fd s \<Longrightarrow> pending s i = Some raw \<Longrightarrow>
    make_answer json_items now raw (data s) = (response, data') \<Longrightarrow> sends_ok outcomes (length response) \<Longrightarrow>
    sent_result response outcomes = Some res \<Longrightarrow>
    worker_step json_items s (answer i fd raw res (s\<lparr>data := data'\<rparr>))"

inductive server_step ::
  "(string \<Rightarrow> (string \<times> string) list option) \<Rightarrow> int \<Rightarrow> server \<Rightarrow> server \<Rightarrow> bool" for json_items listen_fd where
  scan: "\<not> scanning s \<Longrightarrow> ready \<subseteq> master_set (loop s) \<Longrightarrow>
    accepted = -1 \<or> 0 \<le> accepted \<and> accepted \<notin> master_set (loop s) \<Longrightarrow>
    server_step json_items listen_fd s
      (let st = scan listen_fd accepted ready 0 (loop s);
           new = (if listen_fd \<in> ready \<and> accepted \<noteq> -1 then [accepted] else [])
       in s\<lparr>loop := st, scanning := True, taken := taken s @ new,
            unwatched := unwatched s @ filter (\<lambda>fd. fd \<notin> master_set st) new\<rparr>)"
| push: "handed (loop s) = enqueued (pool s) @ fd # rest \<Longrightarrow> mtx (pool s) = Free \<Longrightarrow>
    server_step json_items listen_fd s (s\<lparr>pool := enqueue fd (pool s)\<rparr>)"
| clean: "scanning s \<Longrightarrow> handed (loop s) = enqueued (pool s) \<Longrightarrow>
    server_step json_items listen_fd s (s\<lparr>data := cache_cleanup now (data s), scanning := False\<rparr>)"
| spurious: "i < length (workers (pool s)) \<Longrightarrow> workers (pool s) ! i = Asleep \<Longrightarrow>
    server_step json_items listen_fd s (s\<lparr>pool := goes i Outside (pool s)\<rparr>)"
| work: "worker_step json_items s s' \<Longrightarrow> server_step json_items listen_fd s s'"

inductive server_reach ::
  "(string \<Rightarrow> (string \<times> string) list option) \<Rightarrow> int \<Rightarrow> server \<Rightarrow> bool" for json_items listen_fd where
  start: "server_reach json_items listen_fd (Server_new listen_fd)"
| step: "server_reach json_items listen_fd s \<Longrightarrow> server_step json_items listen_fd s s' \<Longrightarrow>
    server_reach json_items listen_fd s'"

subsection \<open>No client is lost or answered twice\<close>

fun client_of :: "int worker \<Rightarrow> int multiset" where
  "client_of (Running fd) = {#fd#}"
| "client_of w = {#}"

definition running :: "int pool \<Rightarrow> int multiset" where
  "running p = sum_list (map client_of (workers p))"

text \<open>What a client may have received for its request; one that sent nothing receives nothing.\<close>

definition good_answer :: "(string \<Rightarrow> (string \<times> string) list option) \<Rightarrow> string \<Rightarrow> client_result \<Rightarrow> bool" where
  "good_answer json_items raw res \<longleftrightarrow> closed res \<and>
    (if raw = [] then wire res = []
     else (\<exists>n. wire res = take n (respond json_items raw)) \<and> (complete res \<longrightarrow> wire res = respond json_items raw))"

definition server_inv :: "(string \<Rightarrow> (string \<times> string) list option) \<Rightarrow> int \<Rightarrow> server \<Rightarrow> bool" where
  "server_inv json_items listen_fd s \<longleftrightarrow>
     loop_inv listen_fd (loop s) \<and> pool_reach 4 (pool s) \<and> \<not> stop (pool s) \<and> cache_sound (data s) \<and>
     (\<exists>rest. handed (loop s) = enqueued (pool s) @ rest \<and> (\<not> scanning s \<longrightarrow> rest = [])) \<and>
     mset (map fst (answered s)) + running (pool s) = mset (started (pool s)) \<and>
     mset (handed (loop s)) + mset_set (master_set (loop s) - {listen_fd}) + mset (unwatched s) = mset (taken s) \<and>
     (unwatched s = [] \<or> FD_SETSIZE \<le> length (taken s)) \<and>
     (\<forall>i raw. pending s i = Some raw \<longrightarrow> raw \<noteq> []) \<and>
     (\<forall>(fd, raw, res) \<in> set (answered s). good_answer json_items raw res)"

lemma running_goes:
  assumes "i < length (workers p)"
  shows "running (goes i w p) + client_of (workers p ! i) = running p + client_of w"
proof -
  have "workers p = take i (workers p) @ workers p ! i # drop (Suc i) (workers p)"
    using assms by (rule id_take_nth_drop)
  then obtain xs y ys where ws: "workers p = xs @ y # ys" "length xs = i" "workers p ! i = y"
    using assms by (metis length_take less_or_eq_imp_le min.absorb2)
  then have "workers (goes i w p) = xs @ w # ys" by (auto simp: goes_def)
  with ws show ?thesis by (simp add: running_def ac_simps)
qed

lemma inner_running:
  assumes "inner_step p p'"
  shows "running p' + mset (started p) = running p + mset (started p')"
proof -
  from assms have "pool_step p p'" by (simp add: inner_step_def)
  then show ?thesis
  proof (cases rule: pool_step.cases)
    case (test_true i)
    then show ?thesis
      using running_goes [of i p Returned] running_goes [of i p "Running (hd (jobs p))"]
      by (auto simp: take_job_def goes_def running_def split: list.splits)
  next
    case (finish i j)
    then show ?thesis using assms by (auto simp: inner_step_def goes_def)
  next
    case notify_all
    have "client_of (case w of Asleep \<Rightarrow> Outside | _ \<Rightarrow> w) = client_of w" for w by (cases w) simp_all
    then show ?thesis using notify_all by (simp add: running_def wake_all_def comp_def)
  next
    case (lock i)
    then show ?thesis using running_goes [of i p Testing] by (simp add: running_def goes_def)
  next
    case (test_false i)
    then show ?thesis using running_goes [of i p Falling_Asleep] by (simp add: running_def goes_def)
  next
    case (sleep i)
    then show ?thesis using running_goes [of i p Asleep] by (simp add: running_def goes_def)
  next
    case (notify_one i)
    then show ?thesis using running_goes [of i p Outside] by (simp add: running_def goes_def)
  next
    case (spurious i)
    then show ?thesis using running_goes [of i p Outside] by (simp add: running_def goes_def)
  qed (use assms in \<open>simp_all add: inner_step_def running_def\<close>)
qed

lemma sent_result_good:
  assumes "sent_result response outcomes = Some res" and "sends_ok outcomes (length response)"
    and "response = respond json_items raw" and "raw \<noteq> []"
  shows "good_answer json_items raw res"
  using assms send_loop_prefix [of outcomes response 0] by (auto simp: sent_result_def good_answer_def)

lemma answer_inv:
  assumes inv: "server_inv json_items listen_fd s" and run: "runs i fd s" and good: "good_answer json_items raw res"
    and data: "cache_sound d"
  shows "server_inv json_items listen_fd (answer i fd raw res (s\<lparr>data := d\<rparr>))"
proof -
  have i: "i < length (workers (pool s))" "workers (pool s) ! i = Running fd" using run by (simp_all add: runs_def)
  have "pool_reach 4 (goes i Outside (pool s))"
    using inv pool_step.finish [OF i] by (auto simp: server_inv_def intro: pool_reach.step)
  moreover have "running (pool s) = add_mset fd (running (goes i Outside (pool s)))"
    using running_goes [OF i(1), of Outside] i(2) by simp
  then have "mset (map fst (answered s)) + add_mset fd (running (goes i Outside (pool s))) = mset (started (pool s))"
    using inv by (simp add: server_inv_def)
  ultimately show ?thesis
    using inv good data by (auto simp: server_inv_def answer_def goes_def)
qed

lemma mset_leaving:
  assumes "finite M" and "R \<subseteq> M" and "N \<subseteq> {a}" and "a \<notin> M"
  shows "mset_set R + mset_set ((M - R) \<union> N) = mset_set M + mset_set N"
proof -
  have N: "finite N" using assms(3) by (auto intro: finite_subset)
  have "mset_set ((M - R) \<union> N) = mset_set (M - R) + mset_set N"
    using assms N by (intro mset_set_Union) auto
  moreover have "mset_set R + mset_set (M - R) = mset_set M"
    using assms by (metis finite_Diff finite_subset Diff_disjoint Diff_partition mset_set_Union)
  ultimately show ?thesis by (simp add: add.assoc)
qed

text \<open>A scan accounts for the client it accepts, and ignores it only when the set is full.\<close>

lemma scan_account:
  assumes inv: "loop_inv l st" and ready: "ready \<subseteq> master_set st"
    and acc: "accepted = -1 \<or> 0 \<le> accepted \<and> accepted \<notin> master_set st"
  defines "st' \<equiv> scan l accepted ready 0 st" and "new \<equiv> if l \<in> ready \<and> accepted \<noteq> -1 then [accepted] else []"
  shows "mset (handed st') + mset_set (master_set st' - {l}) + mset (filter (\<lambda>fd. fd \<notin> master_set st') new) =
      mset (handed st) + mset_set (master_set st - {l}) + mset new"
    and "filter (\<lambda>fd. fd \<notin> master_set st') new \<noteq> [] \<Longrightarrow> card (master_set st) = FD_SETSIZE"
proof -
  let ?M = "master_set st - {l}" and ?R = "ready - {l}"
  let ?N = "if l \<in> ready \<and> accepted \<noteq> -1 \<and> room_for l ready 0 st then {accepted} else {}"
  note effect = scan_effect [OF inv ready acc, folded st'_def]
  obtain hs where hs: "handed st' = handed st @ hs" "distinct hs" "set hs = ?R" using effect(1) by blast
  have l: "l \<in> master_set st" using inv by (simp add: loop_inv_def)
  then have N: "?N \<subseteq> {accepted}" "?N - {l} = ?N" using acc by auto
  have M: "accepted \<notin> ?M" "finite ?M" "?R \<subseteq> ?M" using acc inv ready by (auto simp: loop_inv_def)
  have "mset hs = mset_set ?R" using hs(2,3) by (metis mset_set_set)
  moreover have "master_set st' - {l} = (?M - ?R) \<union> ?N"
    unfolding effect(2) Un_Diff N(2) by blast
  moreover have "mset_set ?R + mset_set ((?M - ?R) \<union> ?N) = mset_set ?M + mset_set ?N"
    by (rule mset_leaving [OF M(2,3) N(1) M(1)])
  ultimately have moved: "mset hs + mset_set (master_set st' - {l}) = mset_set ?M + mset_set ?N" by simp
  have watched: "accepted \<in> master_set st' \<longleftrightarrow> ?N \<noteq> {}" if "accepted \<noteq> -1"
    unfolding effect(2) using acc that by auto
  then have "mset_set ?N + mset (filter (\<lambda>fd. fd \<notin> master_set st') new) = mset new"
    by (auto simp: new_def)
  with moved show "mset (handed st') + mset_set (master_set st' - {l}) + mset (filter (\<lambda>fd. fd \<notin> master_set st') new) =
      mset (handed st) + mset_set ?M + mset new"
    unfolding hs(1) mset_append by (metis add.assoc)
  assume "filter (\<lambda>fd. fd \<notin> master_set st') new \<noteq> []"
  then have "\<not> room_for l ready 0 st" using watched by (auto simp: new_def split: if_splits)
  then have "FD_SETSIZE \<le> card (master_set st - {fd \<in> ready. 0 \<le> fd \<and> fd < l})" by (simp add: room_for_def)
  also have "\<dots> \<le> card (master_set st)" using inv by (intro card_mono) (auto simp: loop_inv_def)
  finally show "card (master_set st) = FD_SETSIZE" using inv by (simp add: loop_inv_def)
qed

lemma scan_inv:
  assumes inv: "server_inv json_items l s" and idle: "\<not> scanning s" and ready: "ready \<subseteq> master_set (loop s)"
    and acc: "accepted = -1 \<or> 0 \<le> accepted \<and> accepted \<notin> master_set (loop s)"
  defines "st \<equiv> scan l accepted ready 0 (loop s)" and "new \<equiv> if l \<in> ready \<and> accepted \<noteq> -1 then [accepted] else []"
  shows "server_inv json_items l
    (s\<lparr>loop := st, scanning := True, taken := taken s @ new,
       unwatched := unwatched s @ filter (\<lambda>fd. fd \<notin> master_set st) new\<rparr>)"
proof -
  let ?lost = "filter (\<lambda>fd. fd \<notin> master_set st) new" and ?M = "master_set (loop s) - {l}"
  have li: "loop_inv l (loop s)" and whole: "handed (loop s) = enqueued (pool s)"
    and all: "mset (handed (loop s)) + mset_set ?M + mset (unwatched s) = mset (taken s)"
    and few: "unwatched s = [] \<or> FD_SETSIZE \<le> length (taken s)"
    using inv idle by (auto simp: server_inv_def)
  note effect = scan_effect [OF li ready acc, folded st_def]
    and account = scan_account [OF li ready acc, folded st_def new_def]
  obtain hs where hs: "handed st = handed (loop s) @ hs" using effect(1) by blast
  have "mset (handed st) + mset_set (master_set st - {l}) + mset (unwatched s @ ?lost) =
      (mset (handed st) + mset_set (master_set st - {l}) + mset ?lost) + mset (unwatched s)"
    by simp
  also have "\<dots> = mset (taken s @ new)" unfolding account(1) mset_append all [symmetric] by simp
  finally have sum: "mset (handed st) + mset_set (master_set st - {l}) + mset (unwatched s @ ?lost) = mset (taken s @ new)" .
  have "FD_SETSIZE \<le> length (taken s @ new)" if "?lost \<noteq> []"
  proof -
    have "l \<in> master_set (loop s)" "finite (master_set (loop s))" using li by (simp_all add: loop_inv_def)
    then have "card ?M = FD_SETSIZE - 1" using account(2) [OF that] by simp
    moreover have "card ?M \<le> length (taken s)" using arg_cong [OF all, of size] by simp
    moreover have "new \<noteq> []" using that by auto
    ultimately show ?thesis by (cases new) (simp_all add: FD_SETSIZE_def)
  qed
  with few have "unwatched s @ ?lost = [] \<or> FD_SETSIZE \<le> length (taken s @ new)" by auto
  with inv hs effect(3) whole sum show ?thesis by (simp add: server_inv_def)
qed

lemma worker_inv_step:
  assumes inv: "server_inv json_items listen_fd s" and step: "worker_step json_items s s'"
  shows "server_inv json_items listen_fd s'"
  using step
proof (cases rule: worker_step.cases)
  case (move p')
  then have "pool_step (pool s) p'" "enqueued p' = enqueued (pool s)" "stop p' = stop (pool s)"
    by (simp_all add: inner_step_def)
  moreover have "mset (map fst (answered s)) + running p' = mset (started p')"
  proof -
    have "mset (map fst (answered s)) + running p' + mset (started (pool s)) =
        (mset (map fst (answered s)) + running (pool s)) + mset (started p')"
      by (simp only: add.assoc inner_running [OF move(2)])
    also have "\<dots> = mset (started p') + mset (started (pool s))"
      using inv by (simp only: server_inv_def add.commute)
    finally show ?thesis by (simp only: add_right_cancel)
  qed
  ultimately show ?thesis using move inv by (auto simp: server_inv_def intro: pool_reach.step)
next
  case (hang_up i fd arrived)
  have "good_answer json_items [] \<lparr>wire = [], complete = False, closed = True\<rparr>" by (simp add: good_answer_def)
  from answer_inv [OF inv hang_up(2) this, of "data s"] inv hang_up show ?thesis
    by (simp add: server_inv_def)
next
  case (found i fd arrived raw now response data' outcomes res)
  have raw: "raw \<noteq> []" using found(4) by (auto simp: recv_def split: if_splits)
  have "cache_sound (data s)" using inv by (simp add: server_inv_def)
  note sound = look_up_sound [OF this found(5)]
  from answer_inv [OF inv found(2) sent_result_good [OF found(7,6) _ raw] sound(1)] sound(2) found show ?thesis
    by simp
next
  case (missed i fd arrived raw now data')
  have raw: "raw \<noteq> []" using missed(4) by (auto simp: recv_def split: if_splits)
  have "cache_sound (data s)" using inv by (simp add: server_inv_def)
  note sound = look_up_sound [OF this missed(5)]
  with inv missed raw show ?thesis by (simp add: server_inv_def)
next
  case (made i fd raw now response data' outcomes res)
  have raw: "raw \<noteq> []" and "cache_sound (data s)" using inv made(3) by (auto simp: server_inv_def)
  from make_answer_sound [OF this(2), of json_items now raw] made(4)
  have "response = respond json_items raw" "cache_sound data'" by simp_all
  from answer_inv [OF inv made(2) sent_result_good [OF made(6,5) this(1) raw] this(2)] made show ?thesis
    by simp
qed

lemma server_inv_step:
  assumes inv: "server_inv json_items listen_fd s" and step: "server_step json_items listen_fd s s'"
  shows "server_inv json_items listen_fd s'"
  using step
proof (cases rule: server_step.cases)
  case (scan ready accepted)
  show ?thesis unfolding scan(1) Let_def by (rule scan_inv [OF inv scan(2-4)])
next
  case (push fd rest)
  have "dtor (pool s) = Alive"
    using inv pool_reach_inv [of 4 "pool s"] by (auto simp: server_inv_def pool_inv_def stop_inv_def)
  from pool_step.enqueue [OF this push(3), of fd] inv push show ?thesis
    by (auto simp: server_inv_def running_def intro: pool_reach.step)
next
  case (clean now)
  then show ?thesis using inv responses.tidy_law
    by (auto simp: server_inv_def cache_sound_def)
next
  case (spurious i)
  then have "running (goes i Outside (pool s)) = running (pool s)"
    using running_goes [of i "pool s" Outside] by simp
  moreover have "pool_reach 4 (goes i Outside (pool s))"
    using inv pool_step.spurious [OF spurious(2,3)] by (auto simp: server_inv_def intro: pool_reach.step)
  ultimately show ?thesis using inv spurious by (simp add: server_inv_def goes_def)
next
  case work
  with inv show ?thesis by (rule worker_inv_step)
qed

lemma server_reach_inv:
  assumes "server_reach json_items listen_fd s" and "0 \<le> listen_fd"
  shows "server_inv json_items listen_fd s"
  using assms
proof (induction rule: server_reach.induct)
  case start
  have "pool_reach 4 (ThreadPool_new 4 :: int pool)" by (rule pool_reach.start)
  moreover have "running (ThreadPool_new 4) = {#}"
    by (simp add: running_def ThreadPool_new_def numeral_eq_Suc)
  moreover have "cache_sound []" by (simp add: cache_sound_def entries_satisfy_def distinct_keys_def)
  ultimately show ?case
    using loop_inv_init [OF start]
    by (simp add: server_inv_def Server_new_def loop_init_def ThreadPool_new_def FD_SET_def FD_SETSIZE_def)
qed (auto intro: server_inv_step)

subsection \<open>The workers answer what they are given\<close>

text \<open>
  What is left to do for the workers: each of their steps takes something of it, and while there is a
  client in the queue or a worker runs one, there is a step.
\<close>

fun left_for :: "string option \<Rightarrow> int worker \<Rightarrow> nat" where
  "left_for w Asleep = 0"
| "left_for w Falling_Asleep = 1"
| "left_for w Testing = 2"
| "left_for w Outside = 3"
| "left_for w (Running fd) = (if w = None then 5 else 4)"
| "left_for w Returned = 0"

definition work_left :: "(nat \<Rightarrow> string option) \<Rightarrow> int pool \<Rightarrow> nat" where
  "work_left pend p = (\<Sum>i < length (workers p). left_for (pend i) (workers p ! i)) + 4 * length (jobs p) + 4 * signals p"

lemma work_left_goes:
  assumes "i < length (workers p)" and "\<And>j. j \<noteq> i \<Longrightarrow> pend' j = pend j"
  shows "work_left pend' (goes i w p) + left_for (pend i) (workers p ! i) = work_left pend p + left_for (pend' i) w"
proof -
  let ?f = "\<lambda>j. left_for (pend j) (workers p ! j)" and ?g = "\<lambda>j. left_for (pend' j) ((workers p)[i := w] ! j)"
  let ?n = "length (workers p)"
  have "sum ?g {..<?n} = ?g i + sum ?g ({..<?n} - {i})" "sum ?f {..<?n} = ?f i + sum ?f ({..<?n} - {i})"
    using assms(1) by (simp_all add: sum.remove)
  moreover have "sum ?g ({..<?n} - {i}) = sum ?f ({..<?n} - {i})"
    using assms by (intro sum.cong) auto
  ultimately show ?thesis using assms(1) by (simp add: work_left_def goes_def)
qed

lemma inner_decreases:
  assumes "inner_step p p'" and "\<not> stop p" and "dtor p = Alive"
  shows "work_left pend p' < work_left pend p"
proof -
  have stays: "work_left pend (goes i w q) + left_for (pend i) (workers q ! i) = work_left pend q + left_for (pend i) w"
    if "i < length (workers q)" for i w q
    by (rule work_left_goes [OF that refl])
  from assms(1) have "pool_step p p'" by (simp add: inner_step_def)
  then show ?thesis
  proof (cases rule: pool_step.cases)
    case (lock i)
    then show ?thesis using stays [of i p Testing] by (simp add: work_left_def goes_def)
  next
    case (test_true i)
    then obtain j js where js: "jobs p = j # js" using assms(2) by (auto simp: may_go_def neq_Nil_conv)
    have "left_for (pend i) (Running j) \<le> 5" by simp
    then show ?thesis using test_true js stays [of i p "Running j"]
      by (simp add: work_left_def goes_def take_job_def)
  next
    case (test_false i)
    then show ?thesis using stays [of i p Falling_Asleep] by (simp add: work_left_def goes_def)
  next
    case (sleep i)
    then show ?thesis using stays [of i p Asleep] by (simp add: work_left_def goes_def)
  next
    case (finish i j)
    then show ?thesis using assms(1) by (auto simp: inner_step_def goes_def)
  next
    case (notify_one i)
    then show ?thesis using stays [of i p Outside] by (simp add: work_left_def goes_def)
  next
    case (spurious i)
    then show ?thesis using assms(1) by (auto simp: inner_step_def goes_def)
  next
    case notify_none
    then show ?thesis by (simp add: work_left_def)
  qed (use assms in \<open>simp_all add: inner_step_def\<close>)
qed

lemma alive: "server_inv json_items listen_fd s \<Longrightarrow> pool_inv (pool s) \<and> dtor (pool s) = Alive \<and> length (workers (pool s)) = 4"
  using pool_reach_inv [of 4 "pool s"] by (auto simp: server_inv_def pool_inv_def stop_inv_def)

lemma worker_decreases:
  assumes "server_inv json_items listen_fd s" and "worker_step json_items s s'"
  shows "work_left (pending s') (pool s') < work_left (pending s) (pool s)"
proof -
  have ends: "work_left ((pending s)(i := None)) (goes i Outside (pool s)) < work_left (pending s) (pool s)"
    if "runs i fd s" for i fd
    using that work_left_goes [of i "pool s" "(pending s)(i := None)" "pending s" Outside] by (simp add: runs_def split: if_splits)
  from assms(2) show ?thesis
  proof (cases rule: worker_step.cases)
    case (move p')
    then show ?thesis using alive [OF assms(1)] assms(1) inner_decreases [OF move(2)] by (simp add: server_inv_def)
  next
    case (missed i fd arrived raw now data')
    have same: "goes i (Running fd) (pool s) = pool s" using missed(2) by (simp add: runs_def goes_def list_update_same_conv)
    show ?thesis
      using missed work_left_goes [of i "pool s" "(pending s)(i \<mapsto> raw)" "pending s" "Running fd"]
      by (simp add: same runs_def)
  qed (use ends in \<open>auto simp: answer_def\<close>)
qed

lemma inner_step_exists:
  assumes inv: "pool_inv p" and alive: "\<not> stop p" and idle: "\<And>i fd. i < length (workers p) \<Longrightarrow> workers p ! i \<noteq> Running fd"
    and work: "jobs p \<noteq> []" "workers p \<noteq> []"
  shows "\<exists>p'. inner_step p p'"
proof -
  have inner: "inner_step p p'" if "pool_step p p'" "enqueued p' = enqueued p" "stop p' = stop p"
      "\<forall>i < length (workers p). workers p ! i = Asleep \<and> workers p' ! i \<noteq> Asleep \<longrightarrow> signals p' < signals p" for p'
    using that idle by (auto simp: inner_step_def)
  have mut: "mutex_inv p" and sl: "sleep_inv p" using inv by (simp_all add: pool_inv_def)
  have inside_moves: "\<exists>p'. inner_step p p'" if i: "i < length (workers p)" "inside (workers p ! i)" for i
  proof -
    from i(2) consider "workers p ! i = Testing" | "workers p ! i = Falling_Asleep" by (auto simp: inside_def)
    then show ?thesis
    proof cases
      case 1
      have "inner_step p (take_job i p)"
        using pool_step.test_true [OF i(1) 1] work 1 i(1)
        by (intro inner) (auto simp: may_go_def take_job_def goes_def nth_list_update split: list.splits)
      then show ?thesis by blast
    next
      case 2
      have "inner_step p (goes i Asleep (p\<lparr>mtx := Free\<rparr>))"
        using pool_step.sleep [OF i(1) 2] 2 i(1) by (intro inner) (auto simp: goes_def nth_list_update)
      then show ?thesis by blast
    qed
  qed
  from sl work consider "0 < signals p" | i where "i < length (workers p)" "awake (workers p ! i)"
    by (auto simp: sleep_inv_def)
  then show ?thesis
  proof cases
    case 1
    show ?thesis
    proof (cases "Asleep \<in> set (workers p)")
      case True
      then obtain i where i: "i < length (workers p)" "workers p ! i = Asleep" by (auto simp: in_set_conv_nth)
      have "inner_step p (goes i Outside (p\<lparr>signals := signals p - 1\<rparr>))"
        using pool_step.notify_one [OF 1 i] 1 by (intro inner) (auto simp: goes_def)
      then show ?thesis by blast
    next
      case False
      have "inner_step p (p\<lparr>signals := signals p - 1\<rparr>)"
        using pool_step.notify_none [OF 1 False] 1 by (intro inner) auto
      then show ?thesis by blast
    qed
  next
    case (2 i)
    then consider "workers p ! i = Outside" | "workers p ! i = Testing" using idle by (auto simp: awake_def)
    then show ?thesis
    proof cases
      case out: 1
      show ?thesis
      proof (cases "mtx p")
        case Free
        have "inner_step p (goes i Testing (p\<lparr>mtx := Held i\<rparr>))"
          using pool_step.lock [OF 2(1) out Free] out 2(1) by (intro inner) (auto simp: goes_def nth_list_update)
        then show ?thesis by blast
      next
        case (Held k)
        then have "k < length (workers p)" "inside (workers p ! k)" using mut by (auto simp: mutex_inv_def)
        then show ?thesis by (rule inside_moves)
      qed
    next
      case testing: 2
      then show ?thesis using inside_moves [OF 2(1)] by (simp add: inside_def)
    qed
  qed
qed

lemma worker_step_exists:
  assumes inv: "server_inv json_items listen_fd s" and work: "jobs (pool s) \<noteq> [] \<or> running (pool s) \<noteq> {#}"
  shows "\<exists>s'. worker_step json_items s s'"
proof (cases "\<exists>i fd. runs i fd s")
  case True
  then obtain i fd where run: "runs i fd s" by blast
  show ?thesis
  proof (cases "pending s i")
    case None
    have "recv [] = None" by (simp add: recv_def)
    from worker_step.hang_up [OF run None this] show ?thesis by blast
  next
    case (Some raw)
    obtain response data' where m: "make_answer json_items 0 raw (data s) = (response, data')" by fastforce
    have "sends_ok [int (length response)] (length response)" by simp
    moreover obtain res where "sent_result response [int (length response)] = Some res"
      by (cases "response = []") (simp_all add: sent_result_def)
    ultimately show ?thesis using worker_step.made [OF run Some m] by blast
  qed
next
  case False
  then have idle: "workers (pool s) ! i \<noteq> Running fd" if "i < length (workers (pool s))" for i fd
    using that by (auto simp: runs_def)
  have "client_of w = {#}" if "w \<in> set (workers (pool s))" for w
  proof -
    have "\<nexists>fd. w = Running fd" using that idle by (metis in_set_conv_nth)
    then show ?thesis by (cases w) simp_all
  qed
  then have "running (pool s) = {#}" by (simp add: running_def sum_list_0 cong: map_cong)
  with work have "jobs (pool s) \<noteq> []" by simp
  then have "\<exists>p'. inner_step (pool s) p'"
    using alive [OF inv] inv idle by (intro inner_step_exists) (auto simp: server_inv_def)
  then show ?thesis by (blast intro: worker_step.move)
qed

lemma worker_enqueued: "worker_step json_items s s' \<Longrightarrow> enqueued (pool s') = enqueued (pool s)"
  by (erule worker_step.cases) (auto simp: inner_step_def answer_def goes_def)

lemma worker_unwatched: "worker_step json_items s s' \<Longrightarrow> unwatched s' = unwatched s"
  by (erule worker_step.cases) (simp_all add: answer_def)

lemma step_unwatched:
  assumes "server_inv json_items listen_fd s" and "server_step json_items listen_fd s s'"
  shows "unwatched s' = unwatched s \<or> (\<exists>fd. unwatched s' = unwatched s @ [fd] \<and> taken s' = taken s @ [fd] \<and>
    card (master_set (loop s)) = FD_SETSIZE)"
  using assms(2)
proof (cases rule: server_step.cases)
  case (scan ready accepted)
  have "loop_inv listen_fd (loop s)" using assms(1) by (simp add: server_inv_def)
  note full = scan_account(2) [OF this scan(3,4)]
  show ?thesis
  proof (cases "unwatched s' = unwatched s")
    case False
    with scan full show ?thesis by (auto simp: Let_def split: if_splits)
  qed simp
qed (simp_all add: worker_unwatched)

interpretation draining: weighted_system "worker_step json_items" "server_inv json_items listen_fd"
    "\<lambda>s. work_left (pending s) (pool s)" for json_items listen_fd
  by unfold_locales (rule worker_inv_step worker_decreases; assumption)+

interpretation handed_over: step_system "worker_step json_items" "\<lambda>s. enqueued (pool s) = fds" for json_items fds
  by unfold_locales (simp add: worker_enqueued)

lemma idle_answered:
  assumes "server_inv json_items listen_fd s" and "\<And>t. \<not> worker_step json_items s t"
  shows "jobs (pool s) = [] \<and> mset (map fst (answered s)) = mset (enqueued (pool s))"
proof -
  have "jobs (pool s) = []" "running (pool s) = {#}" using worker_step_exists [OF assms(1)] assms(2) by blast+
  moreover have "enqueued (pool s) = started (pool s) @ jobs (pool s)"
    using alive [OF assms(1)] by (simp add: pool_inv_def)
  ultimately show ?thesis using assms(1) by (simp add: server_inv_def)
qed

lemma single_of_mset: "mset xs = mset [x] \<Longrightarrow> xs = [x]"
  by (cases xs) (auto simp: add_mset_eq_single)

lemma reach_work: "(worker_step json_items ^^ k) s s' \<Longrightarrow> server_reach json_items listen_fd s \<Longrightarrow> server_reach json_items listen_fd s'"
  by (induction k arbitrary: s') (auto intro: server_reach.step server_step.work)

subsection \<open>Properties\<close>

text \<open>
  C10: the workers answer every client they are given. Whatever the event loop has done before, the workers
  alone take at most \<open>work_left\<close> steps, spurious wake-ups apart, and when none of them can take one, the
  queue is empty and exactly the clients that were enqueued have been answered, each as often as it was
  enqueued.
\<close>

theorem server_drains:
  assumes "server_reach json_items listen_fd s" and "0 \<le> listen_fd" and "(worker_step json_items ^^ k) s s'"
  shows "k \<le> work_left (pending s) (pool s) \<and>
    ((\<forall>t. \<not> worker_step json_items s' t) \<longrightarrow>
      jobs (pool s') = [] \<and> mset (map fst (answered s')) = mset (enqueued (pool s)))"
proof -
  have inv: "server_inv json_items listen_fd s" by (rule server_reach_inv [OF assms(1,2)])
  have "enqueued (pool s') = enqueued (pool s)" by (rule handed_over.run_inv [OF assms(3) refl])
  with draining.run_bounded [OF assms(3) inv] idle_answered [OF draining.run_inv [OF assms(3) inv]]
  show ?thesis by auto
qed

text \<open>A server on socket 3 that has accepted the client 5 and handed it to the pool.\<close>

definition busy_server :: server where
  "busy_server = (Server_new 3)\<lparr>loop := \<lparr>master_set = {3}, max_fd = 5, handed = [5]\<rparr>,
     pool := (ThreadPool_new 4)\<lparr>jobs := [5], enqueued := [5], signals := 1\<rparr>, scanning := True, taken := [5]\<rparr>"

lemma scan_accept: "scan 3 5 {3} 0 (loop_init 3) = \<lparr>master_set = {3, 5}, max_fd = 5, handed = []\<rparr>"
  by (simp add: scan.simps serve_fd_def loop_init_def FD_SET_def FD_SETSIZE_def insert_commute)

lemma scan_hand_over: "scan 3 (-1) {5} 0 \<lparr>master_set = {3, 5}, max_fd = 5, handed = []\<rparr> =
    \<lparr>master_set = {3}, max_fd = 5, handed = [5]\<rparr>"
  by (simp add: scan.simps serve_fd_def) auto

lemma busy_server_reached: "server_reach json_items 3 busy_server"
proof -
  let ?s = "Server_new 3"
  have 1: "server_reach json_items 3 (?s\<lparr>loop := \<lparr>master_set = {3, 5}, max_fd = 5, handed = []\<rparr>, scanning := True, taken := [5]\<rparr>)"
    using server_reach.step [OF server_reach.start server_step.scan [of ?s "{3}" 5 json_items 3]] scan_accept
    by (simp add: Server_new_def loop_init_def FD_SET_def FD_SETSIZE_def)
  have 2: "server_reach json_items 3 (?s\<lparr>loop := \<lparr>master_set = {3, 5}, max_fd = 5, handed = []\<rparr>, taken := [5]\<rparr>)"
    using server_reach.step [OF 1 server_step.clean [of _ json_items 3 0]]
    by (simp add: Server_new_def ThreadPool_new_def)
  have 3: "server_reach json_items 3 (?s\<lparr>loop := \<lparr>master_set = {3}, max_fd = 5, handed = [5]\<rparr>, scanning := True, taken := [5]\<rparr>)"
    using server_reach.step [OF 2 server_step.scan [of _ "{5}" "-1" json_items 3]] scan_hand_over
    by (simp add: Server_new_def)
  show ?thesis
    using server_reach.step [OF 3 server_step.push [of _ 5 "[]" json_items 3]]
    by (simp add: Server_new_def ThreadPool_new_def busy_server_def)
qed

theorem server_drains_witness:
  "\<exists>k s'. (worker_step (\<lambda>b. None) ^^ k) busy_server s' \<and> k \<le> work_left (pending busy_server) (pool busy_server) \<and>
    map fst (answered s') = [5]"
proof -
  have reach: "server_reach (\<lambda>b. None) 3 busy_server" by (rule busy_server_reached)
  have "server_inv (\<lambda>b. None) 3 busy_server" by (rule server_reach_inv [OF reach]) simp
  from draining.run_ends [OF this]
  obtain k s' where run: "(worker_step (\<lambda>b. None) ^^ k) busy_server s'" "\<forall>t. \<not> worker_step (\<lambda>b. None) s' t"
    by blast
  have "k \<le> work_left (pending busy_server) (pool busy_server)"
    "mset (map fst (answered s')) = mset (enqueued (pool busy_server))"
    using server_drains [OF reach _ run(1)] run(2) by simp_all
  moreover have "mset (enqueued (pool busy_server)) = mset [5]" by (simp add: busy_server_def)
  ultimately show ?thesis using run(1) single_of_mset by metis
qed

text \<open>
  C28: the parts work together, and every client is accounted for. In every state the server can reach,
  whatever the interleaving of the event loop and the four workers: the clients \<open>accept\<close> has returned are those
  handed over, those the loop still watches, and those \<open>FD_SET\<close> has ignored, each once. Those handed over are
  the ones started, the ones queued and, only between a scan and the clean-up after it, the ones not pushed yet, in
  this order. The ones started are those answered and those running, so that none is lost or answered twice.
  \<open>FD_SET\<close> ignores a client only in a scan that starts with a full set, and none before 64 were accepted.
  Each client that was answered received a prefix of the response to its request, all of it when the
  sending loop ran to its end, and its socket was closed.
\<close>

theorem server_serves:
  assumes "server_reach json_items listen_fd s" and "0 \<le> listen_fd"
  shows "mset (taken s) = mset (handed (loop s)) + mset_set (master_set (loop s) - {listen_fd}) + mset (unwatched s) \<and>
    (\<exists>rest. handed (loop s) = started (pool s) @ jobs (pool s) @ rest \<and> (scanning s \<or> rest = [])) \<and>
    mset (started (pool s)) = mset (map fst (answered s)) + running (pool s) \<and>
    (unwatched s = [] \<or> FD_SETSIZE \<le> length (taken s)) \<and>
    (\<forall>s'. server_step json_items listen_fd s s' \<longrightarrow> unwatched s' = unwatched s \<or>
      (\<exists>fd. unwatched s' = unwatched s @ [fd] \<and> taken s' = taken s @ [fd] \<and>
        card (master_set (loop s)) = FD_SETSIZE)) \<and>
    (\<forall>(fd, raw, res) \<in> set (answered s). good_answer json_items raw res)"
proof -
  note inv = server_reach_inv [OF assms]
  have "enqueued (pool s) = started (pool s) @ jobs (pool s)" using alive [OF inv] by (simp add: pool_inv_def)
  moreover have "unwatched s' = unwatched s \<or> (\<exists>fd. unwatched s' = unwatched s @ [fd] \<and> taken s' = taken s @ [fd] \<and>
      card (master_set (loop s)) = FD_SETSIZE)" if "server_step json_items listen_fd s s'" for s'
    by (rule step_unwatched [OF inv that])
  ultimately show ?thesis using inv by (auto simp: server_inv_def)
qed

theorem server_serves_witness:
  "\<exists>s. server_reach (\<lambda>b. None) 3 s \<and> map fst (answered s) = [5] \<and> started (pool s) = [5] \<and>
    (\<exists>raw res. answered s = [(5, raw, res)] \<and> good_answer (\<lambda>b. None) raw res)"
proof -
  have busy: "server_inv (\<lambda>b. None) 3 busy_server" by (rule server_reach_inv [OF busy_server_reached]) simp
  from draining.run_ends [OF this]
  obtain k s where run: "(worker_step (\<lambda>b. None) ^^ k) busy_server s" "\<forall>t. \<not> worker_step (\<lambda>b. None) s t"
    by blast
  have reach: "server_reach (\<lambda>b. None) 3 s" by (rule reach_work [OF run(1) busy_server_reached])
  have inv: "server_inv (\<lambda>b. None) 3 s" by (rule server_reach_inv [OF reach]) simp
  have "enqueued (pool s) = enqueued (pool busy_server)"
    by (rule handed_over.run_inv [OF run(1) refl])
  then have enq: "enqueued (pool s) = [5]" by (simp add: busy_server_def)
  have jobs: "jobs (pool s) = []" and ans: "mset (map fst (answered s)) = mset (enqueued (pool s))"
    using idle_answered [OF inv run(2) [rule_format]] by simp_all
  from ans have "mset (map fst (answered s)) = mset [5]" by (simp add: enq)
  then have "map fst (answered s) = [5]" by (rule single_of_mset)
  moreover have "started (pool s) = [5]"
    using alive [OF inv] enq jobs by (simp add: pool_inv_def)
  ultimately show ?thesis using server_serves [OF reach] reach by (auto simp: map_eq_Cons_conv)
qed

end
