(* ===== verification/Server_Log.thy ===== *)
theory Server_Log
  imports Prelude
begin

text \<open>
  \<open>HTTP-server-cpp/include/logger.h\<close> and \<open>src/logger.cpp\<close>: the levels of the server's logger, their
  translation to the levels of \<open>spdlog\<close>, and which calls reach the sinks. A logger is known here by its
  level; \<open>spdlog\<close> documents that a message is logged when its level is at least the logger's.
\<close>

datatype Level = Debug | Info | Warning | Error | Critical | Off

datatype level_enum = trace | debug | info | warn | err | critical | off

text \<open>Both enumerations are ordered as they are declared.\<close>

definition level_rank :: "Level \<Rightarrow> nat" where
  "level_rank l = (case l of Debug \<Rightarrow> 0 | Info \<Rightarrow> 1 | Warning \<Rightarrow> 2 | Error \<Rightarrow> 3 | Critical \<Rightarrow> 4 | Off \<Rightarrow> 5)"

definition enum_rank :: "level_enum \<Rightarrow> nat" where
  "enum_rank l = (case l of trace \<Rightarrow> 0 | debug \<Rightarrow> 1 | info \<Rightarrow> 2 | warn \<Rightarrow> 3 | err \<Rightarrow> 4 | critical \<Rightarrow> 5 | off \<Rightarrow> 6)"

lemma rank_inj: "level_rank a = level_rank b \<Longrightarrow> a = b" "enum_rank c = enum_rank d \<Longrightarrow> c = d"
  by (cases a; cases b; simp add: level_rank_def) (cases c; cases d; simp add: enum_rank_def)

instantiation Level :: linorder
begin

definition less_eq_Level :: "Level \<Rightarrow> Level \<Rightarrow> bool" where
  "less_eq_Level a b \<longleftrightarrow> level_rank a \<le> level_rank b"

definition less_Level :: "Level \<Rightarrow> Level \<Rightarrow> bool" where
  "less_Level a b \<longleftrightarrow> level_rank a < level_rank b"

instance
  by standard (auto simp: less_eq_Level_def less_Level_def intro: rank_inj)

end

instantiation level_enum :: linorder
begin

definition less_eq_level_enum :: "level_enum \<Rightarrow> level_enum \<Rightarrow> bool" where
  "less_eq_level_enum a b \<longleftrightarrow> enum_rank a \<le> enum_rank b"

definition less_level_enum :: "level_enum \<Rightarrow> level_enum \<Rightarrow> bool" where
  "less_level_enum a b \<longleftrightarrow> enum_rank a < enum_rank b"

instance
  by standard (auto simp: less_eq_level_enum_def less_level_enum_def intro: rank_inj)

end

fun level_cast :: "Level \<Rightarrow> level_enum" where
  "level_cast Debug = debug"
| "level_cast Info = info"
| "level_cast Warning = warn"
| "level_cast Error = err"
| "level_cast Critical = critical"
| "level_cast Off = off"

text \<open>
  The logger's state: no logger, or one with its level and what its sinks received. \<open>init\<close> logs its own
  creation.
\<close>

type_synonym 'm logger = "(level_enum \<times> (level_enum \<times> 'm) list) option"

definition should_log :: "level_enum \<Rightarrow> level_enum \<Rightarrow> bool" where
  "should_log own msg \<longleftrightarrow> own \<le> msg"

definition sink :: "level_enum \<Rightarrow> 'm \<Rightarrow> level_enum \<times> (level_enum \<times> 'm) list \<Rightarrow> level_enum \<times> (level_enum \<times> 'm) list" where
  "sink l m lg = (if should_log (fst lg) l then (fst lg, snd lg @ [(l, m)]) else lg)"

text \<open>\<open>debug\<close>, \<open>warn\<close>, \<open>error\<close> and \<open>critical\<close> test the pointer; \<open>info\<close> dereferences it.\<close>

definition log_guarded :: "level_enum \<Rightarrow> 'm \<Rightarrow> 'm logger \<Rightarrow> 'm logger res" where
  "log_guarded l m lg = Inr (map_option (sink l m) lg)"

definition log_info :: "'m \<Rightarrow> 'm logger \<Rightarrow> 'm logger res" where
  "log_info m lg = (case lg of None \<Rightarrow> Inl Undefined | Some g \<Rightarrow> Inr (Some (sink info m g)))"

definition logger_init :: "Level \<Rightarrow> 'm \<Rightarrow> 'm logger res" where
  "logger_init l created = log_guarded debug created (Some (level_cast l, []))"

lemma level_cast_mono: "level_cast a \<le> level_cast b \<longleftrightarrow> a \<le> b"
  by (cases a; cases b; simp add: less_eq_Level_def less_eq_level_enum_def level_rank_def enum_rank_def)

text \<open>A message of one of the logger's own levels passes exactly when its level is not below the chosen one.\<close>

lemma sink_level:
  "sink (level_cast l) m (level_cast own, ms) = (level_cast own, if own \<le> l then ms @ [(level_cast l, m)] else ms)"
  by (simp add: sink_def should_log_def level_cast_mono)

text \<open>Before \<open>init\<close> a guarded call does nothing, while \<open>info\<close> dereferences a null pointer.\<close>

lemma log_before_init:
  "log_guarded l m None = Inr None" "log_info m (None :: 'm logger) = Inl Undefined"
  by (simp_all add: log_guarded_def log_info_def)

text \<open>After it, what is logged is the part of what was said that the level lets through.\<close>

definition passing :: "Level \<Rightarrow> (level_enum \<times> 'm) list \<Rightarrow> 'm logger" where
  "passing own ms = Some (level_cast own, filter (\<lambda>(l, m). level_cast own \<le> l) ms)"

lemma log_passing:
  "log_guarded l m (passing own ms) = Inr (passing own (ms @ [(l, m)]))"
  "log_info m (passing own ms) = Inr (passing own (ms @ [(info, m)]))"
  "logger_init own m = Inr (passing own [(debug, m)])"
  by (simp_all add: log_guarded_def log_info_def logger_init_def passing_def sink_def should_log_def)

end
