(* ===== verification/Http_Log.thy ===== *)
theory Http_Log
  imports Http_Server Thread_Pool Server_Log
begin

text \<open>
  What the HTTP server logs while it runs: \<open>handle_request\<close>, \<open>handle_client\<close>, \<open>enqueue\<close> and the event loop with
  their calls of the logger, in the order of the code. The logger is part of the state; forgetting it
  gives the definitions of \<open>Http_Parser\<close> and \<open>Http_Server\<close>.
\<close>

subsection \<open>A request and its client\<close>

definition post_response_logged ::
  "(string \<Rightarrow> (string \<times> string) list option) \<Rightarrow> string \<Rightarrow> string logger \<Rightarrow> (string \<times> string logger) res" where
  "post_response_logged json_items raw lg =
    (case find_sub (crlf @ crlf) raw of
       None \<Rightarrow> bnd (log_guarded err ''Bad HTTP Request'' lg) (\<lambda>lg. Inr (bad_request, lg))
     | Some pos \<Rightarrow>
        (case json_items (drop (pos + 4) raw) of
           Some ps \<Rightarrow> Inr (ok_response (''Received JSON with pairs: '' @ pairs_text ps), lg)
         | None \<Rightarrow> bnd (log_guarded err ''Invalid JSON'' lg) (\<lambda>lg. Inr (invalid_json, lg))))"

definition handle_request_logged ::
  "(string \<Rightarrow> (string \<times> string) list option) \<Rightarrow> time \<Rightarrow> time \<Rightarrow> string \<Rightarrow> entries \<Rightarrow> string logger \<Rightarrow>
    ((string \<times> entries) \<times> string logger) res" where
  "handle_request_logged json_items now now' raw data lg =
    (let (method, stream) = next_word raw;
         (path, stream) = next_word stream;
         (version, stream) = next_word stream
     in bnd (log_guarded debug ''The request'' lg) (\<lambda>lg.
        if method = ''GET'' then
          (let (cached, data) = cache_get now path data in
           if cached \<noteq> ''Not Founded'' then Inr ((cached, data), lg)
           else bnd (log_guarded debug (''The cache wasn'' @ [CHR 39] @ ''t found'') lg) (\<lambda>lg.
             let response = get_response path in Inr ((response, cache_put now' path response 60 data), lg)))
        else if method = ''POST'' then
          bnd (post_response_logged json_items raw lg) (\<lambda>(response, lg). Inr ((response, data), lg))
        else bnd (log_guarded err ''Not Implemented (the method is not GET or POST)'' lg)
          (\<lambda>lg. Inr ((not_implemented, data), lg))))"

text \<open>The first component is \<open>None\<close> while a call of \<open>send\<close> has not returned.\<close>

definition handle_client_logged ::
  "(string \<Rightarrow> (string \<times> string) list option) \<Rightarrow> time \<Rightarrow> time \<Rightarrow> string \<Rightarrow> int list \<Rightarrow> entries \<Rightarrow> string logger \<Rightarrow>
    ((client_result option \<times> entries) \<times> string logger) res" where
  "handle_client_logged json_items now now' arrived outcomes data lg =
    (case recv arrived of
       None \<Rightarrow> bnd (log_guarded err ''The client has not been processed'' lg)
         (\<lambda>lg. Inr ((Some \<lparr>wire = [], complete = False, closed = True\<rparr>, data), lg))
     | Some request \<Rightarrow>
        bnd (handle_request_logged json_items now now' request data lg) (\<lambda>((response, data), lg).
          case send_loop outcomes response 0 of
            None \<Rightarrow> Inr ((None, data), lg)
          | Some (w, fin) \<Rightarrow>
              bnd (if fin then Inr lg else log_guarded err ''Failed to send full response'' lg)
                (\<lambda>lg. Inr ((Some \<lparr>wire = w, complete = fin, closed = True\<rparr>, data), lg))))"

subsection \<open>The event loop\<close>

text \<open>\<open>enqueue\<close> of the pool, as the event loop calls it, and what the loop does for a ready descriptor.\<close>

definition enqueue_logged :: "int \<Rightarrow> loop_state \<Rightarrow> string logger \<Rightarrow> (loop_state \<times> string logger) res" where
  "enqueue_logged client_fd st lg =
    bnd (log_guarded debug ''A task has been pushed into the queue'' lg)
      (\<lambda>lg. Inr (st\<lparr>handed := handed st @ [client_fd]\<rparr>, lg))"

definition serve_fd_logged ::
  "int \<Rightarrow> int \<Rightarrow> int \<Rightarrow> loop_state \<times> string logger \<Rightarrow> (loop_state \<times> string logger) res" where
  "serve_fd_logged listen_fd accepted i s =
    (case s of (st, lg) \<Rightarrow>
      if i = listen_fd then
        if accepted \<noteq> -1
        then (let st = st\<lparr>master_set := FD_SET accepted (master_set st),
                          max_fd := (if accepted > max_fd st then accepted else max_fd st)\<rparr>
              in bnd (log_info ''New client connected'' lg) (\<lambda>lg. Inr (st, lg)))
        else bnd (log_guarded err ''accept() failed'' lg) (\<lambda>lg. Inr (st, lg))
      else
        (let st = st\<lparr>master_set := master_set st - {i}\<rparr>
         in bnd (log_guarded debug ''Handling client'' lg) (enqueue_logged i st)))"

lemma serve_fd_logged_range:
  "serve_fd_logged listen_fd accepted i s = Inr s' \<Longrightarrow> max_fd (fst s') \<le> max (max_fd (fst s)) accepted"
  by (cases s) (auto simp: Let_def serve_fd_logged_def enqueue_logged_def bnd_Inr_iff split: if_splits)

function scan_logged ::
  "int \<Rightarrow> int \<Rightarrow> int set \<Rightarrow> int \<Rightarrow> loop_state \<times> string logger \<Rightarrow> (loop_state \<times> string logger) res" where
  "scan_logged listen_fd accepted read_set i s =
    (if i \<le> max_fd (fst s)
     then bnd (if i \<in> read_set then serve_fd_logged listen_fd accepted i s else Inr s)
            (scan_logged listen_fd accepted read_set (i + 1))
     else Inr s)"
  by pat_completeness auto
termination
  by (relation "measure (\<lambda>(listen_fd, accepted, read_set, i, s). nat (max (max_fd (fst s)) accepted + 1 - i))")
    (auto dest!: serve_fd_logged_range split: if_splits)

declare scan_logged.simps [simp del]

definition turn_logged ::
  "int \<Rightarrow> int set option \<Rightarrow> int \<Rightarrow> time \<Rightarrow> (loop_state \<times> entries) \<times> string logger \<Rightarrow>
    ((loop_state \<times> entries) \<times> string logger) res" where
  "turn_logged listen_fd ready accepted now s =
    (case s of ((st, data), lg) \<Rightarrow>
      (case ready of
         None \<Rightarrow> Inr s
       | Some read_set \<Rightarrow> bnd (scan_logged listen_fd accepted read_set 0 (st, lg))
           (\<lambda>(st, lg). Inr ((st, cache_cleanup now data), lg))))"

text \<open>The end of the pool's destructor, once every thread has returned.\<close>

definition release_logged :: "'j pool \<Rightarrow> string logger \<Rightarrow> ('j pool \<times> string logger) res" where
  "release_logged p lg =
    bnd (log_guarded debug ''The threads have been released'' lg) (\<lambda>lg. Inr (p\<lparr>dtor := Joined\<rparr>, lg))"

subsection \<open>What the log says of a turn\<close>

definition fd_says :: "int \<Rightarrow> int \<Rightarrow> int \<Rightarrow> (level_enum \<times> string) list" where
  "fd_says listen_fd accepted fd =
    (if fd = listen_fd then
       [if accepted \<noteq> -1 then (info, ''New client connected'') else (err, ''accept() failed'')]
     else [(debug, ''Handling client''), (debug, ''A task has been pushed into the queue'')])"

lemma log_passing_guarded:
  "bnd (log_guarded l m (passing own ms)) k = k (passing own (ms @ [(l, m)]))"
  "bnd (log_info m (passing own ms)) k = k (passing own (ms @ [(info, m)]))"
  "bnd (log_guarded l m None) k = k None"
  by (simp_all add: log_passing log_before_init)

lemma serve_fd_says:
  "serve_fd_logged listen_fd accepted i (st, passing own ms) =
    Inr (serve_fd listen_fd accepted i st, passing own (ms @ fd_says listen_fd accepted i))"
  by (simp add: serve_fd_logged_def serve_fd_def fd_says_def enqueue_logged_def log_passing_guarded)

lemma serve_fd_silent:
  "serve_fd_logged listen_fd accepted i (st, None) =
    (if i = listen_fd \<and> accepted \<noteq> -1 then Inl Undefined else Inr (serve_fd listen_fd accepted i st, None))"
  by (simp add: serve_fd_logged_def serve_fd_def enqueue_logged_def log_passing_guarded log_before_init)

text \<open>The descriptors a scan finds ready from \<open>i\<close> on, the listening socket included.\<close>

definition found_from :: "int set \<Rightarrow> int \<Rightarrow> int \<Rightarrow> int list" where
  "found_from read_set i m = filter (\<lambda>fd. fd \<in> read_set) [i..m]"

lemma found_from_step:
  "i \<le> m \<Longrightarrow> found_from read_set i m = (if i \<in> read_set then [i] else []) @ found_from read_set (i + 1) m"
  by (simp add: found_from_def upto_rec1)

lemma found_from_none: "\<forall>fd \<in> read_set. fd < i \<Longrightarrow> found_from read_set i m = []"
  by (auto simp: found_from_def filter_empty_conv)

lemma found_from_sorted:
  assumes "\<forall>fd \<in> read_set. 0 \<le> fd \<and> fd \<le> m"
  shows "found_from read_set 0 m = sorted_list_of_set read_set"
proof -
  have "set (found_from read_set 0 m) = read_set" using assms by (auto simp: found_from_def)
  moreover have "distinct (found_from read_set 0 m)" "sorted (found_from read_set 0 m)"
    by (simp_all add: found_from_def sorted_wrt_filter)
  ultimately show ?thesis using sorted_list_of_set_unique [of read_set] sorted_list_of_set.idem_if_sorted_distinct
    by metis
qed

lemma scan_says:
  assumes "\<forall>fd \<in> read_set. fd \<le> max_fd st" and "max_fd st \<le> m" and "accepted \<le> m"
  shows "scan_logged listen_fd accepted read_set i (st, passing own ms) =
    Inr (scan listen_fd accepted read_set i st,
      passing own (ms @ concat (map (fd_says listen_fd accepted) (found_from read_set i m))))"
  using assms
proof (induction listen_fd accepted read_set i st arbitrary: ms rule: scan.induct)
  case (1 listen_fd accepted read_set i st)
  show ?case
  proof (cases "i \<le> max_fd st")
    case False
    with "1.prems"(1) have "found_from read_set i m = []" by (intro found_from_none) fastforce
    with False show ?thesis by (simp add: scan_logged.simps scan.simps)
  next
    case True
    let ?st = "if i \<in> read_set then serve_fd listen_fd accepted i st else st"
    let ?ms = "ms @ (if i \<in> read_set then fd_says listen_fd accepted i else [])"
    have bounds: "\<forall>fd \<in> read_set. fd \<le> max_fd ?st" "max_fd ?st \<le> m"
      using "1.prems" by (auto simp: serve_fd_def)
    have "scan_logged listen_fd accepted read_set i (st, passing own ms) =
        scan_logged listen_fd accepted read_set (i + 1) (?st, passing own ?ms)"
      using True by (subst scan_logged.simps) (simp add: serve_fd_says)
    moreover have "scan listen_fd accepted read_set i st = scan listen_fd accepted read_set (i + 1) ?st"
      using True by (subst scan.simps) simp
    ultimately show ?thesis
      using "1.IH" [OF True bounds "1.prems"(3), of ?ms] found_from_step [of i m read_set] True "1.prems"(2)
      by simp
  qed
qed

text \<open>Without a logger the loop runs until it announces a client.\<close>

lemma scan_silent:
  assumes "\<forall>fd \<in> read_set. fd \<le> max_fd st"
  shows "scan_logged listen_fd accepted read_set i (st, None) =
    (if accepts_client listen_fd accepted read_set i then Inl Undefined
     else Inr (scan listen_fd accepted read_set i st, None))"
  using assms
proof (induction listen_fd accepted read_set i st rule: scan.induct)
  case (1 listen_fd accepted read_set i st)
  show ?case
  proof (cases "i \<le> max_fd st")
    case False
    then have "\<not> accepts_client listen_fd accepted read_set i"
      using "1.prems" by (force simp: accepts_client_def)
    with False show ?thesis by (simp add: scan_logged.simps scan.simps)
  next
    case True
    let ?st = "if i \<in> read_set then serve_fd listen_fd accepted i st else st"
    have bounds: "\<forall>fd \<in> read_set. fd \<le> max_fd ?st" using "1.prems" by (auto simp: serve_fd_def)
    show ?thesis
    proof (cases "i = listen_fd \<and> i \<in> read_set \<and> accepted \<noteq> -1")
      case here: True
      with True show ?thesis
        by (subst scan_logged.simps) (auto simp: serve_fd_silent accepts_client_def)
    next
      case False
      then have "accepts_client listen_fd accepted read_set (i + 1) = accepts_client listen_fd accepted read_set i"
        by (auto simp: accepts_client_def add1_zle_eq order_less_le)
      moreover have "scan_logged listen_fd accepted read_set i (st, None) =
          scan_logged listen_fd accepted read_set (i + 1) (?st, None)"
        using True False by (subst scan_logged.simps) (auto simp: serve_fd_silent)
      moreover have "scan listen_fd accepted read_set i st = scan listen_fd accepted read_set (i + 1) ?st"
        using True by (subst scan.simps) simp
      ultimately show ?thesis using "1.IH" [OF True bounds] by simp
    qed
  qed
qed

lemma turn_says:
  assumes "\<forall>fd \<in> ready. 0 \<le> fd \<and> fd \<le> max_fd st"
  shows "turn_logged listen_fd (Some ready) accepted now ((st, data), passing own ms) =
      Inr (turn listen_fd (Some ready) accepted now (st, data),
        passing own (ms @ concat (map (fd_says listen_fd accepted) (sorted_list_of_set ready))))"
proof -
  let ?m = "max (max_fd st) accepted"
  have "found_from ready 0 ?m = sorted_list_of_set ready" using assms by (intro found_from_sorted) auto
  then show ?thesis using scan_says [of ready st ?m accepted listen_fd 0] assms
    by (simp add: turn_logged_def turn_def)
qed

lemma turn_silent:
  assumes "\<forall>fd \<in> ready. 0 \<le> fd \<and> fd \<le> max_fd st"
  shows "turn_logged listen_fd (Some ready) accepted now ((st, data), None) =
    (if listen_fd \<in> ready \<and> accepted \<noteq> -1 then Inl Undefined
     else Inr (turn listen_fd (Some ready) accepted now (st, data), None))"
  using scan_silent [of ready st listen_fd accepted 0] assms
  by (auto simp: turn_logged_def turn_def accepts_client_def)

text \<open>The destructor's message comes with its last step.\<close>

lemma release_joins:
  assumes "dtor p = Notified" and "\<forall>w \<in> set (workers p). w = Returned"
  shows "\<exists>p'. release_logged p (passing own ms) =
      Inr (p', passing own (ms @ [(debug, ''The threads have been released'')])) \<and> pool_step p p'"
  using pool_step.join [OF assms] by (simp add: release_logged_def log_passing_guarded)

subsection \<open>What the log says of a client\<close>

definition post_says :: "(string \<Rightarrow> (string \<times> string) list option) \<Rightarrow> string \<Rightarrow> (level_enum \<times> string) list" where
  "post_says json_items raw =
    (if post_response json_items raw = bad_request then [(err, ''Bad HTTP Request'')]
     else if post_response json_items raw = invalid_json then [(err, ''Invalid JSON'')] else [])"

definition request_says ::
  "(string \<Rightarrow> (string \<times> string) list option) \<Rightarrow> time \<Rightarrow> entries \<Rightarrow> string \<Rightarrow> (level_enum \<times> string) list" where
  "request_says json_items now data raw =
    (debug, ''The request'') #
    (let (method, stream) = next_word raw in
     if method = ''GET'' then
       if valid_at now data (fst (next_word stream)) = None
       then [(debug, ''The cache wasn'' @ [CHR 39] @ ''t found'')] else []
     else if method = ''POST'' then post_says json_items raw
     else [(err, ''Not Implemented (the method is not GET or POST)'')])"

definition client_says ::
  "(string \<Rightarrow> (string \<times> string) list option) \<Rightarrow> time \<Rightarrow> entries \<Rightarrow> string \<Rightarrow> client_result \<Rightarrow>
    (level_enum \<times> string) list" where
  "client_says json_items now data arrived res =
    (if arrived = [] then [(err, ''The client has not been processed'')]
     else request_says json_items now data (take 4096 arrived) @
       (if complete res then [] else [(err, ''Failed to send full response'')]))"

lemma response_kinds:
  "prefix_of ''HTTP/1.1 200'' (ok_response body)" "\<not> prefix_of ''HTTP/1.1 200'' bad_request"
  "\<not> prefix_of ''HTTP/1.1 200'' invalid_json" "\<not> prefix_of ''HTTP/1.1 200'' not_implemented"
  "bad_request \<noteq> invalid_json"
  by (simp_all add: ok_response_def bad_request_def invalid_json_def not_implemented_def Let_def)

lemma ok_response_kind [simp]: "ok_response body \<noteq> bad_request" "ok_response body \<noteq> invalid_json"
  using response_kinds by metis+

lemma post_logged_says:
  "post_response_logged json_items raw (passing own ms) =
    Inr (post_response json_items raw, passing own (ms @ post_says json_items raw))"
  by (simp add: post_response_logged_def post_response_def post_says_def log_passing_guarded response_kinds(5)
      response_kinds(5) [symmetric] split: option.split)

lemma post_logged_silent: "post_response_logged json_items raw None = Inr (post_response json_items raw, None)"
  by (simp add: post_response_logged_def post_response_def log_passing_guarded split: option.split)

lemma missed_iff:
  assumes "cache_sound data"
  shows "fst (cache_get now path data) = not_found \<longleftrightarrow> valid_at now data path = None"
proof -
  have "e \<in> set data \<Longrightarrow> entry_value (snd e) \<noteq> not_found" for e
    using assms get_response_not_absent by (cases e) (fastforce simp: cache_sound_def entries_satisfy_def)
  then show ?thesis by (fastforce simp: cache_get_def valid_at_def dest: map_of_SomeD split: option.splits)
qed

lemma request_logged_says:
  assumes "cache_sound data"
  shows "handle_request_logged json_items now now' raw data (passing own ms) =
    Inr (handle_request json_items now now' raw data, passing own (ms @ request_says json_items now data raw))"
  using missed_iff [OF assms, of now "fst (next_word (snd (next_word raw)))"]
  by (auto simp: handle_request_logged_def handle_request_def request_says_def Let_def log_passing_guarded
      post_logged_says not_found_def split: prod.splits)

lemma request_logged_silent:
  "handle_request_logged json_items now now' raw data None =
    Inr (handle_request json_items now now' raw data, None)"
  by (auto simp: handle_request_logged_def handle_request_def Let_def log_passing_guarded
      post_logged_silent split: prod.splits)

lemma request_error:
  "(\<exists>m. (err, m) \<in> set (request_says json_items now data raw)) \<longleftrightarrow>
    \<not> prefix_of ''HTTP/1.1 200'' (respond json_items raw)"
  by (auto simp: request_says_def respond_def post_says_def post_response_def get_response_def Let_def
      response_kinds split: prod.splits option.splits)

lemma client_logged:
  assumes "handle_client json_items now now' arrived outcomes data = Some (res, data')"
  shows "cache_sound data \<Longrightarrow>
      handle_client_logged json_items now now' arrived outcomes data (passing own ms) =
      Inr ((Some res, data'), passing own (ms @ client_says json_items now data arrived res))"
    and "handle_client_logged json_items now now' arrived outcomes data None = Inr ((Some res, data'), None)"
  using assms
  by (auto simp: handle_client_def handle_client_logged_def client_says_def recv_def log_passing_guarded
      request_logged_says request_logged_silent split: prod.splits option.splits if_splits)

subsection \<open>Properties\<close>

text \<open>
  C27: what the server logs at run time tells what happened. In a turn of the event loop the log gets, for
  every ready descriptor in ascending order, either the outcome of \<open>accept\<close> or that a client is handled and
  its task pushed; the level filters it and nothing else depends on it. Without \<open>Logger::init\<close> the turn is
  undefined exactly when it accepts a client. Handling a client gives the same result with every logger
  and without one, and an error is logged for it exactly when it did not receive a complete \<open>200\<close> response.
\<close>

theorem log_tells:
  assumes "\<forall>fd \<in> ready. 0 \<le> fd \<and> fd \<le> max_fd st"
    and "handle_client json_items t t' arrived outcomes data = Some (res, data')"
    and "cache_sound data" and "sends_ok outcomes (length (respond json_items (take 4096 arrived)))"
  shows "turn_logged listen_fd (Some ready) accepted now ((st, data), passing own ms) =
      Inr (turn listen_fd (Some ready) accepted now (st, data),
        passing own (ms @ concat (map (fd_says listen_fd accepted) (sorted_list_of_set ready)))) \<and>
    turn_logged listen_fd (Some ready) accepted now ((st, data), None) =
      (if listen_fd \<in> ready \<and> accepted \<noteq> -1 then Inl Undefined
       else Inr (turn listen_fd (Some ready) accepted now (st, data), None)) \<and>
    handle_client_logged json_items t t' arrived outcomes data None = Inr ((Some res, data'), None) \<and>
    (\<exists>said. handle_client_logged json_items t t' arrived outcomes data (passing own ms) =
        Inr ((Some res, data'), passing own (ms @ said)) \<and>
      ((\<exists>m. (err, m) \<in> set said) \<longleftrightarrow> \<not> (complete res \<and> prefix_of ''HTTP/1.1 200'' (wire res))))"
proof -
  have "(\<exists>m. (err, m) \<in> set (client_says json_items t data arrived res)) \<longleftrightarrow>
      \<not> (complete res \<and> prefix_of ''HTTP/1.1 200'' (wire res))"
    using assms(2) client_result_prefix [OF assms(2-4)] request_error [of json_items t data "take 4096 arrived"]
    by (auto simp: client_says_def handle_client_def recv_def)
  then show ?thesis using turn_says [OF assms(1)] turn_silent [OF assms(1)] client_logged [OF assms(2)] assms(3)
    by blast
qed

theorem log_tells_witness:
  "turn_logged 3 (Some {3, 5}) 7 0 ((\<lparr>master_set = {3, 4, 5}, max_fd = 5, handed = []\<rparr>, []), passing Info []) =
    Inr (turn 3 (Some {3, 5}) 7 0 (\<lparr>master_set = {3, 4, 5}, max_fd = 5, handed = []\<rparr>, []),
      passing Info [(info, ''New client connected''), (debug, ''Handling client''),
        (debug, ''A task has been pushed into the queue'')]) \<and>
  (\<exists>res data' said. handle_client_logged (\<lambda>b. None) 0 0 get_main [40, 0] [] (passing Error []) =
      Inr ((Some res, data'), passing Error said) \<and>
    ((\<exists>m. (err, m) \<in> set said) \<longleftrightarrow> \<not> (complete res \<and> prefix_of ''HTTP/1.1 200'' (wire res))))"
proof -
  have "handle_client (\<lambda>b. None) 0 0 get_main [40, 0] [] \<noteq> None" by code_simp
  then obtain res data' where h: "handle_client (\<lambda>b. None) 0 0 get_main [40, 0] [] = Some (res, data')" by auto
  have "sends_ok [40, 0] (length (respond (\<lambda>b. None) (take 4096 get_main)))" by code_simp
  moreover have "cache_sound []" by (simp add: cache_sound_def entries_satisfy_def distinct_keys_def)
  moreover have "\<forall>fd \<in> {3, 5}. 0 \<le> fd \<and> fd \<le> max_fd \<lparr>master_set = {3, 4, 5}, max_fd = 5, handed = []\<rparr>" by simp
  ultimately show ?thesis using log_tells [OF _ h, of "{3, 5}" "\<lparr>master_set = {3, 4, 5}, max_fd = 5, handed = []\<rparr>" 3 7 0 Info "[]"]
      log_tells [OF _ h, of "{}" "\<lparr>master_set = {3, 4, 5}, max_fd = 5, handed = []\<rparr>" 3 7 0 Error "[]"]
    by (fastforce simp: fd_says_def)
qed

end
