(* ===== verification/Http_Main.thy ===== *)
theory Http_Main
  imports Http_System Http_Log
begin

text \<open>
  \<open>main\<close> of \<open>HTTP-server-cpp\<close>, with \<open>Server::run\<close>: the logger is set up, the listening socket is opened, and the
  event loop starts, which never returns. \<open>Http_System\<close> is what happens from then on.
\<close>

text \<open>\<open>init_socket\<close> with its log: the message of a failure is the one of the exception.\<close>

definition init_socket_logged ::
  "listen_env \<Rightarrow> string logger \<Rightarrow> (((string + int) \<times> wsa_call list) \<times> string logger) res" where
  "init_socket_logged env lg =
    (case init_socket env of
       (Inl m, calls) \<Rightarrow> bnd (log_guarded critical m lg) (\<lambda>lg. Inr ((Inl m, calls), lg))
     | (Inr fd, calls) \<Rightarrow> bnd (log_info ''The server is ready to work'' lg) (\<lambda>lg. Inr ((Inr fd, calls), lg)))"

text \<open>
  \<open>run\<close> either throws or ends up in the event loop with the server of \<open>Http_System\<close>. No one catches the
  exception, so that the program is terminated and \<open>on_exit\<close> is not called.
\<close>

datatype run_result = Threw string | Serving server

definition Server_run ::
  "nat \<Rightarrow> listen_env \<Rightarrow> string logger \<Rightarrow> (run_result \<times> wsa_call list \<times> string logger) res" where
  "Server_run port env lg =
    bnd (init_socket_logged env lg) (\<lambda>((opened, calls), lg).
      case opened of
        Inl m \<Rightarrow> Inr (Threw m, calls, lg)
      | Inr fd \<Rightarrow> bnd (log_info (''The server runs on port '' @ to_string port) lg)
          (\<lambda>lg. Inr (Serving (Server_new fd), calls, lg)))"

definition main :: "listen_env \<Rightarrow> (run_result \<times> wsa_call list \<times> string logger) res" where
  "main env = bnd (logger_init Debug ''The logger has been created'') (Server_run 8080 env)"

text \<open>
  \<open>on_exit\<close>, which \<open>std::atexit\<close> calls when \<open>main\<close> returns or \<open>exit\<close> is called: neither happens above.
  Its last statement, \<open>spdlog::shutdown\<close>, drops the library's registry and writes no message.
\<close>

definition on_exit :: "string logger \<Rightarrow> string logger res" where
  "on_exit lg = log_info ''The server was shut down'' lg"

lemma run_logs:
  assumes "init_socket env = (opened, calls)"
  shows "Server_run port env (passing own ms) =
    Inr (case opened of
        Inl m \<Rightarrow> (Threw m, calls, passing own (ms @ [(critical, m)]))
      | Inr fd \<Rightarrow> (Serving (Server_new fd), calls, passing own (ms @
          [(info, ''The server is ready to work''), (info, ''The server runs on port '' @ to_string port)])))"
  using assms by (simp add: Server_run_def init_socket_logged_def log_passing split: sum.split)

lemma run_unlogged:
  assumes "init_socket env = (opened, calls)"
  shows "Server_run port env None = (case opened of Inl m \<Rightarrow> Inr (Threw m, calls, None) | Inr fd \<Rightarrow> Inl Undefined)"
  using assms by (simp add: Server_run_def init_socket_logged_def log_before_init split: sum.split)

lemma debug_passes:
  "passing Debug ((debug, m) # ms) = Some (debug, (debug, m) # filter (\<lambda>(l, m). debug \<le> l) ms)"
  by (simp add: passing_def)

lemma debug_below [simp]: "debug \<le> info" "debug \<le> critical"
  by (simp_all add: less_eq_level_enum_def enum_rank_def)

lemma main_logs:
  assumes "init_socket env = (opened, calls)"
  shows "main env = Inr (case opened of
      Inl m \<Rightarrow> (Threw m, calls, Some (debug, [(debug, ''The logger has been created''), (critical, m)]))
    | Inr fd \<Rightarrow> (Serving (Server_new fd), calls, Some (debug, [(debug, ''The logger has been created''),
        (info, ''The server is ready to work''), (info, ''The server runs on port '' @ to_string 8080)])))"
  unfolding main_def log_passing bnd_simps run_logs [OF assms]
  by (simp add: debug_passes split: sum.split)

subsection \<open>Properties\<close>

text \<open>
  What the start-up has to get from its system calls, in their order, and the message it fails with when it
  does not. \<open>start_trace\<close> tells of a trace that it acquires what the successful calls gave.
\<close>

definition start_checks :: "listen_env \<Rightarrow> (bool \<times> string) list" where
  "start_checks env =
    [(wsa_starts env, ''WSAStartup failed''), (socket_result env \<noteq> None, ''Socket creation failed''),
     (bind_succeeds env, ''Bind failed''), (listen_succeeds env, ''Listen failed'')]"

definition start_trace :: "listen_env \<Rightarrow> wsa_call list \<Rightarrow> bool" where
  "start_trace env calls \<longleftrightarrow> (Started \<in> set calls \<longleftrightarrow> wsa_starts env) \<and>
     (\<forall>fd. Opened fd \<in> set calls \<longleftrightarrow> wsa_starts env \<and> socket_result env = Some fd)"

lemma init_socket_outcome:
  "fst (init_socket env) =
    (case find (\<lambda>(ok, m). \<not> ok) (start_checks env) of Some (ok, m) \<Rightarrow> Inl m | None \<Rightarrow> Inr (the (socket_result env)))"
  "start_trace env (snd (init_socket env))"
  by (auto simp: init_socket_def open_listener_def start_checks_def start_trace_def split: option.splits)

text \<open>
  C34: how the program starts, whatever the system calls return. The first of \<open>WSAStartup\<close>, \<open>socket\<close>, \<open>bind\<close> and
  \<open>listen\<close> that fails decides: the program ends with the exception that names this call, having released
  everything it had acquired, and with the same message logged as critical. If none fails it serves on the
  socket it was given, which it holds, and has logged that it is ready and on which port. \<open>main\<close> lets every
  message through; a server run with a logger of another level logs, in order, the messages of at least
  that level. Without \<open>Logger::init\<close> a failing start is the same but for the log, and a successful one
  dereferences a null pointer.
\<close>

theorem server_starts:
  "\<exists>calls r said. start_trace env calls \<and>
    main env = Inr (r, calls, Some (debug, (debug, ''The logger has been created'') # said)) \<and>
    Server_run 8080 env (passing own ms) = Inr (r, calls, passing own (ms @ said)) \<and>
    (case find (\<lambda>(ok, m). \<not> ok) (start_checks env) of
       Some (ok, m) \<Rightarrow> r = Threw m \<and> said = [(critical, m)] \<and> all_released calls \<and>
         Server_run 8080 env None = Inr (r, calls, None)
     | None \<Rightarrow> r = Serving (Server_new (the (socket_result env))) \<and> held_after calls = (1, [the (socket_result env)]) \<and>
         said = [(info, ''The server is ready to work''), (info, ''The server runs on port 8080'')] \<and>
         Server_run 8080 env None = Inl Undefined)"
proof -
  obtain opened calls where i: "init_socket env = (opened, calls)" by fastforce
  note runs = main_logs [OF i] run_logs [OF i] run_unlogged [OF i] and holds = init_socket_holds [of env]
    and outcome = init_socket_outcome [of env]
  have port: "to_string 8080 = ''8080''" by (simp add: to_string.simps digit_char_def) code_simp
  show ?thesis
  proof (cases "find (\<lambda>(ok, m). \<not> ok) (start_checks env)")
    case None
    with holds outcome show ?thesis by (simp add: i runs port)
  next
    case (Some f)
    with holds outcome show ?thesis by (simp add: i runs split: prod.splits)
  qed
qed

end
