(* ===== verification/Messager.thy ===== *)
theory Messager
  imports Prelude Step_Systems "HOL-Library.Sublist"
begin

text \<open>
  \<open>messager-cpp\<close>: the chat server (\<open>server.h/.cpp\<close>, \<open>connection.h/.cpp\<close>, \<open>user.h/.cpp\<close>) and its client
  (\<open>client.cpp\<close>). The library runs one completion handler at a time; a handler is one step on the
  server's state, and bytes may arrive between any two. Connections are numbered in the order they are
  accepted, and \<open>outbox\<close> is the text of the writes started on a connection, in order. \<open>async_read_until\<close>
  completes when the bytes that have arrived hold a line feed, and leaves what follows it to later reads.
\<close>

abbreviation nl :: char where "nl \<equiv> CHR 10"

subsection \<open>Reading by lines\<close>

text \<open>
  \<open>std::getline\<close> on a stream: the line, without its line feed, and what follows it. At the end of the stream
  the last line may lack its line feed.
\<close>

definition getline :: "string \<Rightarrow> string \<times> string" where
  "getline buf = (takeWhile (\<lambda>c. c \<noteq> nl) buf, tl (dropWhile (\<lambda>c. c \<noteq> nl) buf))"

lemma getline_line: "nl \<notin> set l \<Longrightarrow> getline (l @ nl # r) = (l, r)"
  by (auto simp: getline_def takeWhile_append dropWhile_append)

text \<open>The lines a chain of reads takes from a buffer, each one read completing when the last is handled.\<close>

function drain_lines :: "string \<Rightarrow> string list \<times> string" where
  "drain_lines buf =
    (if nl \<in> set buf
     then (case getline buf of (line, left) \<Rightarrow> (case drain_lines left of (ls, left) \<Rightarrow> (line # ls, left)))
     else ([], buf))"
  by pat_completeness auto
termination
proof (relation "measure length")
  fix buf line left :: string
  assume "nl \<in> set buf" and l: "(line, left) = getline buf"
  then have "dropWhile (\<lambda>c. c \<noteq> nl) buf \<noteq> []" by (auto simp: dropWhile_eq_Nil_conv)
  then have "length (tl (dropWhile (\<lambda>c. c \<noteq> nl) buf)) < length (dropWhile (\<lambda>c. c \<noteq> nl) buf)"
    by (cases "dropWhile (\<lambda>c. c \<noteq> nl) buf") simp_all
  also have "\<dots> \<le> length buf" by (rule length_dropWhile_le)
  finally show "(left, buf) \<in> measure length" using l by (simp add: getline_def)
qed simp

declare drain_lines.simps [simp del]

lemma drain_lines_line:
  "nl \<notin> set l \<Longrightarrow> drain_lines (l @ nl # r) = (l # fst (drain_lines r), snd (drain_lines r))"
  by (subst drain_lines.simps) (simp add: getline_line case_prod_beta)

lemma drain_lines_rest: "nl \<notin> set r \<Longrightarrow> drain_lines r = ([], r)"
  by (subst drain_lines.simps) simp

lemma line_cases:
  obtains "nl \<notin> set s" | l r where "s = l @ nl # r" "nl \<notin> set l"
proof (cases "nl \<in> set s")
  case True
  then obtain l r where "s = l @ nl # r" "nl \<notin> set l" by (blast dest: split_list_first)
  then show ?thesis using that(2) by blast
qed (use that(1) in blast)

text \<open>The text of a sequence of lines.\<close>

definition line_text :: "string list \<Rightarrow> string" where
  "line_text ms = concat (map (\<lambda>m. m @ [nl]) ms)"

lemma line_text_append [simp]: "line_text (ms @ ns) = line_text ms @ line_text ns"
  by (simp add: line_text_def)

lemma drain_line_text:
  "\<forall>m \<in> set ms. nl \<notin> set m \<Longrightarrow> drain_lines (line_text ms @ r) = (ms @ fst (drain_lines r), snd (drain_lines r))"
  by (induction ms) (simp_all add: line_text_def drain_lines_line)

lemma drain_lines_text:
  "buf = line_text (fst (drain_lines buf)) @ snd (drain_lines buf) \<and> (\<forall>l \<in> set (fst (drain_lines buf)). nl \<notin> set l)"
proof (induction "length buf" arbitrary: buf rule: less_induct)
  case less
  show ?case
  proof (cases buf rule: line_cases)
    case 1
    then show ?thesis by (simp add: drain_lines_rest line_text_def)
  next
    case (2 l r)
    with less [of r] show ?thesis by (simp add: drain_lines_line line_text_def)
  qed
qed

text \<open>More bytes only add lines.\<close>

lemma drain_lines_prefix:
  assumes "prefix a b"
  shows "prefix (fst (drain_lines a)) (fst (drain_lines b))"
proof -
  obtain rest where "b = a @ rest" using assms by (auto simp: prefix_def)
  then have "b = line_text (fst (drain_lines a)) @ snd (drain_lines a) @ rest" using drain_lines_text [of a] by simp
  with drain_lines_text [of a] show ?thesis by (metis drain_line_text fst_conv prefixI)
qed

subsection \<open>The server\<close>

text \<open>
  \<open>connects\<close> is the set of connections in the order of their creation. \<open>unread\<close> are the bytes that have
  arrived and no read has taken, \<open>reading\<close> tells whether a read is under way. Three fields are not in the
  code and record what has happened: \<open>arrived\<close> is all that has come on a connection, \<open>said\<close> the calls of
  \<open>broadcast\<close> with their sender, \<open>joined\<close> how many there were when the connection was made.
\<close>

record User =
  username :: string

definition get_login :: "User \<Rightarrow> string" where
  "get_login u = username u"

record connection =
  user :: User
  unread :: string
  reading :: bool
  outbox :: "string list"
  arrived :: string
  joined :: nat

record hub =
  connects :: "connection list"
  console :: "string list"
  errors :: "string list"
  said :: "(nat \<times> string) list"

definition hub_new :: hub where
  "hub_new = \<lparr>connects = [], console = [], errors = [], said = []\<rparr>"

definition get_user :: "connection \<Rightarrow> User" where
  "get_user c = user c"

text \<open>The constructor of \<open>Connection\<close>, with its user, and \<open>start\<close>, which starts the first read.\<close>

definition new_connection :: "nat \<Rightarrow> connection" where
  "new_connection n =
    \<lparr>user = \<lparr>username = ''Anonimous''\<rparr>, unread = [], reading = False, outbox = [], arrived = [], joined = n\<rparr>"

definition Connection_start :: "connection \<Rightarrow> connection" where
  "Connection_start c = c\<lparr>reading := True\<rparr>"

definition write_to :: "string \<Rightarrow> connection \<Rightarrow> connection" where
  "write_to msg c = c\<lparr>outbox := outbox c @ [msg]\<rparr>"

definition chat_message :: "string \<Rightarrow> string \<Rightarrow> string" where
  "chat_message name msg = ''from '' @ name @ '': '' @ msg @ [nl]"

text \<open>
  \<open>broadcast\<close>: every member but the sender is written to. Nothing a write does shows in another
  connection, so the order in which the set is traversed does not matter.
\<close>

definition broadcast :: "string \<Rightarrow> nat \<Rightarrow> hub \<Rightarrow> hub" where
  "broadcast msg sender h =
    (let text = chat_message (get_login (get_user (connects h ! sender))) msg in
     h\<lparr>connects := map (\<lambda>i. if i \<noteq> sender then write_to text (connects h ! i) else connects h ! i)
         [0..<length (connects h)],
       said := said h @ [(sender, msg)]\<rparr>)"

text \<open>The handler of \<open>async_accept\<close>, then the next one is started.\<close>

definition wait_connection :: "bool \<Rightarrow> hub \<Rightarrow> hub" where
  "wait_connection ec h =
    (if \<not> ec then h\<lparr>connects := connects h @ [Connection_start (new_connection (length (said h)))], console := console h @ [''Con'']\<rparr>
     else h)"

text \<open>
  The handler of the read on connection \<open>i\<close>: after an error the connection is not read again, and it
  stays in \<open>connects\<close>.
\<close>

definition read_request :: "bool \<Rightarrow> nat \<Rightarrow> hub \<Rightarrow> hub" where
  "read_request ec i h =
    (if \<not> ec then
       let (line, left) = getline (unread (connects h ! i));
           h = h\<lparr>connects := (connects h)[i := (connects h ! i)\<lparr>unread := left\<rparr>]\<rparr>;
           h = h\<lparr>console := console h @ [''Received: '' @ line]\<rparr>
       in broadcast line i h
     else h\<lparr>connects := (connects h)[i := (connects h ! i)\<lparr>reading := False\<rparr>],
            errors := errors h @ [''Client disconnected.'']\<rparr>)"

text \<open>The handler of a write.\<close>

definition write_done :: "bool \<Rightarrow> hub \<Rightarrow> hub" where
  "write_done ec h = (if ec then h\<lparr>errors := errors h @ [''Client disconnected.'']\<rparr> else h)"

text \<open>
  The steps: an accept completes, bytes arrive, a read completes, with an error or because a line has
  arrived, a write completes.
\<close>

datatype hub_event =
    Accept bool
  | Bytes nat string
  | Read_Done nat bool
  | Write_Done bool

fun hub_step :: "hub_event \<Rightarrow> hub \<Rightarrow> hub" where
  "hub_step (Accept ec) h = wait_connection ec h"
| "hub_step (Bytes i bytes) h =
    (if i < length (connects h) then
       let c = connects h ! i in
       h\<lparr>connects := (connects h)[i := c\<lparr>unread := unread c @ bytes, arrived := arrived c @ bytes\<rparr>]\<rparr>
     else h)"
| "hub_step (Read_Done i ec) h =
    (if i < length (connects h) \<and> reading (connects h ! i) \<and> (ec \<or> nl \<in> set (unread (connects h ! i)))
     then read_request ec i h else h)"
| "hub_step (Write_Done ec) h = write_done ec h"

text \<open>\<open>Server::start\<close>, and the server after a sequence of steps.\<close>

definition hub_start :: "hub \<Rightarrow> hub" where
  "hub_start h = h\<lparr>console := console h @ [''The server has been started on 0.0.0.0:8000'']\<rparr>"

definition hub_run :: "hub_event list \<Rightarrow> hub" where
  "hub_run es = fold hub_step es (hub_start hub_new)"

text \<open>
  \<open>main\<close>: opening the acceptor may throw; otherwise the steps \<open>es\<close> are those until a signal stops the server.
\<close>

definition server_main :: "string option \<Rightarrow> hub_event list \<Rightarrow> hub \<times> bool" where
  "server_main start_error es =
    (case start_error of
       Some what \<Rightarrow> (hub_new\<lparr>errors := [''Error: '' @ what]\<rparr>, False)
     | None \<Rightarrow>
         let h = hub_run es in (h\<lparr>console := console h @ [CHR 9 # ''The server has been stopped'']\<rparr>, True))"

text \<open>What the lines of one connection were, and what a connection has been sent.\<close>

definition lines_from :: "nat \<Rightarrow> hub \<Rightarrow> string list" where
  "lines_from i h = map snd (filter (\<lambda>(s, l). s = i) (said h))"

definition heard :: "nat \<Rightarrow> hub \<Rightarrow> string list" where
  "heard k h = map snd (filter (\<lambda>(s, l). s \<noteq> k) (drop (joined (connects h ! k)) (said h)))"

definition conn_inv :: "(nat \<times> string) list \<Rightarrow> nat \<Rightarrow> connection \<Rightarrow> bool" where
  "conn_inv calls i c \<longleftrightarrow> get_login (get_user c) = ''Anonimous'' \<and> joined c \<le> length calls \<and>
     arrived c = line_text (map snd (filter (\<lambda>(s, l). s = i) calls)) @ unread c \<and>
     outbox c = map (\<lambda>(s, l). chat_message ''Anonimous'' l) (filter (\<lambda>(s, l). s \<noteq> i) (drop (joined c) calls))"

definition hub_inv :: "hub \<Rightarrow> bool" where
  "hub_inv h \<longleftrightarrow> (\<forall>i < length (connects h). conn_inv (said h) i (connects h ! i)) \<and>
     (\<forall>(s, l) \<in> set (said h). s < length (connects h) \<and> nl \<notin> set l)"

lemma get_user_simps [simp]:
  "get_user (c\<lparr>unread := s\<rparr>) = get_user c" "get_user (c\<lparr>reading := b\<rparr>) = get_user c"
  "get_user (c\<lparr>arrived := t\<rparr>) = get_user c" "get_user (c\<lparr>outbox := out\<rparr>) = get_user c"
  by (simp_all add: get_user_def)

lemma length_broadcast [simp]: "length (connects (broadcast msg i h)) = length (connects h)"
  by (simp add: broadcast_def Let_def)

lemma broadcast_inv:
  assumes "hub_inv (h\<lparr>connects := (connects h)[i := (connects h ! i)\<lparr>unread := line @ nl # left\<rparr>]\<rparr>)"
    and "i < length (connects h)" and "nl \<notin> set line" and "unread (connects h ! i) = left"
  shows "hub_inv (broadcast line i h)"
proof -
  have inv: "conn_inv (said h) k
      (if k = i then (connects h ! i)\<lparr>unread := line @ nl # left\<rparr> else connects h ! k)"
    if "k < length (connects h)" for k
    using assms(1) that by (auto simp: hub_inv_def nth_list_update split: if_splits)
  have "conn_inv (said h @ [(i, line)]) k (connects (broadcast line i h) ! k)" if "k < length (connects h)" for k
    using inv [OF that] inv [OF assms(2)] that assms(2,4)
    by (auto simp: conn_inv_def broadcast_def write_to_def Let_def line_text_def split: if_splits)
  moreover have "\<forall>(s, l) \<in> set (said h @ [(i, line)]). s < length (connects h) \<and> nl \<notin> set l"
    using assms(1-3) by (auto simp: hub_inv_def)
  ultimately show ?thesis by (simp add: hub_inv_def broadcast_def Let_def)
qed

lemma conn_inv_simps [simp]:
  "conn_inv calls i (c\<lparr>reading := b\<rparr>) = conn_inv calls i c"
  by (simp add: conn_inv_def)

lemma hub_inv_step:
  assumes "hub_inv h"
  shows "hub_inv (hub_step e h)"
proof (cases e)
  case (Accept ec)
  have "conn_inv (said h) (length (connects h)) (Connection_start (new_connection (length (said h))))"
    using assms by (auto simp: conn_inv_def Connection_start_def new_connection_def get_user_def get_login_def hub_inv_def line_text_def filter_empty_conv)
  with assms Accept show ?thesis
    by (fastforce simp: wait_connection_def hub_inv_def nth_append less_Suc_eq)
next
  case (Bytes i bytes)
  with assms show ?thesis by (auto simp: hub_inv_def conn_inv_def nth_list_update Let_def)
next
  case (Read_Done i ec)
  show ?thesis
  proof (cases "i < length (connects h) \<and> reading (connects h ! i) \<and> (ec \<or> nl \<in> set (unread (connects h ! i)))")
    case due: True
    show ?thesis
    proof (cases ec)
      case True
      with assms Read_Done due show ?thesis
        by (auto simp: read_request_def hub_inv_def nth_list_update)
    next
      case False
      with due obtain line left where u: "unread (connects h ! i) = line @ nl # left" "nl \<notin> set line"
        by (cases "unread (connects h ! i)" rule: line_cases) auto
      let ?h = "h\<lparr>connects := (connects h)[i := (connects h ! i)\<lparr>unread := left\<rparr>],
        console := console h @ [''Received: '' @ line]\<rparr>"
      have "(connects h ! i)\<lparr>unread := unread (connects h ! i)\<rparr> = connects h ! i" by simp
      then have same: "(connects h)[i := (connects h ! i)\<lparr>unread := line @ nl # left\<rparr>] = connects h"
        unfolding u(1) by (metis list_update_id)
      have "hub_inv (broadcast line i ?h)"
        using assms due u same by (intro broadcast_inv [where left = left]) (simp_all add: hub_inv_def)
      with Read_Done due False u show ?thesis by (simp add: read_request_def getline_line)
    qed
  qed (use Read_Done assms in auto)
next
  case (Write_Done ec)
  with assms show ?thesis by (simp add: write_done_def hub_inv_def)
qed

interpretation hub: event_system hub_step hub_inv
  by unfold_locales (rule hub_inv_step)

lemma hub_run_inv: "hub_inv (hub_run es)"
  unfolding hub_run_def by (rule hub.run_inv) (simp add: hub_start_def hub_new_def hub_inv_def)

text \<open>
  The lines a connection has had broadcast are the first lines of what arrived on it, and the pending
  reads will broadcast the others.
\<close>

lemma stream_lines:
  assumes "hub_inv h" and "i < length (connects h)"
  shows "drain_lines (arrived (connects h ! i)) =
    (lines_from i h @ fst (drain_lines (unread (connects h ! i))), snd (drain_lines (unread (connects h ! i))))"
proof -
  have "\<forall>l \<in> set (lines_from i h). nl \<notin> set l" using assms(1) by (auto simp: hub_inv_def lines_from_def)
  moreover have "arrived (connects h ! i) = line_text (lines_from i h) @ unread (connects h ! i)"
    using assms by (simp add: hub_inv_def conn_inv_def lines_from_def)
  ultimately show ?thesis by (simp add: drain_line_text)
qed

lemma read_step:
  assumes "i < length (connects h)" and "reading (connects h ! i)"
    and "unread (connects h ! i) = line @ nl # left" and "nl \<notin> set line"
  defines "h' \<equiv> hub_step (Read_Done i False) h"
  shows "lines_from i h' = lines_from i h @ [line]" "length (connects h') = length (connects h)"
    "reading (connects h' ! i)" "unread (connects h' ! i) = left"
    "arrived (connects h' ! i) = arrived (connects h ! i)"
  using assms(1-4) by (simp_all add: h'_def read_request_def getline_line broadcast_def lines_from_def Let_def)

lemma reads_drain:
  assumes "i < length (connects h)" and "reading (connects h ! i)"
  shows "lines_from i (fold hub_step (replicate (length (fst (drain_lines (unread (connects h ! i))))) (Read_Done i False)) h) =
    lines_from i h @ fst (drain_lines (unread (connects h ! i)))"
  using assms
proof (induction "length (unread (connects h ! i))" arbitrary: h rule: less_induct)
  case less
  show ?case
  proof (cases "unread (connects h ! i)" rule: line_cases)
    case 1
    then show ?thesis by (simp add: drain_lines_rest)
  next
    case (2 line left)
    note step = read_step [OF less.prems 2]
    from less.hyps [of "hub_step (Read_Done i False) h"] less.prems step 2
    show ?thesis by (simp add: drain_lines_line)
  qed
qed

subsection \<open>The client\<close>

text \<open>\<open>main\<close> reads its input by lines until the end of it.\<close>

function stdin_lines :: "string \<Rightarrow> string list" where
  "stdin_lines s = (if s = [] then [] else (case getline s of (line, s) \<Rightarrow> line # stdin_lines s))"
  by pat_completeness auto
termination
proof (relation "measure length")
  fix s line rest :: string
  assume "s \<noteq> []" and "(line, rest) = getline s"
  then have "length rest = length (dropWhile (\<lambda>c. c \<noteq> nl) s) - 1" and "0 < length s" by (simp_all add: getline_def)
  moreover have "length (dropWhile (\<lambda>c. c \<noteq> nl) s) \<le> length s" by (rule length_dropWhile_le)
  ultimately have "length rest < length s" by linarith
  then show "(rest, s) \<in> measure length" by simp
qed simp

declare stdin_lines.simps [simp del]

lemma stdin_lines_no_nl: "\<forall>l \<in> set (stdin_lines s). nl \<notin> set l"
proof (induction s rule: stdin_lines.induct)
  case (1 s)
  obtain line rest where l: "getline s = (line, rest)" by fastforce
  then have "nl \<notin> set line" by (auto simp: getline_def dest: set_takeWhileD)
  with 1 l show ?case by (subst stdin_lines.simps) simp
qed

text \<open>\<open>send_message\<close> starts a write of the message and a line feed. The reader prints each line it receives.\<close>

definition send_message :: "string \<Rightarrow> string" where
  "send_message msg = msg @ [nl]"

definition client_prints :: "string \<Rightarrow> string list" where
  "client_prints received = map (\<lambda>l. ''Server: '' @ l) (fst (drain_lines received))"

text \<open>
  The client: the constructor may fail, which \<open>main\<close> reports; otherwise it sends a message for each line of
  \<open>stdin\<close> and prints the lines of \<open>received\<close>, the bytes that arrive before its destructor closes the socket.
  \<open>failures\<close> are the errors of the writes that failed by then. The reading thread and the one that sends use the
  same socket object without a lock; here the two directions of the connection are independent.
\<close>

record client_result =
  sends :: "string list"
  prints :: "string list"
  complains :: "string list"

definition client_main :: "string option \<Rightarrow> string \<Rightarrow> string list \<Rightarrow> string \<Rightarrow> client_result" where
  "client_main start_error stdin failures received =
    (case start_error of
       Some what \<Rightarrow> \<lparr>sends = [], prints = [], complains = [''Client error: '' @ what]\<rparr>
     | None \<Rightarrow> \<lparr>sends = map send_message (stdin_lines stdin),
         prints = ''Connected to server.'' # client_prints received,
         complains = map (\<lambda>e. ''Send failed: '' @ e) failures\<rparr>)"

lemma client_sends: "concat (sends (client_main None stdin failures received)) = line_text (stdin_lines stdin)"
  by (simp add: client_main_def line_text_def send_message_def [abs_def])

lemma typed_lines:
  assumes "hub_inv h" and "i < length (connects h)"
    and "prefix (arrived (connects h ! i)) (concat (sends (client_main None stdin failures received)))"
  shows "prefix (lines_from i h) (stdin_lines stdin)"
proof -
  have "prefix (fst (drain_lines (arrived (connects h ! i)))) (fst (drain_lines (line_text (stdin_lines stdin) @ [])))"
    using drain_lines_prefix [OF assms(3)] by (simp add: client_sends)
  moreover have "fst (drain_lines (line_text (stdin_lines stdin) @ [])) = stdin_lines stdin"
    by (subst drain_line_text [OF stdin_lines_no_nl]) (simp add: drain_lines_rest)
  moreover have "prefix (lines_from i h) (fst (drain_lines (arrived (connects h ! i))))"
    unfolding stream_lines [OF assms(1,2)] by simp
  ultimately show ?thesis by (metis prefix_order.order_trans)
qed

lemma chat_text:
  "concat (map (\<lambda>(s, l). chat_message ''Anonimous'' l) xs) = line_text (map (\<lambda>l. ''from Anonimous: '' @ l) (map snd xs))"
  by (induction xs) (auto simp: chat_message_def line_text_def)

lemma client_hears:
  assumes "hub_inv h" and "k < length (connects h)"
  shows "client_prints (concat (outbox (connects h ! k))) = map (\<lambda>l. ''Server: from Anonimous: '' @ l) (heard k h)"
proof -
  let ?xs = "filter (\<lambda>(s, l). s \<noteq> k) (drop (joined (connects h ! k)) (said h))"
  have "outbox (connects h ! k) = map (\<lambda>(s, l). chat_message ''Anonimous'' l) ?xs"
    using assms by (simp add: hub_inv_def conn_inv_def)
  then have sent: "concat (outbox (connects h ! k)) = line_text (map (\<lambda>l. ''from Anonimous: '' @ l) (heard k h)) @ []"
    by (simp add: chat_text heard_def)
  have "\<forall>l \<in> set (heard k h). nl \<notin> set l"
    using assms(1) by (auto simp: heard_def hub_inv_def dest: in_set_dropD)
  then show ?thesis unfolding client_prints_def sent
    by (subst drain_line_text) (auto simp: drain_lines_rest)
qed

subsection \<open>Properties\<close>

text \<open>
  C35: how the bytes of a client are cut into packets and interleaved with the others makes no difference to
  the lines the server takes from it: in every state the server can reach, what it has broadcast for a
  connection are the first lines of all that arrived there, and as many read handlers as there are
  complete lines left broadcast exactly the remaining ones.
\<close>

theorem packets_do_not_matter:
  assumes "i < length (connects (hub_run es))" and "reading (connects (hub_run es) ! i)"
  shows "\<exists>pending. fst (drain_lines (arrived (connects (hub_run es) ! i))) = lines_from i (hub_run es) @ pending \<and>
    lines_from i (hub_run (es @ replicate (length pending) (Read_Done i False))) =
      fst (drain_lines (arrived (connects (hub_run es) ! i)))"
  using stream_lines [OF hub_run_inv assms(1)] reads_drain [OF assms] by (simp add: hub_run_def)

theorem packets_do_not_matter_witness:
  "let es = [Accept False, Bytes 0 ''he'', Accept False, Bytes 0 [CHR ''y'', nl]] in
   \<exists>pending. fst (drain_lines (arrived (connects (hub_run es) ! 0))) = lines_from 0 (hub_run es) @ pending \<and>
    lines_from 0 (hub_run (es @ replicate (length pending) (Read_Done 0 False))) =
      fst (drain_lines (arrived (connects (hub_run es) ! 0)))"
  unfolding Let_def
  by (rule packets_do_not_matter)
    (simp_all add: hub_run_def hub_start_def hub_new_def wait_connection_def new_connection_def Connection_start_def)

text \<open>
  C36: a chat from end to end, between clients that type what they type and a server in any state it can
  reach. When each client's writes reach the server whole and in order as far as they have come, and \<open>received\<close> is
  as much of the writes to client \<open>k\<close> as has come there, then what the server broadcast for a client is what
  was typed there, line by line, from its beginning; and client \<open>k\<close> prints, one line each, the lines that were
  broadcast since it joined and are not its own, in the one order in which the server broadcast them,
  from their beginning, and all of them when everything has arrived.
\<close>

theorem chat_delivers:
  assumes "k < length (connects (hub_run es))"
    and "\<forall>i < length (connects (hub_run es)).
      prefix (arrived (connects (hub_run es) ! i)) (concat (sends (client_main None (typed i) [] [])))"
    and "prefix received (concat (outbox (connects (hub_run es) ! k)))"
  shows "let printed = prints (client_main None (typed k) failures received);
      all = ''Connected to server.'' # map (\<lambda>l. ''Server: from Anonimous: '' @ l) (heard k (hub_run es))
    in (\<forall>i < length (connects (hub_run es)). prefix (lines_from i (hub_run es)) (stdin_lines (typed i))) \<and>
      prefix printed all \<and> (received = concat (outbox (connects (hub_run es) ! k)) \<longrightarrow> printed = all)"
proof -
  note hears = client_hears [OF hub_run_inv assms(1)]
  have "prefix (client_prints received) (client_prints (concat (outbox (connects (hub_run es) ! k))))"
    unfolding client_prints_def by (rule map_mono_prefix [OF drain_lines_prefix [OF assms(3)]])
  then show ?thesis
    using typed_lines [OF hub_run_inv] assms(2) hears by (simp add: client_main_def)
qed

theorem chat_delivers_witness:
  "let h = hub_run [Accept False, Accept False, Bytes 0 (''hi'' @ [nl, CHR ''y'']), Read_Done 0 False]
   in prefix (lines_from 0 h) (stdin_lines (''hi'' @ [nl] @ ''you'')) \<and>
     prints (client_main None [] [] (concat (outbox (connects h ! 1)))) =
       [''Connected to server.'', ''Server: from Anonimous: hi'']"
proof -
  let ?es = "[Accept False, Accept False, Bytes 0 (''hi'' @ [nl, CHR ''y'']), Read_Done 0 False]"
  let ?typed = "\<lambda>i::nat. if i = 0 then ''hi'' @ [nl] @ ''you'' else []"
  have n: "length (connects (hub_run ?es)) = 2" and heard: "heard 1 (hub_run ?es) = [''hi'']" by code_simp+
  have "prefix (arrived (connects (hub_run ?es) ! 0)) (concat (sends (client_main None (?typed 0) [] [])))"
    "prefix (arrived (connects (hub_run ?es) ! 1)) (concat (sends (client_main None (?typed 1) [] [])))"
    by code_simp+
  then have came: "\<forall>i < length (connects (hub_run ?es)).
      prefix (arrived (connects (hub_run ?es) ! i)) (concat (sends (client_main None (?typed i) [] [])))"
    unfolding n by (auto simp: less_2_cases_iff)
  have "1 < length (connects (hub_run ?es))" using n by simp
  note chat = chat_delivers [OF this came prefix_order.order_refl, of "[]", unfolded Let_def]
  have "prefix (lines_from 0 (hub_run ?es)) (stdin_lines (?typed 0))"
    by (rule chat [THEN conjunct1, rule_format]) (simp only: n)
  moreover have "prints (client_main None (?typed 1) [] (concat (outbox (connects (hub_run ?es) ! 1)))) =
      [''Connected to server.'', ''Server: from Anonimous: hi'']"
    using chat [THEN conjunct2, THEN conjunct2, rule_format, OF refl] by (simp only: heard) simp
  ultimately show ?thesis by (simp add: Let_def)
qed

end
