(* ===== verification/Chat_Writes.thy ===== *)
theory Chat_Writes
  imports Messager
begin

text \<open>
  The memory behind the writes of \<open>messager-cpp\<close>. \<open>Connection::write\<close> and \<open>Client::send_message\<close> give
  \<open>async_write\<close> a view of a string that is a temporary of the calling statement (\<open>server.cpp\<close>, line 40;
  \<open>client.cpp\<close>, line 64) and is destroyed at the end of that statement. The library documents that a write is
  carried out by several sends, that the memory must stay valid until it is complete, and it makes the
  first send when the write is started; how much that one takes is a parameter here.
\<close>

subsection \<open>Strings in memory\<close>

text \<open>
  An allocated string has an address; addresses are not used again, so that reading one after its release
  is told apart from reading another string.
\<close>

record memory =
  blocks :: "nat \<Rightarrow> string option"
  next_block :: nat

text \<open>\<open>boost::asio::buffer\<close>: where the bytes are and how many; \<open>offset\<close> is the number already sent.\<close>

record view =
  base :: nat
  offset :: nat
  remaining :: nat

definition read_view :: "nat \<Rightarrow> view \<Rightarrow> memory \<Rightarrow> string res" where
  "read_view n v mem =
    (case blocks mem (base v) of
       None \<Rightarrow> Inl Undefined
     | Some s \<Rightarrow> if offset v + n \<le> length s then Inr (take n (drop (offset v) s)) else Inl Undefined)"

definition buffer_of :: "nat \<Rightarrow> memory \<Rightarrow> view res" where
  "buffer_of a mem =
    (case blocks mem a of
       None \<Rightarrow> Inl Undefined
     | Some s \<Rightarrow> Inr \<lparr>base = a, offset = 0, remaining = length s\<rparr>)"

subsection \<open>Writes\<close>

text \<open>\<open>wire\<close> is what was sent on the socket, \<open>pending\<close> the writes that are not complete, in the order they were started.\<close>

record channel =
  wire :: string
  pending :: "view list"

text \<open>A send of \<open>n\<close> bytes, and the write that is left to do.\<close>

definition rest_of :: "nat \<Rightarrow> view \<Rightarrow> view list" where
  "rest_of n v = (if n < remaining v then [v\<lparr>offset := offset v + n, remaining := remaining v - n\<rparr>] else [])"

text \<open>Starting a write: \<open>None\<close> is a first send that takes everything.\<close>

definition async_write :: "view \<Rightarrow> nat option \<Rightarrow> memory \<Rightarrow> channel \<Rightarrow> channel res" where
  "async_write v taken mem c =
    (let n = (case taken of None \<Rightarrow> remaining v | Some n \<Rightarrow> min n (remaining v)) in
     bnd (read_view n v mem) (\<lambda>bytes. Inr (c\<lparr>wire := wire c @ bytes, pending := pending c @ rest_of n v\<rparr>)))"

text \<open>The next send of the \<open>j\<close>-th write that is not complete.\<close>

definition continue_write :: "nat \<Rightarrow> nat \<Rightarrow> memory \<Rightarrow> channel \<Rightarrow> channel res" where
  "continue_write j n mem c =
    (let v = pending c ! j; n = min n (remaining v) in
     bnd (read_view n v mem) (\<lambda>bytes. Inr (c\<lparr>wire := wire c @ bytes,
       pending := take j (pending c) @ rest_of n v @ drop (Suc j) (pending c)\<rparr>)))"

record net =
  mem :: memory
  channels :: "channel list"

definition net_new :: net where
  "net_new = \<lparr>mem = \<lparr>blocks = (\<lambda>a. None), next_block = 0\<rparr>, channels = []\<rparr>"

definition accept_channel :: "net \<Rightarrow> net" where
  "accept_channel net = net\<lparr>channels := channels net @ [\<lparr>wire = [], pending = []\<rparr>]\<rparr>"

text \<open>\<open>Connection::write\<close> on the message at address \<open>a\<close>.\<close>

definition Connection_write :: "nat \<Rightarrow> nat \<Rightarrow> nat option \<Rightarrow> net \<Rightarrow> net res" where
  "Connection_write k a taken net =
    bnd (buffer_of a (mem net)) (\<lambda>v.
    bnd (async_write v taken (mem net) (channels net ! k)) (\<lambda>c.
      Inr (net\<lparr>channels := (channels net)[k := c]\<rparr>)))"

text \<open>A statement whose expression makes a temporary string: it lives until the statement ends.\<close>

definition with_temporary :: "string \<Rightarrow> (nat \<Rightarrow> net \<Rightarrow> net res) \<Rightarrow> net \<Rightarrow> net res" where
  "with_temporary s statement net =
    (let m = mem net; a = next_block m;
         net = net\<lparr>mem := m\<lparr>blocks := (blocks m)(a \<mapsto> s), next_block := Suc a\<rparr>\<rparr>
     in bnd (statement a net) (\<lambda>net. Inr (net\<lparr>mem := (mem net)\<lparr>blocks := (blocks (mem net))(a := None)\<rparr>\<rparr>)))"

text \<open>The loop of \<open>Server::broadcast\<close>; \<open>taken\<close> is what the first send takes of the message, by member.\<close>

definition broadcast_writes :: "string \<Rightarrow> nat \<Rightarrow> (nat \<Rightarrow> nat option) \<Rightarrow> net \<Rightarrow> net res" where
  "broadcast_writes message sender taken net =
    for_each (\<lambda>i net. if i \<noteq> sender then with_temporary message (\<lambda>a. Connection_write i a (taken i)) net
        else Inr net)
      [0..<length (channels net)] net"

text \<open>The client writes on its one socket; its \<open>main\<close> sends one message after the other.\<close>

definition client_send :: "string \<times> nat option \<Rightarrow> net \<Rightarrow> net res" where
  "client_send m net = (case m of (msg, taken) \<Rightarrow>
     with_temporary (send_message msg) (\<lambda>a. Connection_write 0 a taken) net)"

subsection \<open>The server and its writes\<close>

text \<open>
  The handlers of \<open>Messager\<close>, with what the first sends take, and between them the sends of the writes that
  are not complete.
\<close>

datatype chat_event =
    Handler hub_event "nat \<Rightarrow> nat option"
  | Continue nat nat nat

fun chat_step :: "chat_event \<Rightarrow> hub \<times> net \<Rightarrow> (hub \<times> net) res" where
  "chat_step (Handler e taken) (h, net) =
    (case e of
       Accept ec \<Rightarrow> Inr (hub_step e h, if \<not> ec then accept_channel net else net)
     | Read_Done i ec \<Rightarrow>
         if i < length (connects h) \<and> reading (connects h ! i) \<and> \<not> ec \<and> nl \<in> set (unread (connects h ! i)) then
           bnd (broadcast_writes (chat_message (get_login (get_user (connects h ! i))) (fst (getline (unread (connects h ! i)))))
                  i taken net)
             (\<lambda>net. Inr (hub_step e h, net))
         else Inr (hub_step e h, net)
     | _ \<Rightarrow> Inr (hub_step e h, net))"
| "chat_step (Continue k j n) (h, net) =
    (if k < length (channels net) \<and> j < length (pending (channels net ! k)) then
       bnd (continue_write j n (mem net) (channels net ! k)) (\<lambda>c. Inr (h, net\<lparr>channels := (channels net)[k := c]\<rparr>))
     else Inr (h, net))"

definition chat_run :: "chat_event list \<Rightarrow> (hub \<times> net) res" where
  "chat_run es = for_each chat_step es (hub_start hub_new, net_new)"

fun handlers :: "chat_event list \<Rightarrow> hub_event list" where
  "handlers [] = []"
| "handlers (Handler e taken # es) = e # handlers es"
| "handlers (Continue k j n # es) = handlers es"

subsection \<open>What is on the wire\<close>

definition cut_text :: "nat option \<Rightarrow> string \<Rightarrow> string" where
  "cut_text taken s = (case taken of None \<Rightarrow> s | Some n \<Rightarrow> take n s)"

lemma cut_text_simps [simp]: "cut_text None s = s" "cut_text (Some n) s = take n s"
  by (simp_all add: cut_text_def)

text \<open>
  Between two handlers no temporary is left, so that every write that is not complete has lost its bytes.
  A channel carries the beginnings of its messages.
\<close>

definition quiet :: "net \<Rightarrow> bool" where
  "quiet net \<longleftrightarrow> blocks (mem net) = (\<lambda>a. None)"

definition carries :: "(nat option \<Rightarrow> bool) \<Rightarrow> string list \<Rightarrow> channel \<Rightarrow> bool" where
  "carries P ms c \<longleftrightarrow> (\<exists>ts. length ts = length ms \<and> (\<forall>t \<in> set ts. P t) \<and> wire c = concat (map2 cut_text ts ms) \<and>
     length (pending c) = length (filter (\<lambda>(t, m). cut_text t m \<noteq> m) (zip ts ms)))"

definition sent_on :: "string \<Rightarrow> nat option \<Rightarrow> nat \<Rightarrow> channel \<Rightarrow> channel" where
  "sent_on s taken a c = c\<lparr>wire := wire c @ cut_text taken s,
     pending := pending c @ (case taken of None \<Rightarrow> [] | Some n \<Rightarrow> rest_of n \<lparr>base = a, offset = 0, remaining = length s\<rparr>)\<rparr>"

lemma write_temporary:
  assumes "quiet net"
  shows "with_temporary s (\<lambda>a. Connection_write k a taken) net =
    Inr (net\<lparr>mem := (mem net)\<lparr>next_block := Suc (next_block (mem net))\<rparr>,
      channels := (channels net)[k := sent_on s taken (next_block (mem net)) (channels net ! k)]\<rparr>)"
  using assms
  by (auto simp: with_temporary_def Connection_write_def buffer_of_def async_write_def read_view_def rest_of_def
      sent_on_def cut_text_def quiet_def Let_def min_def fun_eq_iff split: option.split)

lemma carries_sent:
  assumes "carries P ms c" and "P taken"
  shows "carries P (ms @ [s]) (sent_on s taken a c)"
proof -
  obtain ts where "length ts = length ms" "\<forall>t \<in> set ts. P t" "wire c = concat (map2 cut_text ts ms)"
    "length (pending c) = length (filter (\<lambda>(t, m). cut_text t m \<noteq> m) (zip ts ms))"
    using assms(1) by (auto simp: carries_def)
  with assms(2) show ?thesis unfolding carries_def
    by (intro exI [of _ "ts @ [taken]"]) (cases taken; auto simp: sent_on_def rest_of_def not_less)
qed

lemma broadcast_writes_spec:
  assumes "quiet net"
  shows "\<exists>net'. broadcast_writes s sender taken net = Inr net' \<and> quiet net' \<and>
    length (channels net') = length (channels net) \<and>
    (\<forall>i < length (channels net). if i \<noteq> sender then \<exists>a. channels net' ! i = sent_on s (taken i) a (channels net ! i)
       else channels net' ! i = channels net ! i)"
proof -
  let ?body = "\<lambda>i net. if i \<noteq> sender then with_temporary s (\<lambda>a. Connection_write i a (taken i)) net else Inr net"
  have "k \<le> length (channels net) \<Longrightarrow> \<exists>net'. for_each ?body [0..<k] net = Inr net' \<and> quiet net' \<and>
      length (channels net') = length (channels net) \<and>
      (\<forall>i < length (channels net). if i < k \<and> i \<noteq> sender then \<exists>a. channels net' ! i = sent_on s (taken i) a (channels net ! i)
         else channels net' ! i = channels net ! i)" for k
  proof (induction k)
    case (Suc k)
    then obtain n where n: "for_each ?body [0..<k] net = Inr n" "quiet n" "length (channels n) = length (channels net)"
      "\<forall>i < length (channels net). if i < k \<and> i \<noteq> sender then \<exists>a. channels n ! i = sent_on s (taken i) a (channels net ! i)
         else channels n ! i = channels net ! i"
      by auto
    then show ?case using Suc.prems
      by (auto simp: for_each_append write_temporary quiet_def nth_list_update less_Suc_eq)
  qed (simp add: assms)
  from this [of "length (channels net)"] show ?thesis by (auto simp: broadcast_writes_def)
qed

text \<open>The state of a run, when what the first sends take satisfies \<open>P\<close>.\<close>

definition chat_inv :: "(nat \<Rightarrow> nat option \<Rightarrow> bool) \<Rightarrow> hub \<times> net \<Rightarrow> bool" where
  "chat_inv P s \<longleftrightarrow> (case s of (h, net) \<Rightarrow> quiet net \<and> length (channels net) = length (connects h) \<and>
     (\<forall>k < length (connects h). carries (P k) (outbox (connects h ! k)) (channels net ! k)))"

lemma continue_undefined:
  assumes "chat_inv P (h, net)" and "k < length (channels net)" and "j < length (pending (channels net ! k))"
  shows "chat_step (Continue k j n) (h, net) = Inl Undefined"
  using assms by (simp add: chat_inv_def quiet_def continue_write_def read_view_def Let_def)

lemma broadcast_outbox:
  "k < length (connects h) \<Longrightarrow> outbox (connects (broadcast msg i h) ! k) =
    outbox (connects h ! k) @ (if k = i then [] else [chat_message (get_login (get_user (connects h ! i))) msg])"
  by (simp add: broadcast_def write_to_def Let_def)

lemma handler_step:
  assumes inv: "chat_inv P (h, net)" and ok: "\<And>k. P k (taken k)"
  shows "\<exists>net'. chat_step (Handler e taken) (h, net) = Inr (hub_step e h, net') \<and> chat_inv P (hub_step e h, net')"
proof (cases e)
  case (Accept ec)
  have "carries (P k) [] \<lparr>wire = [], pending = []\<rparr>" for k by (simp add: carries_def)
  with inv Accept show ?thesis
    by (auto simp: chat_inv_def wait_connection_def accept_channel_def quiet_def nth_append less_Suc_eq
        Connection_start_def new_connection_def)
next
  case (Bytes i bytes)
  with inv show ?thesis by (auto simp: chat_inv_def nth_list_update Let_def)
next
  case (Write_Done ec)
  with inv show ?thesis by (auto simp: chat_inv_def write_done_def)
next
  case (Read_Done i ec)
  show ?thesis
  proof (cases "i < length (connects h) \<and> reading (connects h ! i) \<and> \<not> ec \<and> nl \<in> set (unread (connects h ! i))")
    case False
    with inv Read_Done show ?thesis by (auto simp: chat_inv_def read_request_def nth_list_update)
  next
    case True
    let ?msg = "chat_message (get_login (get_user (connects h ! i))) (fst (getline (unread (connects h ! i))))"
    have q: "quiet net" "length (channels net) = length (connects h)" using inv by (simp_all add: chat_inv_def)
    obtain net' where net': "broadcast_writes ?msg i taken net = Inr net'" "quiet net'"
      "length (channels net') = length (channels net)"
      "\<forall>k < length (channels net). if k \<noteq> i then \<exists>a. channels net' ! k = sent_on ?msg (taken k) a (channels net ! k)
         else channels net' ! k = channels net ! k"
      using broadcast_writes_spec [OF q(1)] by blast
    obtain line left where l: "getline (unread (connects h ! i)) = (line, left)" by fastforce
    have len: "length (connects (hub_step e h)) = length (connects h)"
      using True Read_Done l by (simp add: read_request_def)
    have out: "outbox (connects (hub_step e h) ! k) = outbox (connects h ! k) @ (if k = i then [] else [?msg])"
      if "k < length (connects h)" for k
      using True Read_Done l that by (simp add: read_request_def broadcast_outbox nth_list_update)
    have "carries (P k) (outbox (connects (hub_step e h) ! k)) (channels net' ! k)" if k: "k < length (connects h)" for k
    proof -
      have c: "carries (P k) (outbox (connects h ! k)) (channels net ! k)" using inv k by (simp add: chat_inv_def)
      show ?thesis using net'(4) [rule_format, of k] k carries_sent [OF c ok] c by (auto simp: q(2) out)
    qed
    then have "chat_inv P (hub_step e h, net')" using net' q len by (simp add: chat_inv_def)
    with net' True Read_Done show ?thesis by simp
  qed
qed

text \<open>A run is defined as long as no write is continued, and then the server is the one of \<open>Messager\<close>.\<close>

definition continues :: "chat_event list \<Rightarrow> bool" where
  "continues es \<longleftrightarrow> (\<exists>before k j n after h net. es = before @ Continue k j n # after \<and>
     chat_run before = Inr (h, net) \<and> k < length (channels net) \<and> j < length (pending (channels net ! k)))"

lemma continues_append: "continues es \<Longrightarrow> continues (es @ fs)"
  unfolding continues_def by fastforce

lemma chat_run_snoc: "chat_run (es @ [e]) = bnd (chat_run es) (chat_step e)"
  by (simp add: chat_run_def for_each_append bnd_def split: sum.split)

lemma handlers_snoc: "handlers (es @ [e]) = handlers es @ (case e of Handler e' taken \<Rightarrow> [e'] | _ \<Rightarrow> [])"
  by (induction es rule: handlers.induct) (simp_all split: chat_event.split)

definition allows :: "(nat \<Rightarrow> nat option \<Rightarrow> bool) \<Rightarrow> chat_event list \<Rightarrow> bool" where
  "allows P es \<longleftrightarrow> (\<forall>e taken k. Handler e taken \<in> set es \<longrightarrow> P k (taken k))"

lemma chat_run_state:
  assumes "allows P es"
  shows "case chat_run es of
      Inl e \<Rightarrow> e = Undefined \<and> continues es
    | Inr (h, net) \<Rightarrow> h = hub_run (handlers es) \<and> chat_inv P (h, net)"
  using assms
proof (induction es rule: rev_induct)
  case Nil
  show ?case
    by (simp add: chat_run_def hub_run_def chat_inv_def hub_start_def hub_new_def net_new_def quiet_def)
next
  case (snoc e es)
  show ?case
  proof (cases "chat_run es")
    case (Inl err)
    have "allows P es" using snoc.prems by (simp add: allows_def)
    then have "err = Undefined \<and> continues es" using snoc.IH Inl by simp
    with continues_append Inl show ?thesis by (simp add: chat_run_snoc)
  next
    case (Inr s)
    then obtain h net where run: "chat_run es = Inr (h, net)" by (cases s) simp
    moreover have "allows P es" using snoc.prems by (simp add: allows_def)
    ultimately have h: "h = hub_run (handlers es)" and inv: "chat_inv P (h, net)" using snoc.IH by auto
    show ?thesis
    proof (cases e)
      case (Handler e' taken)
      then have "P k (taken k)" for k using snoc.prems by (simp add: allows_def)
      from handler_step [OF inv this, of e'] obtain net' where
        "chat_step e (h, net) = Inr (hub_step e' h, net')" "chat_inv P (hub_step e' h, net')"
        unfolding Handler by blast
      then show ?thesis using Handler by (simp add: chat_run_snoc run handlers_snoc h hub_run_def)
    next
      case (Continue k j n)
      show ?thesis
      proof (cases "k < length (channels net) \<and> j < length (pending (channels net ! k))")
        case True
        then have "continues (es @ [e])" using run Continue unfolding continues_def by blast
        moreover have "chat_step e (h, net) = Inl Undefined"
          using continue_undefined [OF inv] True Continue by simp
        ultimately show ?thesis by (simp add: chat_run_snoc run)
      next
        case False
        then have "chat_step e (h, net) = Inr (h, net)" using Continue by auto
        with inv h show ?thesis using Continue by (simp add: chat_run_snoc run handlers_snoc)
      qed
    qed
  qed
qed

lemma allows_any: "allows (\<lambda>k t. True) es"
  by (simp add: allows_def)

lemma continues_undefined:
  assumes "continues es"
  shows "chat_run es = Inl Undefined"
proof -
  obtain before k j n after h net where es: "es = before @ Continue k j n # after"
    and run: "chat_run before = Inr (h, net)" "k < length (channels net)" "j < length (pending (channels net ! k))"
    using assms unfolding continues_def by blast
  have "chat_inv (\<lambda>k t. True) (h, net)" using chat_run_state [OF allows_any, of before] unfolding run(1) by auto
  from continue_undefined [OF this run(2,3)] have "chat_step (Continue k j n) (h, net) = Inl Undefined" .
  moreover have "chat_run es = bnd (chat_run before) (for_each chat_step (Continue k j n # after))"
    by (simp only: es chat_run_def for_each_append)
  ultimately show ?thesis by (simp only: run(1) bnd_simps for_each.simps)
qed

lemma carries_whole:
  assumes "carries (\<lambda>t. t = None) ms c"
  shows "wire c = concat ms \<and> pending c = []"
proof -
  obtain ts where ts: "length ts = length ms" "\<forall>t \<in> set ts. t = None" "wire c = concat (map2 cut_text ts ms)"
    "length (pending c) = length (filter (\<lambda>(t, m). cut_text t m \<noteq> m) (zip ts ms))"
    using assms by (auto simp: carries_def)
  from ts(1,2) have "map2 cut_text ts ms = ms" "filter (\<lambda>(t, m). cut_text t m \<noteq> m) (zip ts ms) = []"
    by (induction ts ms rule: list_induct2) simp_all
  with ts show ?thesis by simp
qed

lemma map_eq_nth: "length xs = length ys \<Longrightarrow> (\<And>i. i < length ys \<Longrightarrow> f (xs ! i) = g (ys ! i)) \<Longrightarrow> map f xs = map g ys"
  by (simp add: list_eq_iff_nth_eq)

lemma uncut_continues:
  assumes "allows (\<lambda>k t. t = None) es"
  shows "\<not> continues es"
proof
  assume "continues es"
  then obtain before k j n after h net where es: "es = before @ Continue k j n # after"
    and run: "chat_run before = Inr (h, net)" "k < length (channels net)" "j < length (pending (channels net ! k))"
    unfolding continues_def by blast
  have "allows (\<lambda>k t. t = None) before" using assms by (simp add: es allows_def)
  from chat_run_state [OF this] have "chat_inv (\<lambda>k t. t = None) (h, net)" unfolding run(1) by auto
  with run(2) have "pending (channels net ! k) = []" by (auto simp: chat_inv_def dest: carries_whole)
  with run(3) show False by simp
qed

text \<open>The client's writes: one message after the other, with what the first sends take.\<close>

lemma client_send_state:
  assumes "quiet net" and "length (channels net) = 1" and "carries P ms (channels net ! 0)" and "P (snd m)"
  shows "\<exists>net'. client_send m net = Inr net' \<and> quiet net' \<and> length (channels net') = 1 \<and>
    carries P (ms @ [send_message (fst m)]) (channels net' ! 0)"
  using assms carries_sent [OF assms(3), of "snd m"]
  by (cases m) (simp add: client_send_def write_temporary quiet_def)

lemma client_sends_state:
  assumes "quiet net" and "length (channels net) = 1" and "carries P ms (channels net ! 0)" and "\<forall>m \<in> set msgs. P (snd m)"
  shows "\<exists>net'. for_each client_send msgs net = Inr net' \<and> quiet net' \<and> length (channels net') = 1 \<and>
    carries P (ms @ map (\<lambda>m. send_message (fst m)) msgs) (channels net' ! 0)"
  using assms
proof (induction msgs arbitrary: net ms)
  case (Cons m msgs)
  obtain n where n: "client_send m net = Inr n" "quiet n" "length (channels n) = 1"
    "carries P (ms @ [send_message (fst m)]) (channels n ! 0)"
    using client_send_state [of net P ms m] Cons.prems by auto
  with Cons.IH [of n "ms @ [send_message (fst m)]"] Cons.prems(4) show ?case by simp
qed simp

subsection \<open>Properties\<close>

text \<open>
  C16: the temporaries given to \<open>async_write\<close> are safe only as long as every write takes its whole message when it
  is started. A run of the server is undefined exactly when some write that is not complete makes another
  send. Otherwise the server behaves as without the sends, each connection has been sent the beginnings of
  its messages that the first sends took, one after the other, and to go on with any of those that were
  cut is undefined. If nothing is cut the run is defined and every connection receives its whole outbox;
  and a client that sends its lines in the same way sends them all.
\<close>

theorem temporaries_outlived:
  "(case chat_run es of
      Inl e \<Rightarrow> e = Undefined \<and> continues es
    | Inr (h, net) \<Rightarrow> \<not> continues es \<and> h = hub_run (handlers es) \<and> length (channels net) = length (connects h) \<and>
        (\<forall>k < length (connects h). carries (\<lambda>t. True) (outbox (connects h ! k)) (channels net ! k) \<and>
          (\<forall>j < length (pending (channels net ! k)). \<forall>n. chat_run (es @ [Continue k j n]) = Inl Undefined))) \<and>
   ((\<forall>e taken. Handler e taken \<in> set es \<longrightarrow> taken = (\<lambda>k. None)) \<longrightarrow>
      (\<exists>net. chat_run es = Inr (hub_run (handlers es), net) \<and>
        map wire (channels net) = map (\<lambda>c. concat (outbox c)) (connects (hub_run (handlers es))))) \<and>
   (\<exists>net. for_each client_send (map (\<lambda>l. (l, None)) (stdin_lines typed)) (accept_channel net_new) = Inr net \<and>
      map wire (channels net) = [concat (sends (client_main None typed [] []))])"
proof (intro conjI impI)
  show "case chat_run es of
      Inl e \<Rightarrow> e = Undefined \<and> continues es
    | Inr (h, net) \<Rightarrow> \<not> continues es \<and> h = hub_run (handlers es) \<and> length (channels net) = length (connects h) \<and>
        (\<forall>k < length (connects h). carries (\<lambda>t. True) (outbox (connects h ! k)) (channels net ! k) \<and>
          (\<forall>j < length (pending (channels net ! k)). \<forall>n. chat_run (es @ [Continue k j n]) = Inl Undefined))"
    using chat_run_state [OF allows_any, of es] continue_undefined [of "\<lambda>k t. True"] continues_undefined [of es]
    by (cases "chat_run es") (auto simp: chat_inv_def chat_run_snoc)
next
  assume "\<forall>e taken. Handler e taken \<in> set es \<longrightarrow> taken = (\<lambda>k. None)"
  then have none: "allows (\<lambda>k t. t = None) es" by (auto simp: allows_def)
  with uncut_continues have "\<not> continues es" by blast
  with chat_run_state [OF none] show "\<exists>net. chat_run es = Inr (hub_run (handlers es), net) \<and>
      map wire (channels net) = map (\<lambda>c. concat (outbox c)) (connects (hub_run (handlers es)))"
    by (cases "chat_run es") (auto simp: chat_inv_def intro!: map_eq_nth dest!: carries_whole)
next
  have "carries (\<lambda>t. t = None) [] (channels (accept_channel net_new) ! 0)"
    by (simp add: carries_def accept_channel_def net_new_def)
  then obtain net where "for_each client_send (map (\<lambda>l. (l, None)) (stdin_lines typed)) (accept_channel net_new) = Inr net"
    "length (channels net) = 1"
    "carries (\<lambda>t. t = None) (map send_message (stdin_lines typed)) (channels net ! 0)"
    using client_sends_state [of "accept_channel net_new" "\<lambda>t. t = None" "[]" "map (\<lambda>l. (l, None)) (stdin_lines typed)"]
    by (auto simp: accept_channel_def net_new_def quiet_def comp_def)
  then show "\<exists>net. for_each client_send (map (\<lambda>l. (l, None)) (stdin_lines typed)) (accept_channel net_new) = Inr net \<and>
      map wire (channels net) = [concat (sends (client_main None typed [] []))]"
    by (auto simp: client_main_def length_Suc_conv dest: carries_whole)
qed

text \<open>Two clients, one line, of whose message the first send takes three bytes.\<close>

theorem temporaries_outlived_witness:
  "let es = [Handler (Accept False) (\<lambda>k. None), Handler (Accept False) (\<lambda>k. None),
      Handler (Bytes 0 (''hi'' @ [nl])) (\<lambda>k. None)]; cut = es @ [Handler (Read_Done 0 False) (\<lambda>k. Some 3)]
   in chat_run (cut @ [Continue 1 0 5]) = Inl Undefined \<and>
     (\<exists>net. chat_run cut = Inr (hub_run (handlers cut), net) \<and> map wire (channels net) = [[], ''fro'']) \<and>
     (\<exists>net. chat_run (es @ [Handler (Read_Done 0 False) (\<lambda>k. None)]) = Inr (hub_run (handlers cut), net) \<and>
        map wire (channels net) = [[], ''from Anonimous: hi'' @ [nl]])"
proof -
  let ?es = "[Handler (Accept False) (\<lambda>k. None), Handler (Accept False) (\<lambda>k. None),
      Handler (Bytes 0 (''hi'' @ [nl])) (\<lambda>k. None)]"
  let ?cut = "?es @ [Handler (Read_Done 0 False) (\<lambda>k. Some 3)]"
  let ?whole = "?es @ [Handler (Read_Done 0 False) (\<lambda>k. None)]"
  have run: "(case chat_run ?cut of Inl e \<Rightarrow> [] | Inr (h, net) \<Rightarrow> map (\<lambda>c. (wire c, length (pending c))) (channels net)) =
      [([], 0), (''fro'', 1)]"
    and n: "length (connects (hub_run (handlers ?cut))) = 2"
    and out: "map (\<lambda>c. concat (outbox c)) (connects (hub_run (handlers ?whole))) = [[], ''from Anonimous: hi'' @ [nl]]"
    by code_simp+
  obtain h net where inr: "chat_run ?cut = Inr (h, net)" using run by (cases "chat_run ?cut") auto
  then have chans: "map (\<lambda>c. (wire c, length (pending c))) (channels net) = [([], 0), (''fro'', 1)]" using run by simp
  then have wires: "map wire (channels net) = [[], ''fro'']" "0 < length (pending (channels net ! 1))"
    by (auto simp: map_eq_Cons_conv)
  have h: "h = hub_run (handlers ?cut)"
    and cont: "\<forall>k < length (connects h). \<forall>j < length (pending (channels net ! k)). \<forall>n. chat_run (?cut @ [Continue k j n]) = Inl Undefined"
    using temporaries_outlived [of ?cut "[]", THEN conjunct1] unfolding inr by auto
  have "chat_run (?cut @ [Continue 1 0 5]) = Inl Undefined"
    using cont [rule_format, of 1 0 5] wires(2) n unfolding h by simp
  moreover have "\<exists>net. chat_run ?whole = Inr (hub_run (handlers ?whole), net) \<and>
      map wire (channels net) = map (\<lambda>c. concat (outbox c)) (connects (hub_run (handlers ?whole)))"
    by (rule temporaries_outlived [of ?whole "[]", THEN conjunct2, THEN conjunct1, rule_format]) auto
  moreover have "handlers ?whole = handlers ?cut" by simp
  ultimately show ?thesis using inr h wires(1) out unfolding Let_def by metis
qed

end
