(* ===== verification/Metro_Maps.thy ===== *)
theory Metro_Maps
  imports Prelude Step_Systems
begin

text \<open>
  \<open>metro-maps-cpp/src/main.cpp\<close>: the database client, a state machine driven by the completion handlers
  of its socket and its timer. What \<open>libpq\<close> returns is an argument of the definition that calls it.
\<close>

subsection \<open>The database client\<close>

datatype polling = Polling_OK | Polling_Reading | Polling_Writing | Polling_Failed

datatype wait = Wait_Read_Poll | Wait_Write_Poll | Wait_Result

text \<open>
  A result of \<open>PQgetResult\<close>: one with the status \<open>PGRES_TUPLES_OK\<close> has rows, columns and values, which
  \<open>PQgetvalue\<close> returns; any other status has none.
\<close>

datatype query_result = Tuples nat nat "nat \<Rightarrow> nat \<Rightarrow> string" | No_Tuples

text \<open>
  \<open>conn\<close> tells whether \<open>conn_\<close> points to a connection; \<open>waits\<close> are the asynchronous waits on the socket
  whose handlers have not run, \<open>timers\<close> the number of those on the timer; \<open>thrown\<close> tells that an exception has left a
  method (the next step is then made by a new call of the \<open>io_context\<close>); \<open>sent\<close> the queries passed to
  \<open>PQsendQuery\<close>; \<open>cleared\<close> and \<open>leaked\<close> the results freed and not freed; \<open>console\<close> what was printed.
\<close>

record pg =
  conn :: bool
  conn_ready :: bool
  socket_open :: bool
  pending_queries :: "string list"
  waits :: "wait list"
  timers :: nat
  thrown :: bool
  sent :: "string list"
  cleared :: "query_result list"
  leaked :: "query_result list"
  console :: "string list"

definition pg_new :: pg where
  "pg_new = \<lparr>conn = False, conn_ready = False, socket_open = False, pending_queries = [], waits = [],
     timers = 0, thrown = False, sent = [], cleared = [], leaked = [], console = []\<rparr>"

text \<open>What the library answers: which queries \<open>PQsendQuery\<close> takes, and \<open>PQerrorMessage\<close>.\<close>

record libpq =
  accepts :: "string \<Rightarrow> bool"
  error_message :: string

definition say :: "string \<Rightarrow> pg \<Rightarrow> pg" where
  "say m p = p\<lparr>console := console p @ [m]\<rparr>"

definition reconn_aft_del :: "pg \<Rightarrow> pg" where
  "reconn_aft_del p = p\<lparr>timers := timers p + 1\<rparr>"

definition cleanup_connection :: "pg \<Rightarrow> pg" where
  "cleanup_connection p =
    (let p = (if conn p then p\<lparr>conn := False\<rparr> else p);
         p = p\<lparr>conn_ready := False\<rparr>
     in if socket_open p then p\<lparr>socket_open := False\<rparr> else p)"

definition handle_connection_error :: "libpq \<Rightarrow> pg \<Rightarrow> pg" where
  "handle_connection_error pq p =
    reconn_aft_del (cleanup_connection (say (''Connection error: '' @ error_message pq) p))"

text \<open>
  \<open>socket_id\<close> is what \<open>PQsocket\<close> returns. The overload of \<open>assign\<close> without an error code throws when the socket is
  already open, which it leaves as it was.
\<close>

definition setup_async_connection :: "int \<Rightarrow> pg \<Rightarrow> pg" where
  "setup_async_connection socket_id p =
    (if socket_id < 0 then reconn_aft_del (say ''Invalid socket'' p)
     else if socket_open p then p\<lparr>thrown := True\<rparr>
     else p\<lparr>socket_open := True\<rparr>)"

text \<open>
  What \<open>PQconnectStart\<close> and \<open>PQstatus\<close> return: nothing, a bad connection, or one to go on with, whose socket
  is given.
\<close>

datatype start_result = No_Conn | Bad_Conn | Conn int

definition start_conn :: "libpq \<Rightarrow> start_result \<Rightarrow> pg \<Rightarrow> pg" where
  "start_conn pq started p =
    (let p = p\<lparr>conn := (started \<noteq> No_Conn)\<rparr> in
     case started of
       Conn socket_id \<Rightarrow> setup_async_connection socket_id p
     | _ \<Rightarrow> reconn_aft_del (say (''Connection start failed: '' @ error_message pq) p))"

definition wait_for_query_result :: "pg \<Rightarrow> pg" where
  "wait_for_query_result p = p\<lparr>waits := waits p @ [Wait_Result]\<rparr>"

definition send_query :: "libpq \<Rightarrow> string \<Rightarrow> pg \<Rightarrow> pg" where
  "send_query pq query p =
    (if \<not> accepts pq query then say (''Query failed: '' @ error_message pq) p
     else wait_for_query_result (p\<lparr>sent := sent p @ [query]\<rparr>))"

text \<open>The loop of \<open>on_conn_established\<close>; its guard is the queue it empties.\<close>

function send_pending :: "libpq \<Rightarrow> pg \<Rightarrow> pg" where
  "send_pending pq p =
    (case pending_queries p of
       [] \<Rightarrow> p
     | q # qs \<Rightarrow> send_pending pq ((send_query pq q p)\<lparr>pending_queries := qs\<rparr>))"
  by pat_completeness auto
termination
  by (relation "measure (\<lambda>(pq, p). length (pending_queries p))") auto

declare send_pending.simps [simp del]

definition on_conn_established :: "libpq \<Rightarrow> pg \<Rightarrow> pg" where
  "on_conn_established pq p =
    send_pending pq ((say ''Connected to DataBase'' p)\<lparr>conn_ready := True\<rparr>)"

text \<open>\<open>poll_connection_status\<close>: none of the three tests returns, so the last statement always runs.\<close>

definition poll_connection_status :: "libpq \<Rightarrow> polling \<Rightarrow> pg \<Rightarrow> pg" where
  "poll_connection_status pq status p =
    (let p = (if status = Polling_OK then on_conn_established pq p else p);
         p = (if status = Polling_Reading then p\<lparr>waits := waits p @ [Wait_Read_Poll]\<rparr> else p);
         p = (if status = Polling_Writing then p\<lparr>waits := waits p @ [Wait_Write_Poll]\<rparr> else p)
     in handle_connection_error pq p)"

text \<open>\<open>connect\<close> has an empty body; the timer's handler calls it.\<close>

definition connect :: "pg \<Rightarrow> pg" where
  "connect p = p"

definition on_timer :: "bool \<Rightarrow> pg \<Rightarrow> pg" where
  "on_timer ec p = (if \<not> ec then connect (say ''Attempting to reconnect...'' p) else p)"

text \<open>
  The results of a query are what the successive calls of \<open>PQgetResult\<close> return before the null pointer. The
  first is printed and cleared, the second only compared with the null pointer, and the rest are left to
  the recursive call.
\<close>

definition row_text :: "nat \<Rightarrow> (nat \<Rightarrow> string) \<Rightarrow> string" where
  "row_text cols v = concat (map (\<lambda>j. v j @ '' '') [0..<cols])"

definition print_result :: "query_result \<Rightarrow> string list" where
  "print_result r =
    (case r of
       Tuples rows cols getvalue \<Rightarrow>
         (''Query result: '' @ to_string rows @ '' rows, '' @ to_string cols @ '' columns'')
         # map (\<lambda>i. row_text cols (getvalue i)) [0..<rows]
     | No_Tuples \<Rightarrow> [])"

fun process_query_result :: "query_result list \<Rightarrow> pg \<Rightarrow> pg" where
  "process_query_result [] p = p"
| "process_query_result (r # rs) p =
    (let p = p\<lparr>console := console p @ print_result r, cleared := cleared p @ [r]\<rparr> in
     case rs of [] \<Rightarrow> p | skipped # rs \<Rightarrow> process_query_result rs (p\<lparr>leaked := leaked p @ [skipped]\<rparr>))"

text \<open>
  The handler of \<open>wait_for_query_result\<close>: \<open>busy\<close> is what \<open>PQisBusy\<close> returns once the input is consumed.
\<close>

definition on_result_ready :: "libpq \<Rightarrow> bool \<Rightarrow> bool \<Rightarrow> query_result list \<Rightarrow> pg \<Rightarrow> pg" where
  "on_result_ready pq ec busy results p =
    (if ec then handle_connection_error pq p
     else if busy then wait_for_query_result p
     else process_query_result results p)"

text \<open>
  The client's steps: a call of \<open>start_conn\<close>, a call of \<open>poll_connection_status\<close>, the handler of the \<open>i\<close>-th
  wait on the socket, the handler of a wait on the timer.
\<close>

datatype pg_event =
    Start start_result
  | Poll polling
  | Socket_Ready nat bool polling bool "query_result list"
  | Timer_Expired bool

definition take_wait :: "nat \<Rightarrow> pg \<Rightarrow> pg" where
  "take_wait i p = p\<lparr>waits := take i (waits p) @ drop (Suc i) (waits p)\<rparr>"

fun pg_step :: "libpq \<Rightarrow> pg_event \<Rightarrow> pg \<Rightarrow> pg" where
  "pg_step pq (Start started) p = start_conn pq started p"
| "pg_step pq (Poll status) p = poll_connection_status pq status p"
| "pg_step pq (Socket_Ready i ec status busy results) p =
    (if i < length (waits p) then
       let w = waits p ! i; p = take_wait i p in
       if w = Wait_Result then on_result_ready pq ec busy results p
       else if \<not> ec then poll_connection_status pq status p
       else handle_connection_error pq p
     else p)"
| "pg_step pq (Timer_Expired ec) p =
    (if timers p \<noteq> 0 then on_timer ec (p\<lparr>timers := timers p - 1\<rparr>) else p)"

subsection \<open>What the state machine does\<close>

lemma handle_connection_error_effect [simp]:
  "conn (handle_connection_error pq p) = False" "conn_ready (handle_connection_error pq p) = False"
  "socket_open (handle_connection_error pq p) = False" "timers (handle_connection_error pq p) = timers p + 1"
  "pending_queries (handle_connection_error pq p) = pending_queries p"
  "sent (handle_connection_error pq p) = sent p" "waits (handle_connection_error pq p) = waits p"
  by (simp_all add: handle_connection_error_def reconn_aft_del_def cleanup_connection_def say_def Let_def)

lemma send_pending_spec:
  "pending_queries (send_pending pq p) = [] \<and>
   sent (send_pending pq p) = sent p @ filter (accepts pq) (pending_queries p) \<and>
   waits (send_pending pq p) =
     waits p @ replicate (length (filter (accepts pq) (pending_queries p))) Wait_Result \<and>
   timers (send_pending pq p) = timers p"
proof (induction pq p rule: send_pending.induct)
  case (1 pq p)
  show ?case
  proof (cases "pending_queries p")
    case Nil
    then show ?thesis by (simp add: send_pending.simps)
  next
    case (Cons q qs)
    with 1 [OF Cons] show ?thesis
      by (subst (1 2 3 4) send_pending.simps) (simp add: send_query_def wait_for_query_result_def say_def)
  qed
qed

text \<open>Whatever the status, the connection is torn down and a reconnection is scheduled.\<close>

lemma poll_effect:
  "conn (poll_connection_status pq status p) = False" "conn_ready (poll_connection_status pq status p) = False"
  "socket_open (poll_connection_status pq status p) = False"
  "timers (poll_connection_status pq status p) = timers p + 1"
  "sent (poll_connection_status pq status p) =
    sent p @ (if status = Polling_OK then filter (accepts pq) (pending_queries p) else [])"
  by (simp_all add: poll_connection_status_def Let_def on_conn_established_def send_pending_spec say_def)

text \<open>The results at odd positions are neither printed nor cleared.\<close>

lemma every_other:
  "map (\<lambda>i. (r # s # rs) ! (2 * i)) [0..<(length (r # s # rs) + 1) div 2] =
    r # map (\<lambda>i. rs ! (2 * i)) [0..<(length rs + 1) div 2]"
  "map (\<lambda>i. (r # s # rs) ! (2 * i + 1)) [0..<length (r # s # rs) div 2] =
    s # map (\<lambda>i. rs ! (2 * i + 1)) [0..<length rs div 2]"
proof -
  have "[0..<(length (r # s # rs) + 1) div 2] = 0 # map Suc [0..<(length rs + 1) div 2]"
    "[0..<length (r # s # rs) div 2] = 0 # map Suc [0..<length rs div 2]"
    by (simp_all add: map_Suc_upt upt_conv_Cons del: upt_Suc)
  then show "map (\<lambda>i. (r # s # rs) ! (2 * i)) [0..<(length (r # s # rs) + 1) div 2] =
      r # map (\<lambda>i. rs ! (2 * i)) [0..<(length rs + 1) div 2]"
    "map (\<lambda>i. (r # s # rs) ! (2 * i + 1)) [0..<length (r # s # rs) div 2] =
      s # map (\<lambda>i. rs ! (2 * i + 1)) [0..<length rs div 2]"
    by (simp_all add: comp_def del: upt_Suc)
qed

lemma process_query_result_spec:
  "process_query_result rs p =
    (let printed = map (\<lambda>i. rs ! (2 * i)) [0..<(length rs + 1) div 2] in
     p\<lparr>console := console p @ concat (map print_result printed), cleared := cleared p @ printed,
       leaked := leaked p @ map (\<lambda>i. rs ! (2 * i + 1)) [0..<length rs div 2]\<rparr>)"
proof (induction rs p rule: process_query_result.induct)
  case (2 r rs p)
  show ?case
  proof (cases rs)
    case Nil
    then show ?thesis by simp
  next
    case (Cons s ts)
    with 2 show ?thesis by (simp only: every_other Let_def process_query_result.simps list.case) simp
  qed
qed simp

lemma result_ready_not_connects: "\<not> conn_ready p \<Longrightarrow> \<not> conn_ready (on_result_ready pq ec busy results p)"
  by (simp add: on_result_ready_def wait_for_query_result_def process_query_result_spec Let_def)

lemma start_not_connects: "conn_ready (start_conn pq started p) = conn_ready p"
  by (simp add: start_conn_def setup_async_connection_def reconn_aft_del_def say_def Let_def
      split: start_result.splits)

text \<open>No step of the client makes it ready.\<close>

lemma step_never_ready: "\<not> conn_ready p \<Longrightarrow> \<not> conn_ready (pg_step pq e p)"
  by (cases e) (simp_all add: start_not_connects poll_effect result_ready_not_connects take_wait_def on_timer_def
      connect_def say_def Let_def)

interpretation unready: event_system "pg_step pq" "\<lambda>p. \<not> conn_ready p" for pq
  by unfold_locales (rule step_never_ready)

subsection \<open>Properties\<close>

text \<open>
  C37: the database client never connects. After any sequence of its steps, in any order and with any
  answers of \<open>libpq\<close>, it is not ready for queries; and a poll in any state, even one that reports success,
  leaves it with the connection finished and the socket closed, after the pending queries were sent into it, and
  with one more reconnection scheduled, of which the timer's handler does nothing.
\<close>

theorem poll_never_connects:
  "\<not> conn_ready (fold (pg_step pq) es pg_new) \<and>
   (let p' = pg_step pq (Poll status) p in
     \<not> conn p' \<and> \<not> socket_open p' \<and> timers p' = timers p + 1 \<and>
     sent p' = sent p @ (if status = Polling_OK then filter (accepts pq) (pending_queries p) else []) \<and>
     pg_step pq (Timer_Expired ec) p' =
       (if ec then p'\<lparr>timers := timers p\<rparr>
        else p'\<lparr>timers := timers p, console := console p' @ [''Attempting to reconnect...'']\<rparr>))"
  using unready.run_inv [where s = pg_new and es = es and pq = pq]
  by (simp add: pg_new_def Let_def poll_effect on_timer_def connect_def say_def)

text \<open>
  C38: of the results of a query only the first, third, fifth and so on are printed and cleared; the others
  are taken from the connection, not printed, and leaked.
\<close>

theorem results_skipped:
  "process_query_result rs p =
    (let printed = map (\<lambda>i. rs ! (2 * i)) [0..<(length rs + 1) div 2] in
     p\<lparr>console := console p @ concat (map print_result printed), cleared := cleared p @ printed,
       leaked := leaked p @ map (\<lambda>i. rs ! (2 * i + 1)) [0..<length rs div 2]\<rparr>)"
  by (rule process_query_result_spec)

end
