(* ===== verification/Metro_Http.thy ===== *)
theory Metro_Http
  imports Prelude Step_Systems "HOL-Library.AList"
begin

text \<open>
  \<open>metro-maps-cpp/src/main.cpp\<close>: the HTTP connection's answer to a request, the handlers of its connections
  and of the acceptor, and \<open>main\<close> with the threads that run them. The fields a response sets are an
  association list; setting a field replaces its value.
\<close>

datatype verb = Verb_Get | Verb_Other

datatype field = Content_Type | Server_Name | Content_Length

record request =
  req_method :: verb
  target :: string
  version :: nat

record response =
  resp_version :: nat
  keep_alive :: bool
  status :: nat
  resp_fields :: "(field \<times> string) list"
  body :: string

definition set_field :: "field \<Rightarrow> string \<Rightarrow> response \<Rightarrow> response" where
  "set_field f v r = r\<lparr>resp_fields := AList.update f v (resp_fields r)\<rparr>"

definition page :: "nat \<Rightarrow> string \<Rightarrow> string \<Rightarrow> response \<Rightarrow> response" where
  "page code ctype text r = (set_field Content_Type ctype (r\<lparr>status := code\<rparr>))\<lparr>body := text\<rparr>"

definition main_page :: string where
  "main_page = ''Hello from server!<br>Use it!<br><a href='' @ [CHR 34] @ ''http://127.0.0.1:8000/maps'' @ [CHR 34] @
     ''>Click</a>''"

definition handle_get :: "request \<Rightarrow> response \<Rightarrow> response" where
  "handle_get req r =
    (if target req = ''/main'' then page 200 ''text/html'' main_page r
     else if target req = ''/maps'' then page 200 ''text/html'' ''There is nothing((('' r
     else if target req = ''/maps/mstusfl'' then
       page 200 ''text/html'' ''Well, there is the most used routes<br>1...'' r
     else page 404 ''text/html'' ''404 Not Found'' r)"

text \<open>\<open>write_response\<close> completes the response it hands to \<open>async_write\<close>.\<close>

definition write_response :: "response \<Rightarrow> response" where
  "write_response r =
    set_field Content_Length (to_string (length (body r))) (set_field Server_Name ''Boost.Asio HTTP Server'' r)"

definition new_response :: response where
  "new_response = \<lparr>resp_version = 11, keep_alive = True, status = 200, resp_fields = [], body = []\<rparr>"

definition handle_req :: "request \<Rightarrow> response" where
  "handle_req req =
    (let r = new_response\<lparr>resp_version := version req\<rparr>;
         r = r\<lparr>keep_alive := False\<rparr>
     in write_response
          (if req_method req = Verb_Get then handle_get req r
           else (set_field Content_Type ''text/plain'' (r\<lparr>status := 400\<rparr>))\<lparr>body := ''Invalid method''\<rparr>))"

subsection \<open>Connections and main\<close>

text \<open>
  A connection: the request it has read, the responses it has handed to \<open>async_write\<close>, whether a read or a
  write is under way, and whether the sending side of the socket has been shut down.
\<close>

record session =
  got :: "request option"
  sent :: "response list"
  reading :: bool
  writing :: bool
  send_shut :: bool

text \<open>The constructor and \<open>run\<close>, which starts the only read.\<close>

definition Connection_run :: session where
  "Connection_run = \<lparr>got = None, sent = [], reading = True, writing = False, send_shut = False\<rparr>"

text \<open>
  The handler of the read, with the request or none after an error: a request read with an error is not
  answered. The handler of the write does not look at its error.
\<close>

definition read_req :: "request option \<Rightarrow> session \<Rightarrow> session" where
  "read_req outcome c =
    (case outcome of
       None \<Rightarrow> c\<lparr>reading := False\<rparr>
     | Some req \<Rightarrow> c\<lparr>reading := False, got := Some req, sent := sent c @ [handle_req req], writing := True\<rparr>)"

definition write_done :: "session \<Rightarrow> session" where
  "write_done c = c\<lparr>writing := False, send_shut := True\<rparr>"

definition accept_conn :: "bool \<Rightarrow> session list \<Rightarrow> session list" where
  "accept_conn ec cs = (if \<not> ec then cs @ [Connection_run] else cs)"

text \<open>
  A handler runs on one of the threads of \<open>main\<close>. Those of a connection follow each other, and those of
  different connections share nothing, so that each of them is one step.
\<close>

datatype metro_event =
    Accepted bool
  | Read_Done nat "request option"
  | Write_Done nat

fun metro_step :: "metro_event \<Rightarrow> session list \<Rightarrow> session list" where
  "metro_step (Accepted ec) cs = accept_conn ec cs"
| "metro_step (Read_Done i outcome) cs =
    (if i < length cs \<and> reading (cs ! i) then cs[i := read_req outcome (cs ! i)] else cs)"
| "metro_step (Write_Done i) cs =
    (if i < length cs \<and> writing (cs ! i) then cs[i := write_done (cs ! i)] else cs)"

text \<open>
  \<open>main\<close>: opening the acceptor may throw, which is reported; then half as many threads as the processor
  has run the handlers, \<open>es\<close> being those that run until a signal stops the server. With no thread
  nothing is run, and \<open>main\<close> returns at once.
\<close>

definition handler_threads :: "nat \<Rightarrow> nat" where
  "handler_threads thread_count = thread_count div 2"

record metro_result =
  conns :: "session list"
  out :: "string list"
  err :: "string list"
  success :: bool

definition metro_main :: "string option \<Rightarrow> nat \<Rightarrow> metro_event list \<Rightarrow> metro_result" where
  "metro_main start_error thread_count es =
    (case start_error of
       Some what \<Rightarrow> \<lparr>conns = [], out = [], err = [what], success = False\<rparr>
     | None \<Rightarrow>
         if handler_threads thread_count = 0
         then \<lparr>conns = [], out = [''The server was started''], err = [], success = True\<rparr>
         else \<lparr>conns = fold metro_step es [],
                out = [''The server was started'', CHR 9 # ''The server has been stopped''], err = [], success = True\<rparr>)"

lemma fields_set_field: "map_of (resp_fields (set_field f v r)) = (map_of (resp_fields r))(f \<mapsto> v)"
  by (simp add: set_field_def update_conv')

lemma set_field_simps [simp]:
  "body (set_field f v r) = body r" "status (set_field f v r) = status r"
  "keep_alive (set_field f v r) = keep_alive r" "resp_version (set_field f v r) = resp_version r"
  by (simp_all add: set_field_def)

lemma page_simps [simp]:
  "body (page code t x r) = x" "status (page code t x r) = code" "keep_alive (page code t x r) = keep_alive r"
  "resp_version (page code t x r) = resp_version r"
  by (simp_all add: page_def)

lemma write_response_simps [simp]:
  "body (write_response r) = body r" "status (write_response r) = status r"
  "keep_alive (write_response r) = keep_alive r" "resp_version (write_response r) = resp_version r"
  by (simp_all add: write_response_def)

lemma response_length: "map_of (resp_fields (write_response r)) Content_Length = Some (to_string (length (body r)))"
  by (simp add: write_response_def fields_set_field)

lemma handle_get_simps [simp]: "keep_alive (handle_get req r) = keep_alive r"
  "resp_version (handle_get req r) = resp_version r"
  by (simp_all add: handle_get_def)

lemma handle_req_complete:
  "\<not> keep_alive (handle_req req)" "resp_version (handle_req req) = version req"
  "map_of (resp_fields (handle_req req)) Content_Length = Some (to_string (length (body (handle_req req))))"
  "status (handle_req req) = (if req_method req \<noteq> Verb_Get then 400
     else if target req \<in> {''/main'', ''/maps'', ''/maps/mstusfl''} then 200 else 404)"
  by (simp_all add: handle_req_def Let_def response_length) (simp add: handle_get_def)

text \<open>A connection answers the request it has read, once, and shuts down when the answer is out.\<close>

definition session_inv :: "session \<Rightarrow> bool" where
  "session_inv c \<longleftrightarrow> sent c = (case got c of None \<Rightarrow> [] | Some req \<Rightarrow> [handle_req req]) \<and>
     (reading c \<longrightarrow> got c = None) \<and> (send_shut c \<longleftrightarrow> got c \<noteq> None \<and> \<not> writing c) \<and> (writing c \<longrightarrow> got c \<noteq> None)"

lemma session_inv_ops:
  "session_inv Connection_run"
  "session_inv c \<Longrightarrow> reading c \<Longrightarrow> session_inv (read_req outcome c)"
  "session_inv c \<Longrightarrow> writing c \<Longrightarrow> session_inv (write_done c)"
  by (auto simp: session_inv_def Connection_run_def read_req_def write_done_def split: option.splits)

lemma metro_step_inv:
  assumes "list_all session_inv cs"
  shows "list_all session_inv (metro_step e cs)"
  using assms session_inv_ops
  by (cases e) (auto simp: accept_conn_def list_all_iff dest!: set_update_subset_insert [THEN subsetD])

interpretation sessions: event_system metro_step "list_all session_inv"
  by unfold_locales (rule metro_step_inv)

subsection \<open>Properties\<close>

text \<open>
  C39: whatever the handlers of the server do, in any order, every connection it has accepted sends nothing
  until it has read a request, and then exactly one response: it announces the end of the connection,
  carries the length of its body and the version of the request, succeeds for GET of the three pages, is
  not found for another path and a bad request for another method. The sending side is shut down exactly
  when the response is out. There is such a connection only on a machine with two threads at least:
  on a smaller one \<open>main\<close> runs no handler.
\<close>

theorem metro_serves:
  assumes "c \<in> set (conns (metro_main start_error thread_count es))"
  shows "2 \<le> thread_count \<and> start_error = None \<and>
    (got c = None \<and> sent c = [] \<and> \<not> send_shut c \<or>
     (\<exists>req r. got c = Some req \<and> sent c = [r] \<and> (send_shut c \<longleftrightarrow> \<not> writing c) \<and>
        \<not> keep_alive r \<and> resp_version r = version req \<and>
        map_of (resp_fields r) Content_Length = Some (to_string (length (body r))) \<and>
        status r = (if req_method req \<noteq> Verb_Get then 400
          else if target req \<in> {''/main'', ''/maps'', ''/maps/mstusfl''} then 200 else 404)))"
proof -
  have run: "start_error = None" "2 \<le> thread_count" "c \<in> set (fold metro_step es [])"
    using assms by (auto simp: metro_main_def handler_threads_def split: option.splits if_splits)
  then have "session_inv c" using sessions.run_inv [of "[]" es] by (simp add: list_all_iff)
  then show ?thesis using run handle_req_complete
    by (cases "got c") (auto simp: session_inv_def)
qed

theorem metro_serves_witness:
  "let req = \<lparr>req_method = Verb_Get, target = ''/maps'', version = 11\<rparr>;
       res = metro_main None 8 [Accepted False, Accepted False, Read_Done 1 (Some req), Write_Done 1]
   in \<exists>c r. c \<in> set (conns res) \<and> got c = Some req \<and> sent c = [r] \<and> status r = 200 \<and> send_shut c"
proof -
  let ?req = "\<lparr>req_method = Verb_Get, target = ''/maps'', version = 11\<rparr>"
  let ?res = "metro_main None 8 [Accepted False, Accepted False, Read_Done 1 (Some ?req), Write_Done 1]"
  let ?c = "write_done (read_req (Some ?req) Connection_run)"
  have c: "?c \<in> set (conns ?res)"
    by (simp add: metro_main_def handler_threads_def accept_conn_def) (simp add: Connection_run_def read_req_def)
  have "got ?c = Some ?req" "send_shut ?c" by (simp_all add: write_done_def read_req_def)
  with metro_serves [OF c] c show ?thesis unfolding Let_def by fastforce
qed

end
