(* ===== verification/Echo_Server.thy ===== *)
theory Echo_Server
  imports Winsock
begin

text \<open>
  \<open>echo-server-cpp/server.cpp\<close>: the program, as a function of what the system calls return. The accept
  loop serves the listed clients, one after the other, and then \<open>accept\<close> fails.
\<close>

text \<open>
  A client: its socket, the bytes that have arrived when \<open>recv\<close> returns, \<open>None\<close> standing for an error, and
  the value \<open>send\<close> returns.
\<close>

record echo_client =
  client_socket :: int
  arrives :: "string option"
  send_result :: int

record echo_result =
  exit_code :: int
  calls :: "wsa_call list"
  log :: "string list"
  errs :: "string list"
  echoes :: "string list"

definition echo_start :: echo_result where
  "echo_start = \<lparr>exit_code = 0, calls = [], log = [], errs = [], echoes = []\<rparr>"

definition add_log :: "string \<Rightarrow> echo_result \<Rightarrow> echo_result" where
  "add_log m r = r\<lparr>log := log r @ [m]\<rparr>"

definition add_calls :: "wsa_call list \<Rightarrow> echo_result \<Rightarrow> echo_result" where
  "add_calls cs r = r\<lparr>calls := calls r @ cs\<rparr>"

text \<open>What goes back to the client: as much as the single \<open>send\<close> takes.\<close>

definition echo_back :: "string \<Rightarrow> int \<Rightarrow> string" where
  "echo_back buffer sent = take (nat sent) buffer"

definition serve_client :: "echo_client \<Rightarrow> echo_result \<Rightarrow> echo_result" where
  "serve_client c r =
    (let r = add_log ''[+] New connection accepted'' (add_calls [Opened (client_socket c)] r);
         r = (case arrives c of
                None \<Rightarrow> add_log ''Recv failed'' r
              | Some bytes \<Rightarrow>
                  let buffer = take 4096 bytes in
                  if length buffer > 0 then
                    let r = add_log (''[*] Received: '' @ buffer) r;
                        r = r\<lparr>echoes := echoes r @ [echo_back buffer (send_result c)]\<rparr>
                    in if send_result c = -1 then add_log ''Send failed'' r else r
                  else add_log ''Connection closing...'' r)
     in add_calls [Closed (client_socket c)] r)"

definition failure_text :: "listen_failure \<Rightarrow> string" where
  "failure_text f = (case f of Startup_Failed \<Rightarrow> ''WSAStartup failed'' | Socket_Failed \<Rightarrow> ''Socket creation failed''
     | Bind_Failed \<Rightarrow> ''Bind failed'' | Listen_Failed \<Rightarrow> ''Listen failed'') @ [CHR 10]"

definition echo_main :: "listen_env \<Rightarrow> echo_client list \<Rightarrow> echo_result" where
  "echo_main env clients =
    (case open_listener env of
       (Inl f, cs) \<Rightarrow> (add_calls cs echo_start)\<lparr>exit_code := 1, errs := [failure_text f]\<rparr>
     | (Inr fd, cs) \<Rightarrow>
        (let r = add_log ''Server started on port 8080'' (add_calls cs echo_start);
             r = fold serve_client clients r;
             r = add_log ''Accept failed'' r
         in add_calls [Closed fd, Cleaned_Up] r))"

subsection \<open>Resources and echoes\<close>

text \<open>A client is served between its \<open>accept\<close> and its \<open>closesocket\<close>.\<close>

lemma serve_client_calls:
  "calls (serve_client c r) = calls r @ [Opened (client_socket c), Closed (client_socket c)]"
  by (simp add: serve_client_def add_log_def add_calls_def Let_def split: option.splits)

lemma serve_clients_calls:
  "\<exists>cs. neutral cs \<and> calls (fold serve_client clients r) = calls r @ cs"
proof (induction clients arbitrary: r)
  case Nil
  show ?case by (intro exI [of _ "[]"]) simp
next
  case (Cons c clients)
  from Cons [of "serve_client c r"] obtain cs where
    "neutral cs" "calls (fold serve_client clients (serve_client c r)) = calls (serve_client c r) @ cs" by blast
  then show ?case
    by (intro exI [of _ "[Opened (client_socket c), Closed (client_socket c)] @ cs"])
      (simp add: serve_client_calls neutral_append del: append_Cons)
qed

text \<open>The echoes: for every client whose bytes arrived, the prefix \<open>send\<close> took.\<close>

definition expected_echo :: "echo_client \<Rightarrow> string list" where
  "expected_echo c = (case arrives c of
     None \<Rightarrow> [] | Some bytes \<Rightarrow> if bytes = [] then [] else [take (nat (send_result c)) (take 4096 bytes)])"

lemma serve_client_echoes: "echoes (serve_client c r) = echoes r @ expected_echo c"
  by (simp add: serve_client_def expected_echo_def echo_back_def add_log_def add_calls_def Let_def split: option.splits)

lemma serve_clients_echoes: "echoes (fold serve_client clients r) = echoes r @ concat (map expected_echo clients)"
  by (induction clients arbitrary: r) (simp_all add: serve_client_echoes)

lemma echo_main_calls_released: "all_released (calls (echo_main env clients))"
proof (cases "open_listener env")
  case (Pair res cs)
  note held = open_listener_holds [of env, unfolded Pair]
  show ?thesis
  proof (cases res)
    case (Inl f)
    with Pair held show ?thesis by (simp add: echo_main_def add_calls_def echo_start_def)
  next
    case (Inr fd)
    obtain ds where "neutral ds" and
      "calls (fold serve_client clients (add_log ''Server started on port 8080'' (add_calls cs echo_start))) =
        calls (add_log ''Server started on port 8080'' (add_calls cs echo_start)) @ ds"
      using serve_clients_calls by blast
    then have "calls (echo_main env clients) = cs @ ds @ [Closed fd, Cleaned_Up]"
      using Pair Inr by (simp add: echo_main_def add_calls_def add_log_def echo_start_def Let_def)
    with held Inr \<open>neutral ds\<close> show ?thesis
      by (simp add: all_released_def held_after_def neutral_def)
  qed
qed

subsection \<open>Properties\<close>

text \<open>
  C40: every run of the echo server releases what it acquired, also when starting up fails: each socket is
  closed once and the socket library is cleaned up as often as it was started. Each client that sent
  bytes gets back the prefix of its first 4096 bytes that the single call of \<open>send\<close> took, in the order of
  the connections.
\<close>

theorem echo_server_run:
  "all_released (calls (echo_main env clients)) \<and>
   (case open_listener env of
      (Inl f, cs) \<Rightarrow> exit_code (echo_main env clients) = 1 \<and> echoes (echo_main env clients) = []
    | (Inr fd, cs) \<Rightarrow> exit_code (echo_main env clients) = 0 \<and>
        echoes (echo_main env clients) = concat (map expected_echo clients))"
proof
  show "all_released (calls (echo_main env clients))" by (rule echo_main_calls_released)
  have code: "exit_code (fold serve_client clients r) = exit_code r" for r
    by (induction clients arbitrary: r)
      (simp_all add: serve_client_def add_log_def add_calls_def Let_def split: option.splits)
  show "case open_listener env of
      (Inl f, cs) \<Rightarrow> exit_code (echo_main env clients) = 1 \<and> echoes (echo_main env clients) = []
    | (Inr fd, cs) \<Rightarrow> exit_code (echo_main env clients) = 0 \<and>
        echoes (echo_main env clients) = concat (map expected_echo clients)"
    by (auto simp: echo_main_def code serve_clients_echoes add_calls_def add_log_def echo_start_def Let_def
        split: prod.splits sum.splits)
qed

end
