(* ===== verification/Spec2Isabelle.thy ===== *)
theory Spec2Isabelle
  imports Gray_Accuracy Image_Effects Cache_System Http_Main Chat_Writes
    Metro_Maps Metro_Http Echo_Server
begin

text \<open>
  A verification development for the C++ programs of HighLoad-Systems. Every definition is translated from
  the source named in the text before it; the comments of each theory say what its lemmas show.

  \<^bold>\<open>The programs\<close>

  \<^item> \<open>image_processor\<close> reads a 24-bit BMP file, applies the filters of its command line in order and writes
    the result. The parser (\<open>parser.cpp\<close>) calls the factories (\<open>fabrics.cpp\<close>), the factories build the
    filters (\<open>filter.cpp\<close>), the filters rewrite the image (\<open>image.cpp\<close>) which \<open>io.cpp\<close> reads and writes;
    \<open>handler.cpp\<close> and \<open>image_processor.cpp\<close> put them together.
  \<^item> \<open>cache\<close> is a header with a sharded asynchronous key-value cache: one map, one task queue and one thread
    per shard.
  \<^item> \<open>HTTP-server-cpp\<close> is a server with an event loop, a thread pool, a request handler and a response cache
    with a time to live.
  \<^item> \<open>messager-cpp\<close> is a chat server with its client; \<open>metro-maps-cpp\<close> an HTTP server with a database client;
    \<open>echo-server-cpp\<close> an echo server.

  \<^bold>\<open>The theories\<close>

  \<^item> \<open>Prelude\<close>: the result type of code that throws or is undefined (\<open>cpp_error\<close>, \<open>bnd\<close>), loops (\<open>for_each\<close>),
    vectors with checked indices (\<open>vec_at\<close>, \<open>grid_put\<close>), 32-bit \<open>int\<close> whose overflow is undefined (\<open>i32\<close>), and
    decimal numerals. \<open>Undefined\<close> stands for what C++ leaves undefined: an index out of range, signed
    overflow, a double that does not fit the integer it is converted to.
  \<^item> \<open>Step_Systems\<close>: the locales of state machines, whose runs keep an invariant (\<open>event_system\<close>, \<open>step_system\<close>) and
    are bounded by a weight (\<open>weighted_system\<close>); every machine below interprets one of them.
  \<^item> \<open>Double_Arith\<close>: \<open>double\<close> and \<open>float\<close> as integer significand and exponent, with the IEEE operations rounded
    to nearest, ties to even, and the bounds the other theories need. Signed zeros are not told apart.
  \<^item> \<open>Bmp_Image\<close>: pixels, headers, the image, \<open>Matrix::Transpose\<close> and \<open>Image::Multiply\<close> with its specification.
    \<open>Gaussian_Blur\<close>: the blur and the separable kernel it applies.
    \<open>Image_Filters\<close>: the seven filters and \<open>ApplyFilters\<close>; the locale \<open>filter_chain\<close> is the contract of a
    filter. \<open>Filter_Args\<close>: the checks and factories. \<open>Arg_Parser\<close>: the command line. \<open>Bmp_IO\<close>: reader and writer
    on byte streams; the locale \<open>codec\<close> is the contract of the integer encodings. \<open>Bmp_Format\<close> and
    \<open>Bmp_Roundtrip\<close>: what they read and write. \<open>Image_Processor\<close>: \<open>main\<close> on a map of the file system with its
    access rights. \<open>Image_Requests\<close>: whole runs without filters, with \<open>-neg\<close>, \<open>-crop\<close>, \<open>-edge\<close>, and with anything but
    \<open>-crop\<close>, from the bytes read to the bytes written; \<open>Image_Effects\<close>: with \<open>-blur\<close> and \<open>-tunnel\<close>, for every
    parameter. \<open>Float_Error\<close> and \<open>Gray_Accuracy\<close>: the error of each double
    operation, and with it the bytes \<open>-gs\<close> writes.
  \<^item> \<open>Sharded_Cache\<close>: the operations of the cache and its refinement to one map; the locale \<open>kv_store\<close> is the
    contract of a store, interpreted by a shard and by the settled cache. \<open>Shard_Worker\<close>: the thread of a
    shard and its destructor, step by step. \<open>Cache_System\<close>: the cache with all its threads, which refines
    \<open>Sharded_Cache\<close>.
  \<^item> \<open>Ttl_Cache\<close>, \<open>Http_Parser\<close>, \<open>Http_Server\<close>, \<open>Server_Log\<close>, \<open>Thread_Pool\<close>: the HTTP server; the locale
    \<open>response_cache\<close> is what the handler relies on of the cache. \<open>Http_Log\<close>: the same handlers with what they
    log. \<open>Winsock\<close>: opening and releasing sockets, for both Windows servers. \<open>Http_System\<close> composes event
    loop, pool, request handler and response cache into one step relation in which the event loop and the
    four workers interleave. \<open>Http_Main\<close> is its start-up with the log.
  \<^item> \<open>Messager\<close>: the chat server, one step per completion handler that Boost.Asio runs.
    \<open>Chat_Writes\<close>: the memory behind its writes, and when they outlive it. \<open>Metro_Maps\<close>: the
    database client as a machine whose steps are polls, timers and results. \<open>Metro_Http\<close>, \<open>Echo_Server\<close>: the
    other servers.

  \<^bold>\<open>What the properties show\<close>

  For the image processor: which runs are undefined, exactly (rows too wide, or a crop or blur that does not
  fit is reached); every other run changes at most the output file and writes a file the program reads back;
  the convolution, the crop, the edge detection, the blur and the tunnel compute what they specify; the bytes
  written by \<open>-crop\<close>, \<open>-neg\<close>, \<open>-edge\<close>, \<open>-gs\<close>,
  \<open>-blur\<close> and \<open>-tunnel\<close> are given as functions of the bytes read; the parser accepts
  exactly its grammar and rejects with the right exception; reading inverts writing; and where the code goes
  wrong (a crop narrowed to 16 bits, overflows for the largest parameters, truncated files taken as complete,
  negatives and grays off by one).

  For the cache: its threads refine one map, they come to rest, and a destructor can hang or drop tasks.

  For the HTTP server: a failed start throws and logs the message of the call that failed and releases
  everything; the log of a running server tells what happened, and has an error for a client exactly when it
  got no complete \<open>200\<close> response; the response cache answers like its specification over every
  history of calls and is invisible to the clients, responses are framed except for unknown methods, the
  event loop hands over every ready client and keeps watching the others, the pool shuts down, and every
  accepted client is accounted for: one that \<open>FD_SET\<close> ignores because the set is full is lost,
  no other is, none is answered twice, and the workers answer every one they are given.

  For the other servers: a chat delivers what is typed, in one order, as long as every write is complete
  when it is started; every request is answered once; resources are released; the database client never
  connects.

  \<^bold>\<open>Bounds and fuel\<close>

  No definition uses fuel: loops over ranges are \<open>for_each\<close> over the range, the others are functions with a
  termination proof. \<open>wf_img\<close> asks for fewer than \<open>2 ^ 30\<close> rows and at most 715827882 columns, the largest
  width whose byte offsets are \<open>int\<close>s; \<open>reader_total\<close> shows that one column more is undefined.

  \<^bold>\<open>Not modelled\<close>

  Memory exhaustion, data races inside the socket object of the chat client, which two threads use without a
  lock, the order in which the threads of the HTTP server write to its log (\<open>Http_Log\<close> gives the
  messages of each handler, in its order), the third-party libraries (\<open>libm\<close>, the JSON
  library, \<open>spdlog\<close>, Boost.Asio, \<open>libpq\<close>, Winsock) beyond the values they return, which are parameters, and
  the Python projects of the repository. Spurious wake-ups of condition variables are steps of the threads;
  the bounds on runs before a shutdown (\<open>threads_settle\<close>, \<open>server_drains\<close>) count the other steps.
\<close>

end
